(* ===== verification/Prelude.thy ===== *)
theory Prelude
  imports Main "HOL-Library.Word" "HOL-Library.Signed_Division" "HOL-Library.Monad_Syntax"
begin

text \<open>
  Shared vocabulary of the development: the machine types of the C++ sources (bytes, the
  narrowing conversions between \<open>long\<close>, \<open>int\<close> and \<open>uint64\<close>), the exceptions the
  tables throw, decimal printing as \<^verbatim>\<open>std::to_string\<close> does it, and \<^verbatim>\<open>std::map\<close> as a
  strictly sorted association list behind the interface \<open>std_map\<close>.
\<close>

unbundle bit_operations_syntax

section \<open>Collections of facts\<close>

named_theorems tables_simps \<open>unfolding the operations of the in-memory tables\<close>
named_theorems codec_simps \<open>reading back what was stored into a block\<close>
named_theorems storage_simps \<open>unfolding the volume operations\<close>

section \<open>Machine types\<close>

type_synonym byte = "8 word"

text \<open>
  C++ integers are \<open>int\<close> here, and each conversion the sources make to a narrower or a
  signed type is written out (all targets of the build are two's complement).
\<close>

definition to_int32 :: "int \<Rightarrow> int" where
  "to_int32 x = signed_take_bit 31 x"

definition to_int64 :: "int \<Rightarrow> int" where
  "to_int64 x = signed_take_bit 63 x"

definition to_uint64 :: "int \<Rightarrow> int" where
  "to_uint64 x = take_bit 64 x"

lemma to_int32_id [simp]: "- (2 ^ 31) \<le> x \<Longrightarrow> x < 2 ^ 31 \<Longrightarrow> to_int32 x = x"
  by (simp add: to_int32_def signed_take_bit_int_eq_self)

lemma to_int64_id [simp]: "- (2 ^ 63) \<le> x \<Longrightarrow> x < 2 ^ 63 \<Longrightarrow> to_int64 x = x"
  by (simp add: to_int64_def signed_take_bit_int_eq_self)

lemma to_uint64_id [simp]: "0 \<le> x \<Longrightarrow> x < 2 ^ 64 \<Longrightarrow> to_uint64 x = x"
  by (simp add: to_uint64_def take_bit_int_eq_self)

lemma to_int32_bounds: "- (2 ^ 31) \<le> to_int32 x" "to_int32 x < 2 ^ 31"
  using signed_take_bit_int_greater_eq_minus_exp [of 31 x] signed_take_bit_int_less_exp [of 31 x]
  by (simp_all add: to_int32_def)

lemma to_int64_to_uint64 [simp]:
  "- (2 ^ 63) \<le> x \<Longrightarrow> x < 2 ^ 63 \<Longrightarrow> to_int64 (to_uint64 x) = x"
  by (simp add: to_int64_def to_uint64_def signed_take_bit_take_bit signed_take_bit_int_eq_self)

section \<open>Exceptions\<close>

text \<open>\<open>Invalid_argument\<close>, \<open>Length_error\<close> and \<open>Out_of_range\<close> carry the \<open>what()\<close> string; \<open>Undefined\<close> is a
  call whose behaviour the C++ standard leaves open (\<^verbatim>\<open>top()\<close> of an empty queue,
  dereferencing a null pointer or an end iterator), \<open>Assertion_failed\<close> an \<^verbatim>\<open>assert(0)\<close>.\<close>

datatype cpp_error = Invalid_argument string | Length_error string | Out_of_range string | Runtime_error string | Undefined | Assertion_failed

section \<open>Little-endian integers in memory\<close>

primrec le_bytes :: "nat \<Rightarrow> int \<Rightarrow> byte list" where
  "le_bytes 0 v = []"
| "le_bytes (Suc n) v = word_of_int v # le_bytes n (v div 256)"

fun le_int :: "byte list \<Rightarrow> int" where
  "le_int [] = 0"
| "le_int (b # bs) = uint b + 256 * le_int bs"

lemma length_le_bytes [simp]: "length (le_bytes n v) = n"
  by (induction n arbitrary: v) auto

lemma uint_byte_of_int: "uint (word_of_int v :: byte) = v mod 256"
  by (simp add: uint_word_of_int)

lemma uint_byte_bounds: "0 \<le> uint (b :: byte)" "uint (b :: byte) < 256"
  using uint_lt2p [of b] by simp_all

lemma le_int_le_bytes: "le_int (le_bytes n v) = v mod 256 ^ n"
proof (induction n arbitrary: v)
  case (Suc n)
  have "v mod 256 ^ Suc n = 256 * (v div 256 mod 256 ^ n) + v mod 256"
    by (simp add: mod_mult2_eq' zmod_zmult2_eq)
  with Suc show ?case by (simp add: uint_byte_of_int)
qed simp

lemma le_bytes_le_int: "le_bytes (length bs) (le_int bs) = bs"
proof (induction bs)
  case (Cons b bs)
  have "(uint b + 256 * le_int bs) div 256 = le_int bs"
    using uint_byte_bounds [of b] by simp
  moreover have "(word_of_int (uint b + 256 * le_int bs) :: byte) = b"
  proof (rule word_uint_eqI)
    have "uint (word_of_int (uint b + 256 * le_int bs) :: byte) = (uint b + 256 * le_int bs) mod 256"
      by (rule uint_byte_of_int)
    also have "\<dots> = uint b" using uint_byte_bounds [of b] by simp
    finally show "uint (word_of_int (uint b + 256 * le_int bs) :: byte) = uint b" .
  qed
  ultimately show ?case using Cons by simp
qed simp

lemma le_int_bounds: "0 \<le> le_int bs" "le_int bs < 256 ^ length bs"
proof (induction bs)
  case (Cons b bs)
  case 1
  then show ?case using Cons(1) uint_byte_bounds [of b] by simp
  case 2
  then show ?case using Cons(2) uint_byte_bounds [of b] by simp
qed simp_all

lemma le_bytes_append: "le_bytes (m + n) v = le_bytes m v @ le_bytes n (v div 256 ^ m)"
  by (induction m arbitrary: v) (simp_all add: zdiv_zmult2_eq mult.commute)

lemma le_int_append: "le_int (xs @ ys) = le_int xs + 256 ^ length xs * le_int ys"
  by (induction xs) (simp_all add: algebra_simps)

lemma to_int64_mod: "to_int64 (v mod 256 ^ 8) = to_int64 v"
proof -
  have "v mod 256 ^ 8 = take_bit 64 v" by (simp add: take_bit_eq_mod)
  then show ?thesis by (simp only: to_int64_def signed_take_bit_take_bit) simp
qed

lemma to_int64_le_bytes: "- (2 ^ 63) \<le> v \<Longrightarrow> v < 2 ^ 63 \<Longrightarrow> to_int64 (le_int (le_bytes 8 v)) = v"
  by (simp only: le_int_le_bytes to_int64_mod to_int64_id)

section \<open>Decimal printing\<close>

definition digit_char :: "nat \<Rightarrow> char" where
  "digit_char d = char_of (48 + d)"

fun nat_to_string :: "nat \<Rightarrow> string" where
  "nat_to_string n =
     (if n < 10 then [digit_char n] else nat_to_string (n div 10) @ [digit_char (n mod 10)])"

declare nat_to_string.simps [simp del]

text \<open>\<^verbatim>\<open>std::to_string\<close> on the integer types the sources print.\<close>

definition to_string :: "int \<Rightarrow> string" where
  "to_string i = (if i < 0 then CHR ''-'' # nat_to_string (nat (- i)) else nat_to_string (nat i))"

fun digits_value :: "nat \<Rightarrow> string \<Rightarrow> nat" where
  "digits_value acc [] = acc"
| "digits_value acc (c # cs) = digits_value (10 * acc + (of_char c - 48)) cs"

lemma digits_value_append: "digits_value a (xs @ ys) = digits_value (digits_value a xs) ys"
  by (induction xs arbitrary: a) auto

lemma of_char_digit_char: "d < 10 \<Longrightarrow> (of_char (digit_char d) :: nat) = 48 + d"
  by (simp add: digit_char_def)

lemma digits_value_nat_to_string: "digits_value 0 (nat_to_string n) = n"
proof (induction n rule: nat_to_string.induct)
  case (1 n)
  show ?case
  proof (cases "n < 10")
    case True
    then show ?thesis
      by (subst nat_to_string.simps) (simp add: of_char_digit_char)
  next
    case False
    with "1.IH" show ?thesis
      by (subst nat_to_string.simps) (simp add: digits_value_append of_char_digit_char)
  qed
qed

lemma nat_to_string_inj: "nat_to_string m = nat_to_string n \<Longrightarrow> m = n"
  by (metis digits_value_nat_to_string)

lemma digit_char_neq_colon: "d < 10 \<Longrightarrow> digit_char d \<noteq> CHR '':''"
proof -
  assume "d < 10"
  then have "(of_char (digit_char d) :: nat) \<noteq> of_char (CHR '':'')"
    by (simp add: of_char_digit_char)
  then show ?thesis by metis
qed

lemma nat_to_string_no_colon: "CHR '':'' \<notin> set (nat_to_string n)"
proof (induction n rule: nat_to_string.induct)
  case (1 n)
  show ?case
  proof (cases "n < 10")
    case True
    then show ?thesis
      by (subst nat_to_string.simps) (use digit_char_neq_colon [of n] in simp)
  next
    case False
    with "1.IH" show ?thesis
      by (subst nat_to_string.simps) (use digit_char_neq_colon [of "n mod 10"] in simp)
  qed
qed

lemma to_string_no_colon: "CHR '':'' \<notin> set (to_string i)"
  by (simp add: to_string_def nat_to_string_no_colon)

lemma to_string_inj_nonneg: "0 \<le> i \<Longrightarrow> 0 \<le> j \<Longrightarrow> to_string i = to_string j \<Longrightarrow> i = j"
  by (auto simp: to_string_def dest!: nat_to_string_inj)

text \<open>A suffix without the separator determines the split.\<close>

lemma separator_split:
  assumes "c \<notin> set ys" and "c \<notin> set ys'" and "xs @ c # ys = xs' @ c # ys'"
  shows "xs = xs' \<and> ys = ys'"
proof -
  from assms(3) have "rev ys @ c # rev xs = rev ys' @ c # rev xs'"
    by (metis append.assoc append_Cons append_Nil rev.simps(2) rev_append)
  moreover have "takeWhile (\<lambda>x. x \<noteq> c) (rev ys @ c # rev xs) = rev ys"
    using assms(1) by (subst takeWhile_append2) auto
  moreover have "takeWhile (\<lambda>x. x \<noteq> c) (rev ys' @ c # rev xs') = rev ys'"
    using assms(2) by (subst takeWhile_append2) auto
  ultimately have "rev ys = rev ys'" by metis
  with assms(3) show ?thesis by auto
qed

section \<open>Ordered maps: the interface of std::map\<close>

text \<open>
  What the tables and the client use of \<^verbatim>\<open>std::map\<close>: \<open>insert\<close> never overwrites and
  reports whether it inserted, \<open>find\<close>, \<open>erase\<close>. The laws are those of the C++
  standard; clients prove their lemmas from them.
\<close>

locale std_map =
  fixes empty :: "'m"
    and find :: "'m \<Rightarrow> 'k \<Rightarrow> 'v option"
    and ins :: "'k \<Rightarrow> 'v \<Rightarrow> 'm \<Rightarrow> 'm \<times> bool"
    and erase :: "'k \<Rightarrow> 'm \<Rightarrow> 'm"
    and wf :: "'m \<Rightarrow> bool"
  assumes find_empty: "find empty k = None"
    and wf_empty: "wf empty"
    and ins_fresh: "wf m \<Longrightarrow> find m k = None \<Longrightarrow>
      snd (ins k v m) \<and> find (fst (ins k v m)) = (find m)(k \<mapsto> v)"
    and ins_dup: "wf m \<Longrightarrow> find m k = Some w \<Longrightarrow> ins k v m = (m, False)"
    and find_erase: "wf m \<Longrightarrow> find (erase k m) = (find m)(k := None)"
    and wf_ins: "wf m \<Longrightarrow> wf (fst (ins k v m))"
    and wf_erase: "wf m \<Longrightarrow> wf (erase k m)"
begin

lemma ins_inserted_iff: "wf m \<Longrightarrow> snd (ins k v m) \<longleftrightarrow> find m k = None"
  by (cases "find m k") (auto simp: ins_fresh ins_dup)

lemma find_ins:
  "wf m \<Longrightarrow> find (fst (ins k v m)) = (if find m k = None then (find m)(k \<mapsto> v) else find m)"
  by (cases "find m k") (auto simp: ins_fresh ins_dup)

lemma erase_after_ins:
  "wf m \<Longrightarrow> find m k = None \<Longrightarrow> find (erase k (fst (ins k v m))) = find m"
  by (simp add: find_erase wf_ins ins_fresh fun_upd_idem)

text \<open>Inserting a list of pairs in order: the first binding of a key wins.\<close>

definition ins_all :: "('k \<times> 'v) list \<Rightarrow> 'm \<Rightarrow> 'm" where
  "ins_all kvs m = fold (\<lambda>(k, v) m. fst (ins k v m)) kvs m"

lemma wf_ins_all: "wf m \<Longrightarrow> wf (ins_all kvs m)"
  unfolding ins_all_def by (induction kvs arbitrary: m) (auto simp: wf_ins)

lemma find_ins_all: "wf m \<Longrightarrow> find (ins_all kvs m) = map_of kvs ++ find m"
proof (induction kvs arbitrary: m)
  case Nil
  then show ?case by (simp add: ins_all_def)
next
  case (Cons kv kvs)
  obtain k v where kv: "kv = (k, v)" by (cases kv)
  have "find (ins_all (kv # kvs) m) = map_of kvs ++ find (fst (ins k v m))"
    using Cons.IH [OF wf_ins [OF Cons.prems], of k v] by (simp add: kv ins_all_def)
  then show ?case
    by (auto simp: kv fun_eq_iff map_add_def find_ins [OF Cons.prems] split: option.splits)
qed

end

section \<open>std::map as a sorted association list\<close>

type_synonym ('k, 'v) smap = "('k \<times> 'v) list"

definition map_wf :: "('k::linorder, 'v) smap \<Rightarrow> bool" where
  "map_wf m \<longleftrightarrow> sorted_wrt (<) (map fst m)"

fun map_insert :: "'k::linorder \<Rightarrow> 'v \<Rightarrow> ('k, 'v) smap \<Rightarrow> ('k, 'v) smap \<times> bool" where
  "map_insert k v [] = ([(k, v)], True)"
| "map_insert k v ((k', v') # m) =
     (if k < k' then ((k, v) # (k', v') # m, True)
      else if k = k' then ((k', v') # m, False)
      else (let (m', b) = map_insert k v m in ((k', v') # m', b)))"

fun map_erase :: "'k::linorder \<Rightarrow> ('k, 'v) smap \<Rightarrow> ('k, 'v) smap" where
  "map_erase k [] = []"
| "map_erase k ((k', v') # m) = (if k = k' then m else (k', v') # map_erase k m)"

lemma map_wf_Cons: "map_wf ((k, v) # m) \<longleftrightarrow> (\<forall>k' \<in> fst ` set m. k < k') \<and> map_wf m"
  by (auto simp: map_wf_def)

lemma map_wf_distinct: "map_wf m \<Longrightarrow> distinct (map fst m)"
  by (simp add: map_wf_def strict_sorted_iff)

lemma map_wf_last: "map_wf m \<Longrightarrow> k \<in> set (map fst m) \<Longrightarrow> k \<le> fst (last m)"
proof (induction m)
  case (Cons x m)
  show ?case
  proof (cases "m = []")
    case False
    have "fst x < fst (last m)" "k = fst x \<or> k \<in> set (map fst m)" "map_wf m"
      using Cons.prems last_in_set [OF False] by (auto simp: map_wf_def)
    then show ?thesis using Cons.IH False by auto
  qed (use Cons.prems in simp)
qed simp

lemma map_of_smaller: "map_wf ((k', v') # m) \<Longrightarrow> k \<le> k' \<Longrightarrow> map_of m k = None"
  by (force simp: map_wf_Cons map_of_eq_None_iff)

lemma map_insert_fresh:
  "map_wf m \<Longrightarrow> map_of m k = None \<Longrightarrow>
   snd (map_insert k v m) \<and> map_of (fst (map_insert k v m)) = (map_of m)(k \<mapsto> v)"
  by (induction m rule: map_insert.induct)
     (auto simp: map_wf_Cons fun_eq_iff split: prod.splits if_splits)

lemma map_insert_dup: "map_wf m \<Longrightarrow> map_of m k = Some w \<Longrightarrow> map_insert k v m = (m, False)"
proof (induction k v m rule: map_insert.induct)
  case (2 k v k' v' m)
  show ?case
  proof (cases "k < k'")
    case True
    with 2 show ?thesis using map_of_smaller [OF "2.prems"(1), of k] by (auto simp: less_imp_le split: if_splits)
  next
    case False
    with 2 show ?thesis by (auto simp: map_wf_Cons)
  qed
qed simp

lemma map_insert_Cons_later:
  "\<not> k < k' \<Longrightarrow> k \<noteq> k' \<Longrightarrow>
   map_insert k v ((k', v') # m) = ((k', v') # fst (map_insert k v m), snd (map_insert k v m))"
  by (simp add: case_prod_unfold Let_def)

lemma map_insert_keys: "fst ` set (fst (map_insert k v m)) = insert k (fst ` set m)"
proof (induction k v m rule: map_insert.induct)
  case (2 k v k' v' m)
  then show ?case
    by (cases "k < k' \<or> k = k'")
      (use map_insert_Cons_later [of k k' v v' m] in \<open>auto simp: insert_commute\<close>)
qed simp

lemma map_wf_insert: "map_wf m \<Longrightarrow> map_wf (fst (map_insert k v m))"
proof (induction k v m rule: map_insert.induct)
  case (2 k v k' v' m)
  show ?case
  proof (cases "k < k' \<or> k = k'")
    case True
    with "2.prems" show ?thesis by (force simp: map_wf_Cons)
  next
    case False
    then have "map_wf (fst (map_insert k v m))" and "k' < k"
      using 2 by (auto simp: map_wf_Cons)
    with False "2.prems" show ?thesis
      by (simp add: map_insert_Cons_later map_wf_Cons map_insert_keys del: map_insert.simps(2))
  qed
qed (simp add: map_wf_def)

lemma map_of_erase: "map_wf m \<Longrightarrow> map_of (map_erase k m) = (map_of m)(k := None)"
  by (induction k m rule: map_erase.induct)
     (auto simp: map_wf_Cons fun_eq_iff map_of_eq_None_iff)

lemma map_erase_keys: "fst ` set (map_erase k m) \<subseteq> fst ` set m"
  by (induction k m rule: map_erase.induct) auto

lemma map_wf_erase: "map_wf m \<Longrightarrow> map_wf (map_erase k m)"
  using map_erase_keys by (induction k m rule: map_erase.induct) (fastforce simp: map_wf_Cons)+

interpretation smap: std_map "[]" map_of map_insert map_erase map_wf
proof unfold_locales
  show "map_wf []" by (simp add: map_wf_def)
qed (simp_all add: map_insert_fresh map_insert_dup map_of_erase map_wf_insert map_wf_erase)

end
