(* ===== verification/Messages.thy ===== *)
theory Messages
  imports Prelude
begin

text \<open>
  The protocol buffers of \<^verbatim>\<open>protos/server.proto\<close> that the tables and handlers exchange, with
  the field types proto3 gives them (\<open>uint64\<close> fields are \<open>int\<close>s in \<open>0..2\<^sup>6\<^sup>4 - 1\<close>, the
  conversions to \<open>long\<close> and \<open>int\<close> are made where the C++ makes them). Time stamps are
  ordered by \<^verbatim>\<open>Tables::googleTimestampComparator\<close>, which is a linear order.
\<close>

section \<open>Time stamps\<close>

datatype timestamp = Timestamp (seconds: int) (nanos: int)

definition googleTimestampComparator :: "timestamp \<Rightarrow> timestamp \<Rightarrow> bool" where
  "googleTimestampComparator t1 t2 \<longleftrightarrow>
     (if seconds t1 < seconds t2 then True
      else if seconds t1 = seconds t2 \<and> nanos t1 < nanos t2 then True
      else False)"

instantiation timestamp :: linorder
begin

definition less_timestamp :: "timestamp \<Rightarrow> timestamp \<Rightarrow> bool" where
  "less_timestamp t1 t2 \<longleftrightarrow> googleTimestampComparator t1 t2"

definition less_eq_timestamp :: "timestamp \<Rightarrow> timestamp \<Rightarrow> bool" where
  "less_eq_timestamp t1 t2 \<longleftrightarrow> t1 = t2 \<or> googleTimestampComparator t1 t2"

instance
proof
  fix x y z :: timestamp
  show "(x < y) = (x \<le> y \<and> \<not> y \<le> x)"
    by (auto simp: less_timestamp_def less_eq_timestamp_def googleTimestampComparator_def)
  show "x \<le> x"
    by (simp add: less_eq_timestamp_def)
  show "x \<le> y \<Longrightarrow> y \<le> z \<Longrightarrow> x \<le> z"
    by (auto simp: less_eq_timestamp_def googleTimestampComparator_def split: if_splits)
  show "x \<le> y \<Longrightarrow> y \<le> x \<Longrightarrow> x = y"
    by (auto simp: less_eq_timestamp_def googleTimestampComparator_def split: if_splits)
  show "x \<le> y \<or> y \<le> x"
    by (cases x; cases y) (auto simp: less_eq_timestamp_def googleTimestampComparator_def)
qed

end

section \<open>Requests\<close>

record client_request_id =
  ip :: string
  pid :: int
  timestamp :: timestamp

lemma seconds_mono: "t \<le> u \<Longrightarrow> seconds t \<le> seconds u"
  by (auto simp: less_eq_timestamp_def googleTimestampComparator_def split: if_splits)

end
