(* ===== verification/Pending_Queue.thy ===== *)
theory Pending_Queue
  imports Messages
begin

text \<open>
  The pending queue (\<^verbatim>\<open>Tables::PendingQueue\<close>, \<^verbatim>\<open>tables.hpp\<close> and \<^verbatim>\<open>pendingQueue.cpp\<close>): writes
  that have arrived and wait to be relayed and stored. \<^verbatim>\<open>std::priority_queue\<close> is the list of
  its elements in the order \<open>top\<close>/\<open>pop\<close> would deliver them; only that order is observable.
  The interface \<open>priority_buffer\<close> states what the relay thread relies on.
\<close>

section \<open>State and operations\<close>

record pendingQueueEntry =
  seqNum :: int
  volumeOffset :: int
  data :: "byte list"
  reqId :: client_request_id

record pending_queue =
  queue :: "pendingQueueEntry list"
  seqNumSet :: "int set"

definition empty_pending_queue :: pending_queue where
  "empty_pending_queue = \<lparr>queue = [], seqNumSet = {}\<rparr>"

text \<open>The entry's \<^verbatim>\<open>operator<\<close>: the smaller sequence number has the higher priority.\<close>

definition entry_less :: "pendingQueueEntry \<Rightarrow> pendingQueueEntry \<Rightarrow> bool" where
  "entry_less e c \<longleftrightarrow> seqNum e > seqNum c"

fun pq_push :: "pendingQueueEntry \<Rightarrow> pendingQueueEntry list \<Rightarrow> pendingQueueEntry list" where
  "pq_push e [] = [e]"
| "pq_push e (x # xs) = (if entry_less x e then e # x # xs else x # pq_push e xs)"

text \<open>\<open>seqNumSet\<close> is a \<^verbatim>\<open>std::set<int>\<close>, so the \<open>long\<close> sequence number is narrowed.\<close>

definition pushEntry :: "pendingQueueEntry \<Rightarrow> pending_queue \<Rightarrow> cpp_error + pending_queue" where
  "pushEntry e q =
     (if to_int32 (seqNum e) \<in> seqNumSet q
      then Inl (Invalid_argument
             (''sequence number '' @ to_string (seqNum e) @ '' already exist in pending queue''))
      else Inr (q\<lparr>queue := pq_push e (queue q),
                  seqNumSet := insert (to_int32 (seqNum e)) (seqNumSet q)\<rparr>))"

definition popEntry :: "pending_queue \<Rightarrow> cpp_error + (pendingQueueEntry \<times> pending_queue)" where
  "popEntry q =
     (case queue q of
        [] \<Rightarrow> Inl Undefined
      | e # es \<Rightarrow> Inr (e, q\<lparr>queue := es, seqNumSet := seqNumSet q - {to_int32 (seqNum e)}\<rparr>))"

definition peekEntry :: "pending_queue \<Rightarrow> cpp_error + pendingQueueEntry" where
  "peekEntry q = (case queue q of [] \<Rightarrow> Inl Undefined | e # _ \<Rightarrow> Inr e)"

definition getQueueSize :: "pending_queue \<Rightarrow> int" where
  "getQueueSize q = to_int32 (int (length (queue q)))"

lemmas [tables_simps] = pushEntry_def popEntry_def peekEntry_def getQueueSize_def

section \<open>Invariant\<close>

text \<open>The list is in ascending order of sequence number, and the set mirrors it.\<close>

definition pq_wf :: "pending_queue \<Rightarrow> bool" where
  "pq_wf q \<longleftrightarrow> sorted_wrt (\<lambda>a b. seqNum a < seqNum b) (queue q)
     \<and> seqNumSet q = (to_int32 \<circ> seqNum) ` set (queue q)
     \<and> inj_on (to_int32 \<circ> seqNum) (set (queue q))"

lemma set_pq_push [simp]: "set (pq_push e xs) = insert e (set xs)"
  by (induction xs) auto

lemma length_pq_push [simp]: "length (pq_push e xs) = Suc (length xs)"
  by (induction xs) auto

lemma sorted_pq_push:
  assumes "sorted_wrt (\<lambda>a b. seqNum a < seqNum b) xs" and "seqNum e \<notin> seqNum ` set xs"
  shows "sorted_wrt (\<lambda>a b. seqNum a < seqNum b) (pq_push e xs)"
  using assms by (induction xs) (force simp: entry_less_def)+

lemma pq_wf_empty [simp]: "pq_wf empty_pending_queue"
  by (simp add: pq_wf_def empty_pending_queue_def)

lemma pq_wf_push: "pq_wf q \<Longrightarrow> pushEntry e q = Inr q' \<Longrightarrow> pq_wf q'"
  by (auto simp: pq_wf_def pushEntry_def intro!: sorted_pq_push split: if_splits)

lemma pq_wf_pop: "pq_wf q \<Longrightarrow> popEntry q = Inr (e, q') \<Longrightarrow> pq_wf q'"
  by (auto simp: pq_wf_def popEntry_def split: list.splits)

section \<open>The interface the relay thread uses\<close>

locale priority_buffer =
  fixes push :: "'e \<Rightarrow> 'q \<Rightarrow> cpp_error + 'q"
    and pop :: "'q \<Rightarrow> cpp_error + ('e \<times> 'q)"
    and entries :: "'q \<Rightarrow> 'e set"
    and wf :: "'q \<Rightarrow> bool"
    and key :: "'e \<Rightarrow> int"
  assumes finite_entries: "wf q \<Longrightarrow> finite (entries q)"
    and key_inj: "wf q \<Longrightarrow> inj_on key (entries q)"
    and push_wf: "wf q \<Longrightarrow> push e q = Inr q' \<Longrightarrow> wf q'"
    and push_entries: "wf q \<Longrightarrow> push e q = Inr q' \<Longrightarrow> entries q' = insert e (entries q)"
    and pop_wf: "wf q \<Longrightarrow> pop q = Inr (e, q') \<Longrightarrow> wf q'"
    and pop_entries: "wf q \<Longrightarrow> pop q = Inr (e, q') \<Longrightarrow>
      e \<in> entries q \<and> entries q' = entries q - {e} \<and> (\<forall>x \<in> entries q'. key e < key x)"
    and pop_succeeds: "wf q \<Longrightarrow> entries q \<noteq> {} \<Longrightarrow> \<exists>e q'. pop q = Inr (e, q')"
begin

text \<open>Popping up to \<open>n\<close> entries.\<close>

primrec drain :: "nat \<Rightarrow> 'q \<Rightarrow> 'e list" where
  "drain 0 q = []"
| "drain (Suc n) q = (case pop q of Inl _ \<Rightarrow> [] | Inr (e, q') \<Rightarrow> e # drain n q')"

lemma drain_sorted:
  "wf q \<Longrightarrow> card (entries q) = n \<Longrightarrow>
   sorted_wrt (<) (map key (drain n q)) \<and> set (drain n q) = entries q"
proof (induction n arbitrary: q)
  case 0
  then show ?case using finite_entries [of q] by simp
next
  case (Suc n)
  then have "entries q \<noteq> {}" by auto
  then obtain e q' where pop: "pop q = Inr (e, q')"
    using pop_succeeds [OF Suc.prems(1)] by blast
  note p = pop_entries [OF Suc.prems(1) pop]
  from p Suc.prems have "card (entries q') = n"
    by (simp add: finite_entries)
  with Suc.IH [OF pop_wf [OF Suc.prems(1) pop]] p show ?case
    by (auto simp: pop)
qed

text \<open>A buffer that holds consecutive keys is drained in consecutive order.\<close>

lemma drain_consecutive:
  assumes "wf q" and "key ` entries q = {a..b}"
  shows "map key (drain (card (entries q)) q) = [a..b]"
proof (rule strict_sorted_equal)
  from drain_sorted [OF assms(1) refl]
  have d: "sorted_wrt (<) (map key (drain (card (entries q)) q))"
    and s: "set (drain (card (entries q)) q) = entries q" by blast+
  show "sorted_wrt (<) (map key (drain (card (entries q)) q))" by (rule d)
  show "sorted_wrt (<) [a..b]" by (rule sorted_wrt_upto)
  show "set (map key (drain (card (entries q)) q)) = set [a..b]"
    using assms(2) s by simp
qed

end

interpretation pq: priority_buffer pushEntry popEntry "\<lambda>q. set (queue q)" pq_wf seqNum
proof unfold_locales
  fix q q' e
  assume wf: "pq_wf q"
  show "finite (set (queue q))" by simp
  show "inj_on seqNum (set (queue q))"
    using wf by (auto simp: pq_wf_def inj_on_def)
  show "pushEntry e q = Inr q' \<Longrightarrow> pq_wf q'"
    by (rule pq_wf_push [OF wf])
  show "pushEntry e q = Inr q' \<Longrightarrow> set (queue q') = insert e (set (queue q))"
    by (auto simp: pushEntry_def split: if_splits)
  show "popEntry q = Inr (e, q') \<Longrightarrow> pq_wf q'"
    by (rule pq_wf_pop [OF wf])
  show "popEntry q = Inr (e, q') \<Longrightarrow> e \<in> set (queue q) \<and>
      set (queue q') = set (queue q) - {e} \<and> (\<forall>x\<in>set (queue q'). seqNum e < seqNum x)"
    using wf by (auto simp: pq_wf_def popEntry_def split: list.splits)
  show "set (queue q) \<noteq> {} \<Longrightarrow> \<exists>e q'. popEntry q = Inr (e, q')"
    by (cases "queue q") (auto simp: popEntry_def)
qed

section \<open>Properties\<close>

text \<open>Pushing a batch of arrivals, and popping until the queue is empty.\<close>

fun push_all :: "pendingQueueEntry list \<Rightarrow> pending_queue \<Rightarrow> cpp_error + pending_queue" where
  "push_all [] q = Inr q"
| "push_all (e # es) q = (case pushEntry e q of Inl x \<Rightarrow> Inl x | Inr q' \<Rightarrow> push_all es q')"

fun pop_all :: "nat \<Rightarrow> pending_queue \<Rightarrow> pendingQueueEntry list" where
  "pop_all 0 q = []"
| "pop_all (Suc n) q = (case popEntry q of Inl _ \<Rightarrow> [] | Inr (e, q') \<Rightarrow> e # pop_all n q')"

lemma pop_all_drain: "pop_all n q = pq.drain n q"
  by (induction n arbitrary: q) (auto split: sum.splits)

lemma push_all_succeeds:
  assumes "pq_wf q" and "distinct (map (to_int32 \<circ> seqNum) es)"
    and "(to_int32 \<circ> seqNum) ` set es \<inter> seqNumSet q = {}"
  shows "\<exists>q'. push_all es q = Inr q' \<and> pq_wf q' \<and> set (queue q') = set (queue q) \<union> set es"
  using assms
proof (induction es arbitrary: q)
  case (Cons e es)
  let ?q = "q\<lparr>queue := pq_push e (queue q), seqNumSet := insert (to_int32 (seqNum e)) (seqNumSet q)\<rparr>"
  have push: "pushEntry e q = Inr ?q"
    using Cons.prems(3) by (simp add: pushEntry_def)
  have "\<exists>q'. push_all es ?q = Inr q' \<and> pq_wf q' \<and> set (queue q') = set (queue ?q) \<union> set es"
    using Cons.prems pq_wf_push [OF Cons.prems(1) push]
    by (intro Cons.IH) (auto simp: comp_def)
  with push show ?case by auto
qed simp

text \<open>
  C25. Sequence numbers \<open>a..b\<close> that reach the node in any order are all accepted by
  \<^verbatim>\<open>pushEntry\<close> and are handed out by repeated \<^verbatim>\<open>popEntry\<close> as \<open>a, a+1, ..., b\<close>: the order in
  which the relay thread must store them.
\<close>

theorem pending_queue_reorders:
  assumes "distinct es" and "seqNum ` set es = {a..b}" and "inj_on seqNum (set es)"
    and "- (2 ^ 31) \<le> a" and "b < 2 ^ 31"
  shows "\<exists>q. push_all es empty_pending_queue = Inr q \<and>
             map seqNum (pop_all (length es) q) = [a..b]"
proof -
  have id: "to_int32 (seqNum e) = seqNum e" if "e \<in> set es" for e
    using that assms(2,4,5) by (intro to_int32_id) force+
  have "distinct (map (to_int32 \<circ> seqNum) es)"
    using assms(1,3) id by (simp add: distinct_map inj_on_def)
  then obtain q where q: "push_all es empty_pending_queue = Inr q" "pq_wf q" "set (queue q) = set es"
    using push_all_succeeds [OF pq_wf_empty] by (fastforce simp: empty_pending_queue_def)
  have "card (set (queue q)) = length es"
    using q(3) assms(1) by (simp add: distinct_card)
  then have "map seqNum (pop_all (length es) q) = [a..b]"
    using pq.drain_consecutive [OF q(2), of a b] q(3) assms(2) by (simp add: pop_all_drain)
  with q(1) show ?thesis by blast
qed

theorem pending_queue_reorders_witness:
  "let entry = (\<lambda>n. \<lparr>seqNum = n, volumeOffset = 0, data = [],
                    reqId = \<lparr>ip = [], pid = 0, timestamp = Timestamp 0 0\<rparr>\<rparr>) in
   \<exists>q. push_all (map entry [3, 1, 2]) empty_pending_queue = Inr q \<and>
       map seqNum (pop_all 3 q) = [1..3]"
proof -
  let ?entry = "\<lambda>n. \<lparr>seqNum = n, volumeOffset = 0, data = [],
                    reqId = \<lparr>ip = [], pid = 0, timestamp = Timestamp 0 0\<rparr>\<rparr>"
  have "\<exists>q. push_all (map ?entry [3, 1, 2]) empty_pending_queue = Inr q \<and>
       map seqNum (pop_all (length (map ?entry [3, 1, 2])) q) = [1..3]"
    by (rule pending_queue_reorders) (auto simp: inj_on_def)
  then show ?thesis by (simp add: numeral_3_eq_3)
qed

end
