(* ===== verification/Sent_List.thy ===== *)
theory Sent_List
  imports Messages
begin

text \<open>
  The sent list (\<^verbatim>\<open>Tables::SentList\<close>, \<^verbatim>\<open>sentList.cpp\<close>): writes stored locally and not yet
  committed, a \<^verbatim>\<open>std::map<int, sentListEntry>\<close>. Commits take entries out one by one, and
  recovery after a failed middle node reads the tail of the list from a sequence number on.
\<close>

section \<open>State and operations\<close>

record sentListEntry =
  se_reqId :: client_request_id
  se_volumeOffset :: int

type_synonym sent_list = "(int, sentListEntry) smap"

definition sl_pushEntry :: "int \<Rightarrow> sentListEntry \<Rightarrow> sent_list \<Rightarrow> (cpp_error + unit) \<times> sent_list" where
  "sl_pushEntry seqNum entry l =
     (let (l', inserted) = map_insert seqNum entry l
      in (if inserted = False then Inl (Invalid_argument ''Key already in list'') else Inr (), l'))"

definition sl_popEntry :: "int \<Rightarrow> sent_list \<Rightarrow> (cpp_error + sentListEntry) \<times> sent_list" where
  "sl_popEntry seqNum l =
     (if length l = 0 then (Inl (Invalid_argument ''Key not found in sentList''), l)
      else (case map_of l seqNum of
              Some entry \<Rightarrow> (Inr entry, map_erase seqNum l)
            | None \<Rightarrow> (Inl (Invalid_argument ''Key not found in sentList''), l)))"

text \<open>The copy loop walks from the iterator to the end, inserting each pair at the back.\<close>

definition getSentListRange :: "int \<Rightarrow> sent_list \<Rightarrow> cpp_error + sent_list" where
  "getSentListRange startSeqNum l =
     (if length l = 0 then Inl (Length_error ''Trying to get range from empty list'')
      else if startSeqNum = 0 then Inr l
      else if map_of l startSeqNum = None then Inl (Invalid_argument ''Key not found in sentList'')
      else Inr (dropWhile (\<lambda>(k, _). k \<noteq> startSeqNum) l))"

definition getListSize :: "sent_list \<Rightarrow> int" where
  "getListSize l = to_int32 (int (length l))"

lemmas [tables_simps] = sl_pushEntry_def sl_popEntry_def getSentListRange_def getListSize_def

section \<open>Invariant and functional behaviour\<close>

lemma sl_push_wf: "map_wf l \<Longrightarrow> sl_pushEntry k e l = (r, l') \<Longrightarrow> map_wf l'"
  by (auto simp: sl_pushEntry_def dest: smap.wf_ins [of l k e] split: prod.splits)

lemma sl_pop_wf: "map_wf l \<Longrightarrow> sl_popEntry k l = (r, l') \<Longrightarrow> map_wf l'"
  by (auto simp: sl_popEntry_def smap.wf_erase split: if_splits option.splits)

text \<open>A successful push adds exactly the new binding; a rejected one changes nothing.\<close>

lemma sl_push_cases:
  assumes "map_wf l" and "sl_pushEntry k e l = (r, l')"
  shows "(map_of l k = None \<and> r = Inr () \<and> map_of l' = (map_of l)(k \<mapsto> e)) \<or>
         (map_of l k \<noteq> None \<and> r = Inl (Invalid_argument ''Key already in list'') \<and> l' = l)"
proof (cases "map_of l k")
  case None
  with assms show ?thesis
    using smap.ins_fresh [OF assms(1) None, of e] by (auto simp: sl_pushEntry_def split: prod.splits)
next
  case (Some w)
  with assms show ?thesis
    using smap.ins_dup [OF assms(1) Some, of e] by (auto simp: sl_pushEntry_def)
qed

lemma sl_pop_cases:
  assumes "map_wf l" and "sl_popEntry k l = (r, l')"
  shows "(\<exists>e. map_of l k = Some e \<and> r = Inr e \<and> map_of l' = (map_of l)(k := None)) \<or>
         (map_of l k = None \<and> r = Inl (Invalid_argument ''Key not found in sentList'') \<and> l' = l)"
  using assms
  by (auto simp: sl_popEntry_def smap.find_erase split: if_splits option.splits)

lemma dropWhile_from_key:
  assumes "map_wf l" and "k \<in> fst ` set l"
  shows "dropWhile (\<lambda>(k', _). k' \<noteq> k) l = filter (\<lambda>(k', _). k \<le> k') l"
  using assms
proof (induction l)
  case (Cons x l)
  obtain k' v' where x: "x = (k', v')" by (cases x)
  show ?case
  proof (cases "k' = k")
    case True
    with Cons.prems x have "filter (\<lambda>(k', _). k \<le> k') l = l"
      by (fastforce simp: map_wf_Cons filter_id_conv)
    with True x show ?thesis by simp
  next
    case False
    with Cons x have "k' < k" by (auto simp: map_wf_Cons)
    with Cons x False show ?thesis by (auto simp: map_wf_Cons)
  qed
qed simp

section \<open>Properties\<close>

text \<open>
  C26. \<^verbatim>\<open>getSentListRange\<close> from a sequence number the list holds returns exactly the entries
  from that number on, in ascending order of sequence number: the writes that the node after
  a failed one is missing.
\<close>

theorem sent_list_range:
  assumes "map_wf l" and "map_of l start \<noteq> None" and "start \<noteq> 0"
  shows "\<exists>r. getSentListRange start l = Inr r \<and> map_wf r \<and>
             map_of r = (map_of l) |` {start..}"
proof -
  from assms(2) have k: "start \<in> fst ` set l" and ne: "l \<noteq> []"
    by (auto simp: map_of_eq_None_iff)
  let ?r = "filter (\<lambda>(k, _). start \<le> k) l"
  have r: "getSentListRange start l = Inr ?r"
    using assms ne dropWhile_from_key [OF assms(1) k] by (simp add: getSentListRange_def)
  have "map_wf ?r"
    using assms(1) unfolding map_wf_def by (induction l) auto
  moreover have "map_of ?r = (map_of l) |` {start..}"
    by (induction l) (auto simp: fun_eq_iff restrict_map_def)
  ultimately show ?thesis using r by blast
qed

theorem sent_list_range_witness:
  "let e = \<lparr>se_reqId = \<lparr>ip = [], pid = 0, timestamp = Timestamp 0 0\<rparr>, se_volumeOffset = 0\<rparr>;
       l = [(4, e), (5, e), (7, e)] in
   \<exists>r. getSentListRange 5 l = Inr r \<and> map_wf r \<and> map_of r = (map_of l) |` {5..}"
  unfolding Let_def by (rule sent_list_range) (simp_all add: map_wf_def)

text \<open>
  Taking an entry back out of the sent list returns what was pushed under that sequence
  number and restores the list's contents; a second push of the number is refused with
  \<^verbatim>\<open>std::invalid_argument\<close> and leaves the list as it was.
\<close>

theorem sent_list_push_pop:
  assumes "map_wf l" and "map_of l k = None"
  shows "\<exists>l'. sl_pushEntry k e l = (Inr (), l') \<and>
              (\<exists>l''. sl_popEntry k l' = (Inr e, l'') \<and> map_of l'' = map_of l) \<and>
              sl_pushEntry k e' l' = (Inl (Invalid_argument ''Key already in list''), l')"
proof -
  obtain r l' where p: "sl_pushEntry k e l = (r, l')" by fastforce
  from sl_push_cases [OF assms(1) p] assms(2)
  have r: "r = Inr ()" and l': "map_of l' = (map_of l)(k \<mapsto> e)" by auto
  note wf = sl_push_wf [OF assms(1) p]
  obtain r2 l'' where p2: "sl_popEntry k l' = (r2, l'')" by fastforce
  from sl_pop_cases [OF wf p2] l' assms(2)
  have "r2 = Inr e" and "map_of l'' = map_of l" by auto
  moreover obtain r3 l3 where p3: "sl_pushEntry k e' l' = (r3, l3)" by fastforce
  from sl_push_cases [OF wf p3] l'
  have "r3 = Inl (Invalid_argument ''Key already in list'')" and "l3 = l'" by auto
  ultimately show ?thesis using p r p2 p3 by auto
qed

theorem sent_list_push_pop_witness:
  "let e = \<lparr>se_reqId = \<lparr>ip = [], pid = 0, timestamp = Timestamp 0 0\<rparr>, se_volumeOffset = 8192\<rparr>;
       l = [(4, e\<lparr>se_volumeOffset := 0\<rparr>)] in
   \<exists>l'. sl_pushEntry 5 e l = (Inr (), l') \<and>
        (\<exists>l''. sl_popEntry 5 l' = (Inr e, l'') \<and> map_of l'' = map_of l) \<and>
        sl_pushEntry 5 e l' = (Inl (Invalid_argument ''Key already in list''), l')"
  unfolding Let_def by (rule sent_list_push_pop) (simp_all add: map_wf_def)

end
