(* ===== verification/Replay_Log.thy ===== *)
theory Replay_Log
  imports Messages "HOL-Library.AList"
begin

text \<open>
  The replay log (\<^verbatim>\<open>Tables::ReplayLog\<close>, \<^verbatim>\<open>replayLog.cpp\<close>): per client, the time stamps of its
  requests that are in the chain, each with its committed flag. The client table is a
  \<^verbatim>\<open>std::unordered_map\<close>, here the association list of its entries in iteration order (an order
  the standard leaves open, so no property depends on it); each client entry is a
  \<^verbatim>\<open>std::map\<close> ordered by \<^verbatim>\<open>googleTimestampComparator\<close>. Every operation is one atomic step: the
  locks of the source serialise them.
\<close>

section \<open>State and operations\<close>

type_synonym timestamp_list = "(timestamp, bool) smap"
type_synonym replay_log = "(string \<times> timestamp_list) list"

definition client_identifier :: "client_request_id \<Rightarrow> string" where
  "client_identifier r = ip r @ '':'' @ to_string (pid r)"

definition addToLog :: "client_request_id \<Rightarrow> replay_log \<Rightarrow> int \<times> replay_log" where
  "addToLog r client_list =
     (case map_of client_list (client_identifier r) of
        None \<Rightarrow> (0, AList.update (client_identifier r) [(timestamp r, False)] client_list)
      | Some timestamp_list \<Rightarrow>
          if length timestamp_list > 0 \<and>
             googleTimestampComparator (timestamp r) (fst (hd timestamp_list))
          then (- 2, client_list)
          else (let (timestamp_list', inserted) = map_insert (timestamp r) False timestamp_list
                in (if inserted then 0 else - 1,
                    AList.update (client_identifier r) timestamp_list' client_list)))"

definition ackLogEntry :: "client_request_id \<Rightarrow> replay_log \<Rightarrow> int \<times> replay_log" where
  "ackLogEntry r client_list =
     (case map_of client_list (client_identifier r) of
        None \<Rightarrow> (- 1, client_list)
      | Some timestamp_list \<Rightarrow>
          (case map_of timestamp_list (timestamp r) of
             None \<Rightarrow> (- 1, client_list)
           | Some committed \<Rightarrow>
               if \<not> committed then (- 2, client_list)
               else (0, AList.update (client_identifier r) (map_erase (timestamp r) timestamp_list)
                          client_list)))"

definition commitLogEntry :: "client_request_id \<Rightarrow> replay_log \<Rightarrow> int \<times> replay_log" where
  "commitLogEntry r client_list =
     (case map_of client_list (client_identifier r) of
        None \<Rightarrow> (- 1, client_list)
      | Some timestamp_list \<Rightarrow>
          (case map_of timestamp_list (timestamp r) of
             None \<Rightarrow> (- 1, client_list)
           | Some committed \<Rightarrow>
               if committed then (- 2, client_list)
               else (0, AList.update (client_identifier r)
                          (AList.update (timestamp r) True timestamp_list) client_list)))"

text \<open>\<open>now\<close> is \<^verbatim>\<open>now.tv_sec\<close> as read from the clock.\<close>

definition old_clients :: "int \<Rightarrow> int \<Rightarrow> replay_log \<Rightarrow> string list" where
  "old_clients now age client_list =
     [i. (i, timestamp_list) \<leftarrow> client_list,
         timestamp_list \<noteq> [],
         seconds (fst (last timestamp_list)) < now,
         now - seconds (fst (last timestamp_list)) > age]"

definition cleanOldLogEntry :: "int \<Rightarrow> int \<Rightarrow> replay_log \<Rightarrow> replay_log" where
  "cleanOldLogEntry now age client_list =
     fold AList.delete (old_clients now age client_list) client_list"

text \<open>The message \<^verbatim>\<open>server::ReplayLogEntry\<close>, and the copy in and out of the log.\<close>

record replay_log_entry_msg =
  msg_identifier :: string
  msg_timestamp :: "timestamp list"
  msg_committed :: "bool list"

definition getRelayLogContent :: "replay_log \<Rightarrow> replay_log_entry_msg list" where
  "getRelayLogContent client_list =
     map (\<lambda>(i, timestamp_list). \<lparr>msg_identifier = i,
            msg_timestamp = map (\<lambda>(t, _). Timestamp (seconds t) (nanos t)) timestamp_list,
            msg_committed = map snd timestamp_list\<rparr>) client_list"

definition clearContent :: "replay_log \<Rightarrow> replay_log" where
  "clearContent client_list = []"

text \<open>Reading \<^verbatim>\<open>entry.committed(j)\<close> past the end of the repeated field is undefined.\<close>

fun init_timestamps :: "timestamp list \<Rightarrow> bool list \<Rightarrow> timestamp_list \<Rightarrow> cpp_error + timestamp_list" where
  "init_timestamps [] cs acc = Inr acc"
| "init_timestamps (t # ts) [] acc = Inl Undefined"
| "init_timestamps (t # ts) (c # cs) acc =
     init_timestamps ts cs (fst (map_insert (Timestamp (seconds t) (nanos t)) c acc))"

fun init_entries :: "replay_log_entry_msg list \<Rightarrow> replay_log \<Rightarrow> cpp_error + replay_log" where
  "init_entries [] client_list = Inr client_list"
| "init_entries (entry # es) client_list =
     (case init_timestamps (msg_timestamp entry) (msg_committed entry) [] of
        Inl e \<Rightarrow> Inl e
      | Inr new_entry \<Rightarrow>
          init_entries es
            (if map_of client_list (msg_identifier entry) = None
             then client_list @ [(msg_identifier entry, new_entry)] else client_list))"

definition initRelayLogContent :: "replay_log_entry_msg list \<Rightarrow> replay_log \<Rightarrow> cpp_error + replay_log" where
  "initRelayLogContent content client_list = init_entries content (clearContent client_list)"

lemmas [tables_simps] = addToLog_def ackLogEntry_def commitLogEntry_def

section \<open>Invariant\<close>

definition log_wf :: "replay_log \<Rightarrow> bool" where
  "log_wf log \<longleftrightarrow> distinct (map fst log) \<and> (\<forall>i tsl. map_of log i = Some tsl \<longrightarrow> map_wf tsl)"

lemma log_wf_Nil [simp]: "log_wf []"
  by (simp add: log_wf_def)

lemma log_wf_lookup: "log_wf log \<Longrightarrow> map_of log i = Some tsl \<Longrightarrow> map_wf tsl"
  by (simp add: log_wf_def)

lemma log_wf_update: "log_wf log \<Longrightarrow> map_wf tsl \<Longrightarrow> log_wf (AList.update i tsl log)"
  by (simp add: log_wf_def distinct_update update_conv')

lemma map_wf_set_flag: "map_wf tsl \<Longrightarrow> t \<in> fst ` set tsl \<Longrightarrow> map_wf (AList.update t b tsl)"
  by (simp add: map_wf_def update_keys)

lemma map_wf_singleton [simp]: "map_wf [kv]"
  by (simp add: map_wf_def)

lemma addToLog_wf: "log_wf log \<Longrightarrow> log_wf (snd (addToLog r log))"
  by (auto simp: addToLog_def Let_def case_prod_unfold
      intro!: log_wf_update smap.wf_ins dest: log_wf_lookup split: option.splits)

lemma ackLogEntry_wf: "log_wf log \<Longrightarrow> log_wf (snd (ackLogEntry r log))"
  by (auto simp: ackLogEntry_def intro!: log_wf_update smap.wf_erase dest: log_wf_lookup
      split: option.splits)

lemma commitLogEntry_wf: "log_wf log \<Longrightarrow> log_wf (snd (commitLogEntry r log))"
  by (auto simp: commitLogEntry_def intro!: log_wf_update map_wf_set_flag dest: log_wf_lookup
      intro: rev_image_eqI dest: map_of_SomeD split: option.splits)

section \<open>Abstract specification\<close>

text \<open>
  Abstractly the log is a partial map from (client, time stamp) to the committed flag. A
  request is \<open>stale\<close> when the client has requests in the log and all are newer.
\<close>

type_synonym request_table = "string \<times> timestamp \<Rightarrow> bool option"

definition status :: "replay_log \<Rightarrow> request_table" where
  "status log = (\<lambda>(i, t). case map_of log i of None \<Rightarrow> None | Some tsl \<Rightarrow> map_of tsl t)"

definition request_key :: "client_request_id \<Rightarrow> string \<times> timestamp" where
  "request_key r = (client_identifier r, timestamp r)"

definition stale :: "request_table \<Rightarrow> string \<times> timestamp \<Rightarrow> bool" where
  "stale m k \<longleftrightarrow> (\<exists>t. m (fst k, t) \<noteq> None) \<and> (\<forall>t. m (fst k, t) \<noteq> None \<longrightarrow> snd k < t)"

definition spec_add :: "string \<times> timestamp \<Rightarrow> request_table \<Rightarrow> int \<times> request_table" where
  "spec_add k m = (if m k \<noteq> None then (- 1, m) else if stale m k then (- 2, m)
                   else (0, m(k \<mapsto> False)))"

definition spec_commit :: "string \<times> timestamp \<Rightarrow> request_table \<Rightarrow> int \<times> request_table" where
  "spec_commit k m = (case m k of None \<Rightarrow> (- 1, m) | Some True \<Rightarrow> (- 2, m)
                      | Some False \<Rightarrow> (0, m(k \<mapsto> True)))"

definition spec_ack :: "string \<times> timestamp \<Rightarrow> request_table \<Rightarrow> int \<times> request_table" where
  "spec_ack k m = (case m k of None \<Rightarrow> (- 1, m) | Some False \<Rightarrow> (- 2, m)
                   | Some True \<Rightarrow> (0, m(k := None)))"

lemma status_update:
  "status (AList.update i tsl log) (j, t) = (if j = i then map_of tsl t else status log (j, t))"
  by (simp add: status_def update_conv')

lemma status_lookup: "map_of log i = Some tsl \<Longrightarrow> status log (i, t) = map_of tsl t"
  by (simp add: status_def)

lemma status_no_client: "map_of log i = None \<Longrightarrow> status log (i, t) = None"
  by (simp add: status_def)

text \<open>How replacing one client's entry shows in the table.\<close>

lemma status_set:
  assumes "map_of log i = Some tsl" and "map_of tsl' = (map_of tsl)(t := v)"
  shows "status (AList.update i tsl' log) = (status log)((i, t) := v)"
proof (rule ext)
  fix k :: "string \<times> timestamp"
  obtain j t' where "k = (j, t')" by (cases k)
  with assms show "status (AList.update i tsl' log) k = ((status log)((i, t) := v)) k"
    by (simp add: status_update status_lookup)
qed

lemma status_new_client:
  assumes "map_of log i = None"
  shows "status (AList.update i [(t, b)] log) = (status log)((i, t) \<mapsto> b)"
proof (rule ext)
  fix k :: "string \<times> timestamp"
  obtain j t' where "k = (j, t')" by (cases k)
  with assms show "status (AList.update i [(t, b)] log) k = ((status log)((i, t) \<mapsto> b)) k"
    by (simp add: status_update status_no_client)
qed

lemma status_same:
  assumes "map_of log i = Some tsl"
  shows "status (AList.update i tsl log) = status log"
  using status_set [OF assms, of tsl] by (metis assms fun_upd_triv status_lookup)

lemma less_min_iff:
  assumes "map_wf tsl" and "tsl \<noteq> []"
  shows "t < fst (hd tsl) \<longleftrightarrow> (\<forall>t'. map_of tsl t' \<noteq> None \<longrightarrow> t < t')"
proof -
  obtain k v tsl' where tsl: "tsl = (k, v) # tsl'" using assms(2) by (cases tsl) auto
  show ?thesis
    using assms(1) by (auto simp: tsl map_wf_Cons dest!: map_of_SomeD intro: less_trans)
qed

lemma min_not_greater:
  assumes "map_wf tsl" and "map_of tsl t = Some c"
  shows "\<not> t < fst (hd tsl)"
proof -
  have "tsl \<noteq> []" using assms(2) by auto
  then show ?thesis
    using less_min_iff [OF assms(1)] assms(2) by blast
qed

lemma stale_iff:
  assumes "log_wf log" and "map_of log (client_identifier r) = Some tsl"
  shows "stale (status log) (request_key r) \<longleftrightarrow> tsl \<noteq> [] \<and> timestamp r < fst (hd tsl)"
proof -
  have "stale (status log) (request_key r) \<longleftrightarrow>
      (\<exists>t. map_of tsl t \<noteq> None) \<and> (\<forall>t. map_of tsl t \<noteq> None \<longrightarrow> timestamp r < t)"
    by (simp add: stale_def request_key_def status_lookup [OF assms(2)])
  moreover have "(\<exists>t. map_of tsl t \<noteq> None) \<longleftrightarrow> tsl \<noteq> []"
    by (cases tsl) auto
  ultimately show ?thesis
    using less_min_iff [OF log_wf_lookup [OF assms]] by metis
qed

lemma addToLog_refines:
  assumes "log_wf log"
  shows "spec_add (request_key r) (status log) = map_prod id status (addToLog r log)"
proof (cases "map_of log (client_identifier r)")
  case None
  then show ?thesis
    by (simp add: spec_add_def addToLog_def request_key_def stale_def status_no_client
        status_new_client)
next
  case (Some tsl)
  note client = this and wf = log_wf_lookup [OF assms Some]
  show ?thesis
  proof (cases "map_of tsl (timestamp r)")
    case None
    obtain tsl' where ins: "map_insert (timestamp r) False tsl = (tsl', True)"
        "map_of tsl' = (map_of tsl)(timestamp r \<mapsto> False)"
      using smap.ins_fresh [OF wf None, of False] by (metis fst_conv prod.collapse snd_conv)
    have absent: "status log (request_key r) = None"
      using None client by (simp add: request_key_def status_lookup)
    show ?thesis
    proof (cases "stale (status log) (request_key r)")
      case True
      then show ?thesis
        using stale_iff [OF assms client] client absent
        by (simp add: spec_add_def addToLog_def less_timestamp_def)
    next
      case False
      then have "\<not> (tsl \<noteq> [] \<and> timestamp r < fst (hd tsl))"
        unfolding stale_iff [OF assms client] .
      then have "addToLog r log = (0, AList.update (client_identifier r) tsl' log)"
        by (simp add: addToLog_def client ins(1) less_timestamp_def)
      moreover have "spec_add (request_key r) (status log) =
          (0, (status log)(request_key r \<mapsto> False))"
        using absent False by (simp add: spec_add_def)
      ultimately show ?thesis
        by (simp add: status_set [OF client ins(2)] request_key_def)
    qed
  next
    case (Some c)
    then have "\<not> timestamp r < fst (hd tsl)"
      by (rule min_not_greater [OF wf])
    then show ?thesis
      using client smap.ins_dup [OF wf Some, of False] Some
      by (simp add: spec_add_def addToLog_def request_key_def status_lookup less_timestamp_def
          status_same)
  qed
qed

lemma commitLogEntry_refines:
  "spec_commit (request_key r) (status log) = map_prod id status (commitLogEntry r log)"
proof (cases "map_of log (client_identifier r)")
  case None
  then show ?thesis
    by (simp add: spec_commit_def commitLogEntry_def request_key_def status_no_client)
next
  case (Some tsl)
  then show ?thesis
    by (cases "map_of tsl (timestamp r)")
      (auto simp: spec_commit_def commitLogEntry_def request_key_def status_lookup status_set
        update_conv' split: bool.splits)
qed

lemma ackLogEntry_refines:
  assumes "log_wf log"
  shows "spec_ack (request_key r) (status log) = map_prod id status (ackLogEntry r log)"
proof (cases "map_of log (client_identifier r)")
  case None
  then show ?thesis
    by (simp add: spec_ack_def ackLogEntry_def request_key_def status_no_client)
next
  case (Some tsl)
  then show ?thesis
    by (cases "map_of tsl (timestamp r)")
      (auto simp: spec_ack_def ackLogEntry_def request_key_def status_lookup status_set
        smap.find_erase [OF log_wf_lookup [OF assms Some]] split: bool.splits)
qed

lemmas log_refines = addToLog_refines commitLogEntry_refines ackLogEntry_refines
lemmas log_wf_steps = addToLog_wf ackLogEntry_wf commitLogEntry_wf

section \<open>The contract the handlers rely on\<close>

text \<open>
  The write path relies on the log to suppress duplicates: a request that is in the table is
  refused, and only its own acknowledgement takes it out.
\<close>

datatype 'r log_op = Add 'r | Commit 'r | Ack 'r

locale request_log =
  fixes add commit ack :: "'r \<Rightarrow> 'l \<Rightarrow> int \<times> 'l"
    and table :: "'l \<Rightarrow> 'k \<Rightarrow> bool option"
    and key :: "'r \<Rightarrow> 'k"
    and wf :: "'l \<Rightarrow> bool"
  assumes wf_add: "wf l \<Longrightarrow> wf (snd (add r l))"
    and wf_commit: "wf l \<Longrightarrow> wf (snd (commit r l))"
    and wf_ack: "wf l \<Longrightarrow> wf (snd (ack r l))"
    and add_present: "wf l \<Longrightarrow> table l (key r) \<noteq> None \<Longrightarrow> fst (add r l) = - 1"
    and add_accepted: "wf l \<Longrightarrow> fst (add r l) = 0 \<Longrightarrow> table (snd (add r l)) (key r) = Some False"
    and add_keeps: "wf l \<Longrightarrow> table l k \<noteq> None \<Longrightarrow> table (snd (add r l)) k = table l k"
    and commit_keeps: "wf l \<Longrightarrow> table l k \<noteq> None \<Longrightarrow> table (snd (commit r l)) k \<noteq> None"
    and ack_keeps: "wf l \<Longrightarrow> k \<noteq> key r \<Longrightarrow> table (snd (ack r l)) k = table l k"
begin

primrec step :: "'r log_op \<Rightarrow> 'l \<Rightarrow> 'l" where
  "step (Add r) l = snd (add r l)"
| "step (Commit r) l = snd (commit r l)"
| "step (Ack r) l = snd (ack r l)"

lemma step_keeps:
  assumes "wf l" and "table l k \<noteq> None" and "\<And>r. x = Ack r \<Longrightarrow> key r \<noteq> k"
  shows "wf (step x l)" "table (step x l) k \<noteq> None"
proof -
  show "wf (step x l)" by (cases x) (simp_all add: assms(1) wf_add wf_commit wf_ack)
  show "table (step x l) k \<noteq> None"
  proof (cases x)
    case (Ack r)
    then show ?thesis using assms ack_keeps [of l k r] by auto
  qed (use assms add_keeps commit_keeps in simp_all)
qed

end

lemma addToLog_result:
  assumes "log_wf log"
  shows "fst (addToLog r log) = fst (spec_add (request_key r) (status log))"
    and "status (snd (addToLog r log)) = snd (spec_add (request_key r) (status log))"
  by (simp_all add: addToLog_refines [OF assms])

lemma commitLogEntry_result:
  "fst (commitLogEntry r log) = fst (spec_commit (request_key r) (status log))"
  "status (snd (commitLogEntry r log)) = snd (spec_commit (request_key r) (status log))"
  by (simp_all add: commitLogEntry_refines)

lemma ackLogEntry_result:
  assumes "log_wf log"
  shows "fst (ackLogEntry r log) = fst (spec_ack (request_key r) (status log))"
    and "status (snd (ackLogEntry r log)) = snd (spec_ack (request_key r) (status log))"
  by (simp_all add: ackLogEntry_refines [OF assms])

lemmas log_results = addToLog_result commitLogEntry_result ackLogEntry_result

interpretation rl: request_log addToLog commitLogEntry ackLogEntry status request_key log_wf
  by unfold_locales
     (auto simp: log_wf_steps log_results spec_add_def spec_commit_def spec_ack_def
       split: option.splits bool.splits if_splits)

section \<open>Sequences of operations\<close>

text \<open>
  Every operation that changes the log: the three that are about a request, the removal of old clients
  at time \<open>now\<close>, and the replacement of the log by the contents of a message.
\<close>

datatype table_op = Request "client_request_id log_op" | Clean int int | Load "replay_log_entry_msg list"

fun log_step :: "table_op \<Rightarrow> replay_log \<Rightarrow> cpp_error + replay_log" where
  "log_step (Request (Add r)) log = Inr (snd (addToLog r log))"
| "log_step (Request (Commit r)) log = Inr (snd (commitLogEntry r log))"
| "log_step (Request (Ack r)) log = Inr (snd (ackLogEntry r log))"
| "log_step (Clean now age) log = Inr (cleanOldLogEntry now age log)"
| "log_step (Load content) log = initRelayLogContent content log"

fun log_run :: "table_op list \<Rightarrow> replay_log \<Rightarrow> cpp_error + replay_log" where
  "log_run [] log = Inr log"
| "log_run (x # xs) log = (case log_step x log of Inl e \<Rightarrow> Inl e | Inr log \<Rightarrow> log_run xs log)"

text \<open>
  The operations that do not make the log forget a request \<open>r\<close>: it is not acknowledged, not
  old enough to be cleaned away, and the log is only replaced by the copy of a log that has it.
\<close>

definition keeps_request :: "client_request_id \<Rightarrow> table_op \<Rightarrow> bool" where
  "keeps_request r x = (case x of
     Request (Ack r') \<Rightarrow> request_key r' \<noteq> request_key r
   | Request _ \<Rightarrow> True
   | Clean now age \<Rightarrow> now - seconds (timestamp r) \<le> age
   | Load content \<Rightarrow> \<exists>log. log_wf log \<and> content = getRelayLogContent log \<and> status log (request_key r) \<noteq> None)"

text \<open>An operation that reports failure leaves the log as it was.\<close>

lemma addToLog_refused: "log_wf log \<Longrightarrow> fst (addToLog r log) \<noteq> 0 \<Longrightarrow> snd (addToLog r log) = log"
  by (auto simp: addToLog_def Let_def case_prod_unfold update_triv smap.ins_inserted_iff
      log_wf_lookup smap.ins_dup split: option.splits if_splits)

lemma commitLogEntry_refused: "fst (commitLogEntry r log) \<noteq> 0 \<Longrightarrow> snd (commitLogEntry r log) = log"
  by (auto simp: commitLogEntry_def split: option.splits if_splits)

lemma ackLogEntry_refused: "fst (ackLogEntry r log) \<noteq> 0 \<Longrightarrow> snd (ackLogEntry r log) = log"
  by (auto simp: ackLogEntry_def split: option.splits if_splits)

section \<open>Properties\<close>

text \<open>
  Two clients share a replay log entry only if they are the same client: the identifier
  \<open>ip:pid\<close> determines both parts, whatever characters the ip string holds.
\<close>

theorem client_identifier_injective:
  assumes "0 \<le> pid r" and "0 \<le> pid r'" and "client_identifier r = client_identifier r'"
  shows "ip r = ip r' \<and> pid r = pid r'"
proof -
  have "ip r = ip r' \<and> to_string (pid r) = to_string (pid r')"
    using assms(3) to_string_no_colon
    by (intro separator_split [of "CHR '':''"]) (simp_all add: client_identifier_def)
  with assms(1,2) show ?thesis by (auto dest: to_string_inj_nonneg)
qed

theorem client_identifier_injective_witness:
  "let r = \<lparr>ip = ''10.0.0.1'', pid = 42, timestamp = Timestamp 7 0\<rparr>;
       r' = r\<lparr>timestamp := Timestamp 8 0\<rparr> in
   client_identifier r = client_identifier r' \<and> ip r = ip r' \<and> pid r = pid r'"
proof -
  let ?r = "\<lparr>ip = ''10.0.0.1'', pid = 42, timestamp = Timestamp 7 0\<rparr>"
  have "client_identifier ?r = client_identifier (?r\<lparr>timestamp := Timestamp 8 0\<rparr>)"
    by (simp add: client_identifier_def)
  from this client_identifier_injective [OF _ _ this] show ?thesis
    unfolding Let_def by simp
qed

text \<open>
  C23. Life cycle of a request that is not stale: it is accepted, cannot be acknowledged before
  it is committed, is committed exactly once, and is removed by its acknowledgement, after
  which the log's table is what it was before.
\<close>

theorem request_life_cycle:
  assumes "log_wf log" and "status log (request_key r) = None"
    and "\<not> stale (status log) (request_key r)"
  shows "\<exists>l1 l2 l3. addToLog r log = (0, l1) \<and> ackLogEntry r l1 = (- 2, l1) \<and>
           commitLogEntry r l1 = (0, l2) \<and> commitLogEntry r l2 = (- 2, l2) \<and>
           ackLogEntry r l2 = (0, l3) \<and> ackLogEntry r l3 = (- 1, l3) \<and> status l3 = status log"
proof -
  define l1 where "l1 = snd (addToLog r log)"
  define l2 where "l2 = snd (commitLogEntry r l1)"
  define l3 where "l3 = snd (ackLogEntry r l2)"
  have wf: "log_wf l1" "log_wf l2" "log_wf l3"
    using assms(1) by (simp_all add: l1_def l2_def l3_def log_wf_steps)
  have s1: "fst (addToLog r log) = 0" "status l1 = (status log)(request_key r \<mapsto> False)"
    using assms by (simp_all add: l1_def log_results spec_add_def)
  have s2: "fst (commitLogEntry r l1) = 0" "status l2 = (status log)(request_key r \<mapsto> True)"
    using s1(2) by (simp_all add: l2_def log_results spec_commit_def)
  have s3: "fst (ackLogEntry r l2) = 0" "status l3 = status log"
    using s2(2) wf(2) assms(2) by (simp_all add: l3_def log_results spec_ack_def fun_upd_idem)
  have codes: "fst (ackLogEntry r l1) = - 2" "fst (commitLogEntry r l2) = - 2"
      "fst (ackLogEntry r l3) = - 1"
    using s1(2) s2(2) s3(2) wf assms(2) by (simp_all add: log_results spec_ack_def spec_commit_def)
  have "ackLogEntry r l1 = (- 2, l1)" "commitLogEntry r l2 = (- 2, l2)" "ackLogEntry r l3 = (- 1, l3)"
    using codes ackLogEntry_refused commitLogEntry_refused by (simp_all add: prod_eq_iff)
  moreover have "addToLog r log = (0, l1)" "commitLogEntry r l1 = (0, l2)" "ackLogEntry r l2 = (0, l3)"
    using s1(1) s2(1) s3(1) by (simp_all add: prod_eq_iff l1_def l2_def l3_def)
  ultimately show ?thesis using s3(2) by blast
qed

theorem request_life_cycle_witness:
  "let r = \<lparr>ip = ''a'', pid = 1, timestamp = Timestamp 7 0\<rparr>;
       log = [(client_identifier r, [(Timestamp 5 0, False)])] in
   \<exists>l1 l2 l3. addToLog r log = (0, l1) \<and> ackLogEntry r l1 = (- 2, l1) \<and>
     commitLogEntry r l1 = (0, l2) \<and> commitLogEntry r l2 = (- 2, l2) \<and>
     ackLogEntry r l2 = (0, l3) \<and> ackLogEntry r l3 = (- 1, l3) \<and> status l3 = status log"
  unfolding Let_def
proof (rule request_life_cycle)
  let ?r = "\<lparr>ip = ''a'', pid = 1, timestamp = Timestamp 7 0\<rparr>"
  let ?log = "[(client_identifier ?r, [(Timestamp 5 0, False)])]"
  show "log_wf ?log" by (simp add: log_wf_def)
  show "status ?log (request_key ?r) = None" by (simp add: status_def request_key_def)
  show "\<not> stale (status ?log) (request_key ?r)"
    using stale_iff [of ?log ?r "[(Timestamp 5 0, False)]"]
    by (simp add: log_wf_def less_timestamp_def googleTimestampComparator_def)
qed

text \<open>
  What acknowledging forgets: when the acknowledged request was the client's only entry,
  the client's list is empty and the same request is accepted as new again, so a late
  duplicate of an acknowledged write is applied a second time.
\<close>

theorem acknowledged_request_accepted_again:
  assumes "log_wf log" and "status log (request_key r) = Some True"
    and "\<forall>t. status log (client_identifier r, t) \<noteq> None \<longrightarrow> t = timestamp r"
  shows "\<exists>l1 l2. ackLogEntry r log = (0, l1) \<and> addToLog r l1 = (0, l2) \<and>
           status l2 (request_key r) = Some False"
proof -
  define l1 where "l1 = snd (ackLogEntry r log)"
  have wf: "log_wf l1" using assms(1) by (simp add: l1_def log_wf_steps)
  have s1: "fst (ackLogEntry r log) = 0" "status l1 = (status log)(request_key r := None)"
    using assms(1,2) by (simp_all add: l1_def log_results spec_ack_def)
  have "\<not> stale (status l1) (request_key r)"
    using assms(3) by (auto simp: s1(2) stale_def request_key_def)
  then have "fst (addToLog r l1) = 0" "status (snd (addToLog r l1)) (request_key r) = Some False"
    using wf s1(2) by (simp_all add: log_results spec_add_def)
  then show ?thesis
    using s1(1) by (metis l1_def prod.collapse)
qed

theorem acknowledged_request_accepted_again_witness:
  "let r = \<lparr>ip = ''a'', pid = 1, timestamp = Timestamp 7 0\<rparr>;
       log = [(client_identifier r, [(timestamp r, True)])] in
   \<exists>l1 l2. ackLogEntry r log = (0, l1) \<and> addToLog r l1 = (0, l2) \<and>
     status l2 (request_key r) = Some False"
  unfolding Let_def
  by (rule acknowledged_request_accepted_again)
     (simp_all add: log_wf_def status_def request_key_def)

lemma init_timestamps_zip:
  "length ts = length cs \<Longrightarrow> init_timestamps ts cs acc = Inr (smap.ins_all (zip ts cs) acc)"
  by (induction ts cs arbitrary: acc rule: list_induct2) (simp_all add: smap.ins_all_def)

lemma init_timestamps_copy:
  assumes "map_wf tsl"
  shows "\<exists>tsl'. init_timestamps (map fst tsl) (map snd tsl) [] = Inr tsl' \<and> map_wf tsl' \<and>
           map_of tsl' = map_of tsl"
  using smap.find_ins_all [OF smap.wf_empty, of tsl] smap.wf_ins_all [OF smap.wf_empty, of tsl]
  by (simp add: init_timestamps_zip zip_map_fst_snd)

lemma getRelayLogContent_Cons:
  "getRelayLogContent ((i, tsl) # log) =
     \<lparr>msg_identifier = i, msg_timestamp = map fst tsl, msg_committed = map snd tsl\<rparr>
       # getRelayLogContent log"
  by (simp add: getRelayLogContent_def case_prod_unfold)

lemma status_unknown: "fst k \<notin> fst ` set log \<Longrightarrow> status log k = None"
  using status_no_client [of log "fst k" "snd k"] by (simp add: map_of_eq_None_iff)

lemma status_Cons:
  "status ((i, tsl) # log) (j, t) = (if j = i then map_of tsl t else status log (j, t))"
  by (simp add: status_def)

lemma status_append_new:
  "map_of acc i = None \<Longrightarrow>
   status (acc @ [(i, tsl)]) (j, t) = (if j = i then map_of tsl t else status acc (j, t))"
  by (auto simp: status_def map_add_def split: option.splits)

lemma init_entries_copy:
  assumes "distinct (map fst log)" and "\<forall>(i, tsl) \<in> set log. map_wf tsl"
    and "fst ` set log \<inter> fst ` set acc = {}" and "log_wf acc"
  shows "\<exists>log'. init_entries (getRelayLogContent log) acc = Inr log' \<and> log_wf log' \<and>
           status log' = (\<lambda>k. if fst k \<in> fst ` set acc then status acc k else status log k)"
  using assms
proof (induction log arbitrary: acc)
  case Nil
  have "status acc = (\<lambda>k. if fst k \<in> fst ` set acc then status acc k else status [] k)"
    by (rule ext) (simp add: status_unknown)
  with Nil show ?case by (auto simp: getRelayLogContent_def)
next
  case (Cons x log)
  obtain i tsl where x: "x = (i, tsl)" by (cases x)
  from Cons.prems x obtain tsl' where tsl': "init_timestamps (map fst tsl) (map snd tsl) [] = Inr tsl'"
      "map_wf tsl'" "map_of tsl' = map_of tsl"
    using init_timestamps_copy [of tsl] by auto
  let ?acc = "acc @ [(i, tsl')]"
  have new: "map_of acc i = None"
    using Cons.prems(3) x by (auto simp: map_of_eq_None_iff)
  have "log_wf ?acc"
    using Cons.prems(3,4) x tsl'(2) new
    by (auto simp: log_wf_def map_add_def map_of_eq_None_iff split: option.splits if_splits)
  then obtain log' where log': "init_entries (getRelayLogContent log) ?acc = Inr log'" "log_wf log'"
      "status log' = (\<lambda>k. if fst k \<in> fst ` set ?acc then status ?acc k else status log k)"
    using Cons.IH [of ?acc] Cons.prems x by auto
  have "status log' = (\<lambda>k. if fst k \<in> fst ` set acc then status acc k else status (x # log) k)"
  proof (rule ext)
    fix k :: "string \<times> timestamp"
    obtain j t where k: "k = (j, t)" by (cases k)
    have "i \<notin> fst ` set acc" using new by (simp add: map_of_eq_None_iff)
    then show "status log' k = (if fst k \<in> fst ` set acc then status acc k else status (x # log) k)"
      by (auto simp: log'(3) k x status_append_new [OF new] status_Cons tsl'(3))
  qed
  with log'(1,2) tsl'(1) new show ?case
    by (auto simp: x getRelayLogContent_Cons)
qed

lemma copied_log:
  assumes "log_wf log"
  shows "\<exists>log'. initRelayLogContent (getRelayLogContent log) old = Inr log' \<and> log_wf log' \<and>
           status log' = status log"
proof -
  have "\<forall>(i, tsl) \<in> set log. map_wf tsl" and "distinct (map fst log)"
    using assms by (auto simp: log_wf_def)
  then show ?thesis
    using init_entries_copy [of log "[]"] by (auto simp: initRelayLogContent_def clearContent_def)
qed

text \<open>
  C24. Forwarding the log to a new tail is lossless: \<^verbatim>\<open>initRelayLogContent\<close> applied to the
  message \<^verbatim>\<open>getRelayLogContent\<close> fills in gives a log with the same client entries, whatever the
  receiving log held before.
\<close>

theorem replay_log_copy:
  assumes "log_wf log"
  shows "\<exists>log'. initRelayLogContent (getRelayLogContent log) old = Inr log' \<and> log_wf log' \<and>
           status log' = status log"
  by (rule copied_log [OF assms])

theorem replay_log_copy_witness:
  "\<exists>log'. initRelayLogContent (getRelayLogContent
       [(''a:1'', [(Timestamp 5 0, True), (Timestamp 7 0, False)]), (''b:2'', [])])
       [(''c:3'', [])] = Inr log' \<and> log_wf log' \<and>
     status log' = status [(''a:1'', [(Timestamp 5 0, True), (Timestamp 7 0, False)]), (''b:2'', [])]"
  by (rule replay_log_copy)
     (auto simp: log_wf_def map_wf_def less_timestamp_def googleTimestampComparator_def
       split: if_splits)

lemma map_of_fold_delete: "map_of (fold AList.delete is log) i = (if i \<in> set is then None else map_of log i)"
  by (induction "is" arbitrary: log) (auto simp: delete_conv')

lemma log_wf_fold_delete: "log_wf log \<Longrightarrow> log_wf (fold AList.delete is log)"
proof (induction "is" arbitrary: log)
  case (Cons i "is")
  have "log_wf (AList.delete i log)"
    using Cons.prems by (auto simp: log_wf_def distinct_delete delete_conv')
  then show ?case using Cons.IH by simp
qed simp

lemma set_old_clients:
  assumes "distinct (map fst log)"
  shows "i \<in> set (old_clients now age log) \<longleftrightarrow>
     (\<exists>tsl. map_of log i = Some tsl \<and> tsl \<noteq> [] \<and> seconds (fst (last tsl)) < now \<and>
            age < now - seconds (fst (last tsl)))"
  using assms by (fastforce simp: old_clients_def)

text \<open>
  C40. Garbage collection removes a client exactly when its newest time stamp is more than
  \<open>age\<close> seconds old, and removes it with all its requests, committed or not; the entries of
  every other client are kept.
\<close>

theorem clean_removes_exactly_old_clients:
  assumes "log_wf log" and "0 \<le> age"
  shows "log_wf (cleanOldLogEntry now age log) \<and>
     map_of (cleanOldLogEntry now age log) i =
       (case map_of log i of
          Some tsl \<Rightarrow> if tsl \<noteq> [] \<and> seconds (fst (last tsl)) + age < now then None else Some tsl
        | None \<Rightarrow> None)"
proof -
  have "map_of (cleanOldLogEntry now age log) i =
      (if i \<in> set (old_clients now age log) then None else map_of log i)"
    by (simp add: cleanOldLogEntry_def map_of_fold_delete)
  moreover have "i \<in> set (old_clients now age log) \<longleftrightarrow>
     (\<exists>tsl. map_of log i = Some tsl \<and> tsl \<noteq> [] \<and> seconds (fst (last tsl)) + age < now)"
    using assms set_old_clients [of log i now age] by (fastforce simp: log_wf_def)
  moreover have "log_wf (cleanOldLogEntry now age log)"
    by (simp add: cleanOldLogEntry_def log_wf_fold_delete assms(1))
  ultimately show ?thesis
    by (cases "map_of log i") (simp_all del: map_of_eq_Some_iff)
qed

theorem clean_removes_exactly_old_clients_witness:
  "let log = [(''a:1'', [(Timestamp 5 0, False)]), (''b:2'', [(Timestamp 90 0, False)])] in
   log_wf (cleanOldLogEntry 100 30 log) \<and>
   map_of (cleanOldLogEntry 100 30 log) ''a:1'' =
     (case map_of log ''a:1'' of
        Some tsl \<Rightarrow> if tsl \<noteq> [] \<and> seconds (fst (last tsl)) + 30 < 100 then None else Some tsl
      | None \<Rightarrow> None)"
  unfolding Let_def
  by (rule clean_removes_exactly_old_clients) (simp_all add: log_wf_def)

lemma clean_keeps:
  assumes wf: "log_wf log" and r: "status log (request_key r) \<noteq> None" and age: "now - seconds (timestamp r) \<le> age"
  shows "log_wf (cleanOldLogEntry now age log)" "status (cleanOldLogEntry now age log) (request_key r) \<noteq> None"
proof -
  show "log_wf (cleanOldLogEntry now age log)" by (simp add: cleanOldLogEntry_def log_wf_fold_delete wf)
  obtain tsl where tsl: "map_of log (client_identifier r) = Some tsl" "map_of tsl (timestamp r) \<noteq> None"
    using r by (auto simp: status_def request_key_def split: option.splits)
  have "timestamp r \<in> set (map fst tsl)" using tsl(2) by (metis map_of_eq_None_iff list.set_map)
  from map_wf_last [OF log_wf_lookup [OF wf tsl(1)] this] have "timestamp r \<le> fst (last tsl)" .
  then have "seconds (timestamp r) \<le> seconds (fst (last tsl))" by (rule seconds_mono)
  then have "client_identifier r \<notin> set (old_clients now age log)"
    using set_old_clients [of log "client_identifier r" now age] wf tsl(1) age by (auto simp: log_wf_def)
  then have "map_of (cleanOldLogEntry now age log) (client_identifier r) = Some tsl"
    using tsl(1) by (simp add: cleanOldLogEntry_def map_of_fold_delete)
  then show "status (cleanOldLogEntry now age log) (request_key r) \<noteq> None"
    using tsl by (simp add: status_def request_key_def)
qed

lemma log_step_keeps:
  assumes "log_wf log" and "status log (request_key r) \<noteq> None" and x: "keeps_request r x"
  shows "\<exists>log'. log_step x log = Inr log' \<and> log_wf log' \<and> status log' (request_key r) \<noteq> None"
proof (cases x)
  case (Request y)
  have "log_step x log = Inr (rl.step y log)" by (cases y) (simp_all add: Request)
  moreover have "request_key r' \<noteq> request_key r" if "y = Ack r'" for r' using x that by (simp add: Request keeps_request_def)
  ultimately show ?thesis using rl.step_keeps [OF assms(1,2), of y] by blast
next
  case (Clean now age)
  then show ?thesis using clean_keeps [OF assms(1,2)] x by (simp add: keeps_request_def)
next
  case (Load content)
  then obtain src where src: "log_wf src" "content = getRelayLogContent src" "status src (request_key r) \<noteq> None"
    using x by (auto simp: keeps_request_def)
  then show ?thesis using copied_log [OF src(1), of log] Load by auto
qed

lemma log_run_keeps:
  assumes "log_wf log" and "status log (request_key r) \<noteq> None" and "\<forall>x \<in> set ops. keeps_request r x"
  shows "\<exists>log'. log_run ops log = Inr log' \<and> log_wf log' \<and> status log' (request_key r) \<noteq> None"
  using assms
proof (induction ops arbitrary: log)
  case (Cons x ops)
  obtain log1 where "log_step x log = Inr log1" "log_wf log1" "status log1 (request_key r) \<noteq> None"
    using log_step_keeps [OF Cons.prems(1,2), of x] Cons.prems(3) by auto
  then show ?case using Cons.IH [of log1] Cons.prems(3) by simp
qed simp

text \<open>
  C22. Duplicate suppression: once \<^verbatim>\<open>addToLog\<close> has accepted a request, every later attempt to
  add the same request returns \<open>-1\<close> and changes nothing, whatever operations on the log came in between, as long as
  none of them makes the log forget the request: it is not acknowledged, the log is not cleaned when the request's own time stamp is more than
  the given age in the past, and the log is not replaced by one that lacks the request.
\<close>

theorem request_accepted_once:
  assumes "log_wf log" and "addToLog r log = (0, log')" and "\<forall>x \<in> set ops. keeps_request r x"
  shows "\<exists>log''. log_run ops log' = Inr log'' \<and> addToLog r log'' = (- 1, log'')"
proof -
  have "log_wf log'" "status log' (request_key r) \<noteq> None"
    using rl.wf_add [OF assms(1), of r] rl.add_accepted [OF assms(1), of r] assms(2) by simp_all
  then obtain log'' where l: "log_run ops log' = Inr log''" "log_wf log''" "status log'' (request_key r) \<noteq> None"
    using log_run_keeps assms(3) by blast
  have "fst (addToLog r log'') = - 1" by (rule rl.add_present [OF l(2,3)])
  with addToLog_refused [OF l(2), of r] have "addToLog r log'' = (- 1, log'')" by (simp add: prod_eq_iff)
  with l(1) show ?thesis by blast
qed

theorem request_accepted_once_witness:
  "let r = \<lparr>ip = ''a'', pid = 1, timestamp = Timestamp 7 0\<rparr>; later = r\<lparr>timestamp := Timestamp 9 0\<rparr>;
       ops = [Request (Commit r), Request (Add later), Request (Commit later), Request (Ack later), Clean 30 25,
              Load (getRelayLogContent [(''a:1'', [(Timestamp 7 0, True)])])] in
   \<exists>log''. log_run ops (snd (addToLog r [])) = Inr log'' \<and> addToLog r log'' = (- 1, log'')"
  unfolding Let_def
proof (rule request_accepted_once [where log = "[]"])
  let ?r = "\<lparr>ip = ''a'', pid = 1, timestamp = Timestamp 7 0\<rparr>"
  have k: "client_identifier ?r = ''a:1''" by code_simp
  have "log_wf [(''a:1'', [(Timestamp 7 0, True)])]" by (simp add: log_wf_def)
  moreover have "status [(''a:1'', [(Timestamp 7 0, True)])] (request_key ?r) \<noteq> None"
    using k by (simp add: status_def request_key_def)
  ultimately have "keeps_request ?r (Load (getRelayLogContent [(''a:1'', [(Timestamp 7 0, True)])]))"
    unfolding keeps_request_def by (simp only: table_op.case) blast
  then show "\<forall>x \<in> set [Request (Commit ?r), Request (Add (?r\<lparr>timestamp := Timestamp 9 0\<rparr>)),
      Request (Commit (?r\<lparr>timestamp := Timestamp 9 0\<rparr>)), Request (Ack (?r\<lparr>timestamp := Timestamp 9 0\<rparr>)), Clean 30 25,
      Load (getRelayLogContent [(''a:1'', [(Timestamp 7 0, True)])])]. keeps_request ?r x"
    by (simp add: keeps_request_def request_key_def)
qed (simp_all add: addToLog_def)

end
