(* ===== verification/Crash.thy ===== *)
theory Crash
  imports Prelude
begin

text \<open>
  Crash codes (\<^verbatim>\<open>crash.cpp\<close>): fault injection through the volume offset of a write. A code is
  the union of a \<open>long\<close> with five indicator characters, a server number and a crash point,
  laid out little-endian; the server number is the last component of the server's IPv4
  address, read with \<^verbatim>\<open>sscanf\<close>.
\<close>

section \<open>Reading the server number\<close>

text \<open>One \<^verbatim>\<open>%hhu\<close> conversion: white space, an optional sign, at least one digit; the value
  of \<^verbatim>\<open>strtoul\<close> (saturating, a minus sign negates modulo \<open>2\<^sup>6\<^sup>4\<close>) stored into a byte.\<close>

definition is_space :: "char \<Rightarrow> bool" where
  "is_space c \<longleftrightarrow> c \<in> {CHR '' '', CHR 0x09, CHR 0x0A, CHR 0x0B, CHR 0x0C, CHR 0x0D}"

definition is_digit :: "char \<Rightarrow> bool" where
  "is_digit c \<longleftrightarrow> (48::nat) \<le> of_char c \<and> (of_char c :: nat) \<le> 57"

definition strtoul_value :: "bool \<Rightarrow> string \<Rightarrow> int" where
  "strtoul_value neg ds =
     (let n = int (digits_value 0 ds)
      in if n > 2 ^ 64 - 1 then 2 ^ 64 - 1 else if neg then (- n) mod 2 ^ 64 else n)"

definition scan_hhu :: "string \<Rightarrow> (byte \<times> string) option" where
  "scan_hhu s =
     (let s1 = dropWhile is_space s;
          neg = (s1 \<noteq> [] \<and> hd s1 = CHR ''-'');
          s2 = (if s1 \<noteq> [] \<and> (hd s1 = CHR ''-'' \<or> hd s1 = CHR ''+'') then tl s1 else s1);
          ds = takeWhile is_digit s2
      in if ds = [] then None
         else Some (word_of_int (strtoul_value neg ds), dropWhile is_digit s2))"

definition scan_dot :: "string \<Rightarrow> string option" where
  "scan_dot s = (case s of c # cs \<Rightarrow> if c = CHR ''.'' then Some cs else None | [] \<Rightarrow> None)"

text \<open>\<^verbatim>\<open>sscanf(s, "%hhu.%hhu.%hhu.%hhu", ...)\<close>: the fourth number if all four conversions succeed.\<close>

definition scan_quad :: "string \<Rightarrow> byte option" where
  "scan_quad s = do {
     (a, s) \<leftarrow> scan_hhu s; s \<leftarrow> scan_dot s;
     (b, s) \<leftarrow> scan_hhu s; s \<leftarrow> scan_dot s;
     (c, s) \<leftarrow> scan_hhu s; s \<leftarrow> scan_dot s;
     (d, s) \<leftarrow> scan_hhu s;
     Some d }"

definition get_server_num :: "string \<Rightarrow> byte" where
  "get_server_num ip =
     (if ip = [] then 0
      else case scan_quad (takeWhile (\<lambda>c. c \<noteq> CHR 0x00) ip) of None \<Rightarrow> 0 | Some d \<Rightarrow> d)"

section \<open>Crash codes\<close>

definition indicator :: "byte list" where
  "indicator = map of_char ''CRASH''"

text \<open>The union \<^verbatim>\<open>crash_code\<close> as its eight bytes.\<close>

record crash_code =
  chars :: "byte list"
  server_num :: byte
  crash_point :: int

definition code_of :: "crash_code \<Rightarrow> int" where
  "code_of c = to_int64 (le_int (chars c @ [server_num c] @ le_bytes 2 (crash_point c)))"

definition of_code :: "int \<Rightarrow> crash_code" where
  "of_code code =
     (let bs = le_bytes 8 code
      in \<lparr>chars = take 5 bs, server_num = bs ! 5, crash_point = le_int (drop 6 bs)\<rparr>)"

definition construct :: "string \<Rightarrow> int \<Rightarrow> int" where
  "construct ip crash_pt =
     code_of \<lparr>chars = indicator, server_num = get_server_num ip, crash_point = crash_pt\<rparr>"

text \<open>\<open>my_ip\<close> is the global \<^verbatim>\<open>server::my_ip\<close>. The indicator has no NUL, so \<^verbatim>\<open>strncmp\<close> over its
  length is equality of the five characters.\<close>

definition check :: "string \<Rightarrow> int \<Rightarrow> int \<Rightarrow> cpp_error + int" where
  "check my_ip offset crash_pt =
     (let code = of_code offset
      in if chars code = indicator then
           (let server = get_server_num my_ip
            in if server = server_num code \<and> crash_pt = crash_point code
               then Inl Assertion_failed else Inr 0)
         else Inr offset)"

section \<open>Layout lemmas\<close>

lemma le_bytes_to_int64: "le_bytes 8 (to_int64 v) = le_bytes 8 v"
proof -
  have "le_int (le_bytes 8 (to_int64 v)) = to_int64 v mod 256 ^ 8"
    by (rule le_int_le_bytes)
  also have "\<dots> = v mod 256 ^ 8"
    using take_bit_signed_take_bit [of 64 63 v] by (simp add: to_int64_def take_bit_eq_mod)
  also have "\<dots> = le_int (le_bytes 8 v)"
    by (rule le_int_le_bytes [symmetric])
  finally show ?thesis
    by (metis le_bytes_le_int length_le_bytes)
qed

lemma of_code_code_of:
  assumes "length (chars c) = 5" and "0 \<le> crash_point c" and "crash_point c < 2 ^ 16"
  shows "of_code (code_of c) = c"
proof -
  let ?bs = "chars c @ [server_num c] @ le_bytes 2 (crash_point c)"
  have "length ?bs = 8" using assms(1) by simp
  then have "le_bytes 8 (code_of c) = ?bs"
    by (metis code_of_def le_bytes_le_int le_bytes_to_int64)
  moreover have "le_int (le_bytes 2 (crash_point c)) = crash_point c"
    using assms(2,3) by (simp add: le_int_le_bytes)
  ultimately show ?thesis
    using assms(1) by (simp add: of_code_def nth_append)
qed

lemma indicator_length [simp]: "length indicator = 5"
  by (simp add: indicator_def)

lemma indicator_value: "le_int indicator = 310634435139"
  by (simp add: indicator_def)

lemma is_digit_digit_char: "d < 10 \<Longrightarrow> is_digit (digit_char d)"
  by (simp add: is_digit_def of_char_digit_char)

lemma nat_to_string_digits: "list_all is_digit (nat_to_string n) \<and> nat_to_string n \<noteq> []"
proof (induction n rule: nat_to_string.induct)
  case (1 n)
  show ?case
  proof (cases "n < 10")
    case True
    then show ?thesis by (subst (1 2) nat_to_string.simps) (simp add: is_digit_digit_char)
  next
    case False
    with "1.IH" show ?thesis by (subst (1 2) nat_to_string.simps) (simp add: is_digit_digit_char)
  qed
qed

text \<open>A printed number is scanned back, up to the first character that is no digit.\<close>

lemma scan_hhu_nat_to_string:
  assumes "n < 256" and "rest = [] \<or> \<not> is_digit (hd rest)"
  shows "scan_hhu (nat_to_string n @ rest) = Some (word_of_int (int n), rest)"
proof -
  obtain c cs where cs: "nat_to_string n = c # cs" and dig: "list_all is_digit (c # cs)"
    using nat_to_string_digits [of n] by (cases "nat_to_string n") auto
  then have c: "is_digit c" "\<forall>x\<in>set cs. is_digit x" by (auto simp: list_all_iff)
  have "takeWhile is_digit (cs @ rest) = cs" and "dropWhile is_digit (cs @ rest) = rest"
    using assms(2) c(2) by (cases rest; simp add: takeWhile_append2 dropWhile_append2)+
  moreover have "\<not> is_space c" "c \<noteq> CHR ''-''" "c \<noteq> CHR ''+''"
    using c(1) by (auto simp: is_space_def is_digit_def)
  moreover have "digits_value 0 (c # cs) = n"
    using digits_value_nat_to_string [of n] cs by simp
  ultimately show ?thesis
    using c(1) assms(1) by (simp add: scan_hhu_def cs strtoul_value_def Let_def del: digits_value.simps)
qed

section \<open>Properties\<close>

definition dotted_quad :: "nat \<Rightarrow> nat \<Rightarrow> nat \<Rightarrow> nat \<Rightarrow> string" where
  "dotted_quad a b c d = nat_to_string a @ ''.'' @ nat_to_string b @ ''.'' @
     nat_to_string c @ ''.'' @ nat_to_string d"

text \<open>
  The server number of a dotted-quad address is its last component.
\<close>

theorem server_num_of_address:
  assumes "a < 256" and "b < 256" and "c < 256" and "d < 256"
  shows "unat (get_server_num (dotted_quad a b c d)) = d"
proof -
  have nz: "takeWhile (\<lambda>x. x \<noteq> CHR 0x00) (dotted_quad a b c d) = dotted_quad a b c d"
  proof -
    have "\<not> is_digit (CHR 0x00)" by (simp add: is_digit_def)
    then have "CHR 0x00 \<notin> set (nat_to_string n)" for n
      using nat_to_string_digits [of n] by (auto simp: list_all_iff)
    then show ?thesis by (subst takeWhile_eq_all_conv) (auto simp: dotted_quad_def)
  qed
  have "\<not> is_digit (CHR ''.'')" by (simp add: is_digit_def)
  then have "scan_quad (dotted_quad a b c d) = Some (word_of_int (int d))"
    using assms scan_hhu_nat_to_string [of d "[]"]
    by (simp add: scan_quad_def dotted_quad_def scan_hhu_nat_to_string scan_dot_def)
  moreover have "dotted_quad a b c d \<noteq> []"
    by (simp add: dotted_quad_def)
  moreover have "unat (word_of_int (int d) :: byte) = d"
    using assms(4) by (simp add: take_bit_nat_eq_self unat_of_nat)
  ultimately show ?thesis
    by (simp add: get_server_num_def nz)
qed

theorem server_num_of_address_witness: "unat (get_server_num (dotted_quad 10 0 12 7)) = 7"
  by (rule server_num_of_address) simp_all

text \<open>
  A crash code built for one server and crash point aborts exactly that server at that
  point; every other server, and the same server at another point, gets the offset 0 back.
\<close>

theorem check_construct:
  assumes "0 \<le> point" and "point < 2 ^ 16"
  shows "check my_ip (construct ip point) here =
     (if get_server_num my_ip = get_server_num ip \<and> here = point
      then Inl Assertion_failed else Inr 0)"
proof -
  have "of_code (construct ip point) =
      \<lparr>chars = indicator, server_num = get_server_num ip, crash_point = point\<rparr>"
    unfolding construct_def by (rule of_code_code_of) (use assms in simp_all)
  then show ?thesis by (auto simp: check_def)
qed

theorem check_construct_witness:
  "check ''10.0.0.7'' (construct ''10.0.0.7'' 1) 1 =
     (if get_server_num ''10.0.0.7'' = get_server_num ''10.0.0.7'' \<and> (1::int) = 1
      then Inl Assertion_failed else Inr 0)"
  by (rule check_construct) simp_all

lemma check_volume_offset:
  assumes "0 \<le> off" and "off < 256 * 1024 * 1024 * 1024"
  shows "check my_ip off point = Inr off"
proof -
  have "chars (of_code off) \<noteq> indicator"
  proof
    assume "chars (of_code off) = indicator"
    then have "take 5 (le_bytes (5 + 3) off) = indicator" by (simp add: of_code_def Let_def)
    then have "le_bytes 5 off = indicator" by (simp only: le_bytes_append) simp
    then have "off mod 256 ^ 5 = 310634435139"
      using le_int_le_bytes [of 5 off] indicator_value by simp
    with assms show False by simp
  qed
  then show ?thesis by (simp add: check_def)
qed

text \<open>
  No offset of the 256 GiB volume is mistaken for a crash code: \<^verbatim>\<open>Crash::check\<close> returns it
  unchanged.
\<close>

theorem check_ordinary_offset:
  assumes "0 \<le> off" and "off < 256 * 1024 * 1024 * 1024"
  shows "check my_ip off point = Inr off"
  by (rule check_volume_offset [OF assms])

theorem check_ordinary_offset_witness: "check ''10.0.0.7'' 274877902848 1 = Inr 274877902848"
  by (rule check_ordinary_offset) simp_all

end
