(* ===== verification/Block_Codec.thy ===== *)
theory Block_Codec
  imports Prelude
begin

text \<open>
  Blocks of the volume file as byte lists, and \<^verbatim>\<open>union metadata_block\<close> (\<^verbatim>\<open>storage.cpp\<close>): the same
  4096 bytes read as 512 \<open>int64_t\<close> block numbers (\<open>indirect_block\<close>) or as 256 pairs of a
  sequence number and a block number (\<open>last_level_block\<close>). Integers are little-endian.
\<close>

section \<open>Sizes\<close>

abbreviation BLOCK_SIZE :: nat where
  "BLOCK_SIZE \<equiv> 4096"

definition VOLUME_SIZE :: int where
  "VOLUME_SIZE = 256 * 1024 * 1024 * 1024"

definition NUM_BLOCKS :: int where
  "NUM_BLOCKS = VOLUME_SIZE div 4096"

definition NUM_ENTRIES :: int where
  "NUM_ENTRIES = 4096 div 16"

definition NUM_INDIRECT :: int where
  "NUM_INDIRECT = 4096 div 8"

definition NUM_FIRST_LEVEL :: int where
  "NUM_FIRST_LEVEL = NUM_BLOCKS div NUM_ENTRIES div NUM_INDIRECT div NUM_INDIRECT"

lemma volume_constants [simp]:
  "NUM_ENTRIES = 256" "NUM_INDIRECT = 512" "NUM_BLOCKS = 67108864" "NUM_FIRST_LEVEL = 1"
  by (simp_all add: NUM_ENTRIES_def NUM_INDIRECT_def NUM_BLOCKS_def NUM_FIRST_LEVEL_def
      VOLUME_SIZE_def)

section \<open>Blocks as arrays of 64-bit slots\<close>

type_synonym block = "byte list"

definition zero_block :: block where
  "zero_block = replicate 4096 0"

definition get_i64 :: "block \<Rightarrow> nat \<Rightarrow> int" where
  "get_i64 b i = to_int64 (le_int (take 8 (drop (8 * i) b)))"

definition put_i64 :: "nat \<Rightarrow> int \<Rightarrow> block \<Rightarrow> block" where
  "put_i64 i v b = take (8 * i) b @ le_bytes 8 v @ drop (8 * i + 8) b"

definition is_block :: "block \<Rightarrow> bool" where
  "is_block b \<longleftrightarrow> length b = BLOCK_SIZE"

definition int64_range :: "int \<Rightarrow> bool" where
  "int64_range v \<longleftrightarrow> - (2 ^ 63) \<le> v \<and> v < 2 ^ 63"

lemma is_block_zero [simp, codec_simps]: "is_block zero_block"
  by (simp add: is_block_def zero_block_def)

lemma is_block_put [simp, codec_simps]: "is_block b \<Longrightarrow> i < 512 \<Longrightarrow> is_block (put_i64 i v b)"
  by (simp add: is_block_def put_i64_def)

lemma nth_put_i64:
  assumes "is_block b" and "i < 512" and "k < 4096"
  shows "put_i64 i v b ! k = (if 8 * i \<le> k \<and> k < 8 * i + 8 then le_bytes 8 v ! (k - 8 * i) else b ! k)"
  using assms by (auto simp: put_i64_def is_block_def nth_append min_def)

lemma get_put_same:
  assumes "is_block b" and "i < 512" and "int64_range v"
  shows "get_i64 (put_i64 i v b) i = v"
proof -
  have "take 8 (drop (8 * i) (put_i64 i v b)) = le_bytes 8 v"
    using assms(1,2) by (simp add: put_i64_def is_block_def)
  then show ?thesis
    using assms(3) by (simp add: get_i64_def int64_range_def to_int64_le_bytes)
qed

lemma get_put_other:
  assumes "is_block b" and "i < 512" and "j < 512" and "i \<noteq> j"
  shows "get_i64 (put_i64 i v b) j = get_i64 b j"
proof -
  have "take 8 (drop (8 * j) (put_i64 i v b)) = take 8 (drop (8 * j) b)"
  proof (rule nth_equalityI)
    show "length (take 8 (drop (8 * j) (put_i64 i v b))) = length (take 8 (drop (8 * j) b))"
      using assms(1) is_block_put [OF assms(1,2), of v] by (simp add: is_block_def)
    fix k assume "k < length (take 8 (drop (8 * j) (put_i64 i v b)))"
    then have k: "k < 8" "8 * j + k < 4096"
      using assms(1-3) is_block_put [OF assms(1,2), of v] by (simp_all add: is_block_def)
    then have "put_i64 i v b ! (8 * j + k) = b ! (8 * j + k)"
      using nth_put_i64 [OF assms(1,2) k(2), of v] assms(4) by (auto split: if_splits)
    with k assms(1) is_block_put [OF assms(1,2), of v]
    show "take 8 (drop (8 * j) (put_i64 i v b)) ! k = take 8 (drop (8 * j) b) ! k"
      by (simp add: is_block_def)
  qed
  then show ?thesis by (simp add: get_i64_def)
qed

lemma le_int_replicate_zero [simp]: "le_int (replicate n 0) = 0"
  by (induction n) auto

lemma get_zero_block [simp]: "get_i64 zero_block i = 0"
  by (simp add: get_i64_def zero_block_def to_int64_def)

lemma get_i64_range: "int64_range (get_i64 b i)"
  using signed_take_bit_int_greater_eq_minus_exp [of 63] signed_take_bit_int_less_exp [of 63]
  by (simp add: int64_range_def get_i64_def to_int64_def)

text \<open>The interface of such an array, and what follows from it for a sequence of stores.\<close>

locale slot_array =
  fixes get :: "'b \<Rightarrow> nat \<Rightarrow> int"
    and put :: "nat \<Rightarrow> int \<Rightarrow> 'b \<Rightarrow> 'b"
    and zero :: 'b
    and wf :: "'b \<Rightarrow> bool"
    and size :: nat
    and storable :: "int \<Rightarrow> bool"
  assumes get_zero: "get zero i = 0"
    and wf_zero: "wf zero"
    and wf_put: "wf b \<Longrightarrow> i < size \<Longrightarrow> wf (put i v b)"
    and get_put: "wf b \<Longrightarrow> i < size \<Longrightarrow> j < size \<Longrightarrow> storable v \<Longrightarrow>
      get (put i v b) j = (if j = i then v else get b j)"
begin

definition put_all :: "(nat \<times> int) list \<Rightarrow> 'b \<Rightarrow> 'b" where
  "put_all ivs b = fold (\<lambda>(i, v). put i v) ivs b"

lemma wf_put_all: "wf b \<Longrightarrow> \<forall>(i, v) \<in> set ivs. i < size \<Longrightarrow> wf (put_all ivs b)"
  unfolding put_all_def by (induction ivs arbitrary: b) (auto simp: wf_put)

text \<open>The last store to a slot wins; a slot no store names keeps its value.\<close>

lemma get_put_all:
  assumes "wf b" and "j < size" and "\<forall>(i, v) \<in> set ivs. i < size \<and> storable v"
  shows "get (put_all ivs b) j = (case map_of (rev ivs) j of Some v \<Rightarrow> v | None \<Rightarrow> get b j)"
  using assms
proof (induction ivs arbitrary: b)
  case (Cons iv ivs)
  obtain i v where iv: "iv = (i, v)" by (cases iv)
  have "get (put_all (iv # ivs) b) j = get (put_all ivs (put i v b)) j"
    by (simp add: put_all_def iv)
  also have "\<dots> = (case map_of (rev ivs) j of Some v \<Rightarrow> v | None \<Rightarrow> get (put i v b) j)"
    using Cons iv by (intro Cons.IH) (auto simp: wf_put)
  also have "\<dots> = (case map_of (rev (iv # ivs)) j of Some v \<Rightarrow> v | None \<Rightarrow> get b j)"
    using Cons.prems iv by (auto simp: get_put map_add_def split: option.splits)
  finally show ?case .
qed (simp add: put_all_def)

end

interpretation i64: slot_array get_i64 put_i64 zero_block is_block 512 int64_range
  by unfold_locales (simp_all add: get_put_same get_put_other)

section \<open>Members of the union\<close>

definition indirect_block :: "block \<Rightarrow> int \<Rightarrow> int" where
  "indirect_block b i = get_i64 b (nat i)"

definition set_indirect_block :: "int \<Rightarrow> int \<Rightarrow> block \<Rightarrow> block" where
  "set_indirect_block i v b = put_i64 (nat i) v b"

definition entry_last_updated :: "block \<Rightarrow> int \<Rightarrow> int" where
  "entry_last_updated b l = get_i64 b (2 * nat l)"

definition entry_file_block_num :: "block \<Rightarrow> int \<Rightarrow> int" where
  "entry_file_block_num b l = get_i64 b (2 * nat l + 1)"

definition set_entry_file_block_num :: "int \<Rightarrow> int \<Rightarrow> block \<Rightarrow> block" where
  "set_entry_file_block_num l v b = put_i64 (2 * nat l + 1) v b"

definition set_entry_last_updated :: "int \<Rightarrow> int \<Rightarrow> block \<Rightarrow> block" where
  "set_entry_last_updated l v b = put_i64 (2 * nat l) v b"

lemmas [codec_simps] = indirect_block_def set_indirect_block_def entry_last_updated_def
  entry_file_block_num_def set_entry_file_block_num_def set_entry_last_updated_def

section \<open>The four levels of an offset\<close>

text \<open>\<open>sdiv\<close> and \<open>smod\<close> round towards zero, as C++ division does.\<close>

definition get_first_level :: "int \<Rightarrow> int" where
  "get_first_level offset =
     ((((offset sdiv NUM_ENTRIES) sdiv NUM_INDIRECT) sdiv NUM_INDIRECT) sdiv 4096)
     AND (NUM_FIRST_LEVEL - 1)"

definition get_second_level :: "int \<Rightarrow> int" where
  "get_second_level offset =
     (((offset sdiv NUM_ENTRIES) sdiv NUM_INDIRECT) sdiv 4096) AND (NUM_INDIRECT - 1)"

definition get_third_level :: "int \<Rightarrow> int" where
  "get_third_level offset = ((offset sdiv NUM_ENTRIES) sdiv 4096) AND (NUM_INDIRECT - 1)"

definition get_last_level :: "int \<Rightarrow> int" where
  "get_last_level offset = (offset sdiv 4096) AND (NUM_ENTRIES - 1)"

lemma and_low_mask: "(x::int) AND 511 = x mod 512" "(x::int) AND 255 = x mod 256"
  using take_bit_eq_mask [of 9 x] take_bit_eq_mask [of 8 x]
  by (simp_all add: take_bit_eq_mod mask_eq_exp_minus_1)

lemma sdiv_nonneg: "0 \<le> a \<Longrightarrow> 0 < b \<Longrightarrow> (a::int) sdiv b = a div b"
  by (simp add: signed_divide_int_def sgn_if)

lemma smod_nonneg: "0 \<le> a \<Longrightarrow> 0 < b \<Longrightarrow> (a::int) smod b = a mod b"
  by (simp add: signed_modulo_int_def sgn_if)

text \<open>With one first-level block, every offset has first-level index 0.\<close>

lemma get_first_level_zero [simp]: "get_first_level off = 0"
  by (simp add: get_first_level_def)

lemma level_div:
  assumes "0 \<le> off"
  shows "get_second_level off = off div 536870912 mod 512"
    and "get_third_level off = off div 1048576 mod 512"
    and "get_last_level off = off div 4096 mod 256"
  using assms
  by (simp_all add: get_second_level_def get_third_level_def get_last_level_def sdiv_nonneg
      and_low_mask pos_imp_zdiv_nonneg_iff div_mult2_eq' zdiv_zmult2_eq [symmetric])

lemma level_bounds:
  "0 \<le> get_second_level off" "get_second_level off < 512"
  "0 \<le> get_third_level off" "get_third_level off < 512"
  "0 \<le> get_last_level off" "get_last_level off < 256"
  by (simp_all add: get_second_level_def get_third_level_def get_last_level_def and_low_mask)

definition in_volume :: "int \<Rightarrow> bool" where
  "in_volume off \<longleftrightarrow> 0 \<le> off \<and> off < VOLUME_SIZE"

definition aligned :: "int \<Rightarrow> bool" where
  "aligned off \<longleftrightarrow> off mod 4096 = 0"

lemma level_block:
  assumes "0 \<le> b"
  shows "get_second_level (4096 * b) = b div 256 div 512 mod 512"
    and "get_third_level (4096 * b) = b div 256 mod 512"
    and "get_last_level (4096 * b) = b mod 256"
  using assms by (simp_all add: level_div zdiv_zmult2_eq [symmetric])

lemma aligned_block:
  assumes "in_volume off" and "aligned off"
  obtains b where "off = 4096 * b" and "0 \<le> b" and "b < 67108864"
proof
  show "off = 4096 * (off div 4096)"
    using assms(2) mult_div_mod_eq [of 4096 off] by (simp add: aligned_def)
  then show "0 \<le> off div 4096" "off div 4096 < 67108864"
    using assms(1) by (simp_all add: in_volume_def VOLUME_SIZE_def)
qed

text \<open>The three indices are the digits of the block number.\<close>

lemma offset_of_levels:
  assumes "in_volume off" and "aligned off"
  shows "off = 4096 * (get_last_level off + 256 * (get_third_level off + 512 * get_second_level off))"
proof -
  obtain b where b: "off = 4096 * b" "0 \<le> b" "b < 67108864"
    using aligned_block [OF assms] .
  have "b div 256 div 512 = b div 131072" by (simp add: zdiv_zmult2_eq [symmetric])
  moreover have "0 \<le> b div 131072" "b div 131072 < 512" using b(2,3) by simp_all
  ultimately have top: "b div 256 div 512 mod 512 = b div 256 div 512"
    by (simp only: mod_pos_pos_trivial)
  have "b div 256 mod 512 + 512 * (b div 256 div 512) = b div 256" "b mod 256 + 256 * (b div 256) = b"
    by (rule mod_mult_div_eq)+
  then have "b mod 256 + 256 * (b div 256 mod 512 + 512 * (b div 256 div 512 mod 512)) = b"
    by (simp only: top)
  then show ?thesis by (simp only: b(1) level_block [OF b(2)])
qed

lemma levels_inj:
  assumes "in_volume a" "aligned a" "in_volume b" "aligned b"
    and "get_second_level a = get_second_level b" "get_third_level a = get_third_level b"
    and "get_last_level a = get_last_level b"
  shows "a = b"
  using offset_of_levels [OF assms(1,2)] offset_of_levels [OF assms(3,4)] assms(5-7) by metis

lemma offset_of_indices:
  assumes "0 \<le> j" "j < 512" "0 \<le> k" "k < 512" "0 \<le> l" "l < 256"
  defines "off \<equiv> 4096 * (l + 256 * (k + 512 * j))"
  shows "in_volume off" "aligned off" "get_second_level off = j" "get_third_level off = k"
    "get_last_level off = l"
proof -
  let ?b = "l + 256 * (k + 512 * j)"
  have b: "0 \<le> ?b" "?b < 67108864" using assms(1-6) by simp_all
  have d: "?b div 256 = k + 512 * j" "?b mod 256 = l"
    using assms(5,6) by (simp, simp only: mod_mult_self2, simp)
  then have "?b div 256 div 512 = j" "?b div 256 mod 512 = k" using assms(3,4) by simp_all
  then show "get_second_level off = j" "get_third_level off = k" "get_last_level off = l"
    using b(1) d assms(1,2) by (simp_all only: off_def level_block) simp_all
  show "in_volume off" using b by (simp add: off_def in_volume_def VOLUME_SIZE_def)
  show "aligned off" by (simp add: off_def aligned_def)
qed

text \<open>
  The next block of the volume: the last index advances, and a higher index changes only when
  all lower ones wrap around. In particular equal third-level indices imply equal
  second-level ones, the fact the sharing in \<^verbatim>\<open>write_metadata\<close> rests on.
\<close>

lemma succ_div_mod:
  assumes "1 < (n::int)"
  shows "(b + 1) div n = b div n \<and> (b + 1) mod n = b mod n + 1 \<or> (b + 1) div n = b div n + 1"
proof (cases "b mod n + 1 = n")
  case True
  moreover have "n * (b div n) + b mod n = b" by (rule mult_div_mod_eq)
  ultimately have "b + 1 = n * (b div n) + n" by linarith
  then have "b + 1 = n * (b div n + 1)" by (simp add: algebra_simps)
  with assms show ?thesis by simp
next
  case False
  then have r: "0 \<le> b mod n + 1" "b mod n + 1 < n"
    using assms pos_mod_bound [of n b] pos_mod_sign [of n b] by linarith+
  have "b + 1 = n * (b div n) + (b mod n + 1)"
    using mult_div_mod_eq [of n b] by simp
  with r show ?thesis
    using int_div_pos_eq [of "b + 1" n "b div n" "b mod n + 1"]
      int_mod_pos_eq [of "b + 1" n "b div n" "b mod n + 1"] by blast
qed

lemma next_block_levels:
  assumes "in_volume off" and "aligned off" and "in_volume (off + 4096)"
  shows "get_third_level off = get_third_level (off + 4096) \<Longrightarrow>
           get_second_level off = get_second_level (off + 4096) \<and>
           get_last_level (off + 4096) = get_last_level off + 1"
    and "get_second_level off \<noteq> get_second_level (off + 4096) \<Longrightarrow>
           get_third_level off \<noteq> get_third_level (off + 4096)"
proof -
  obtain b where b: "off = 4096 * b" "0 \<le> b" "b < 67108864"
    using aligned_block [OF assms(1,2)] .
  have off': "off + 4096 = 4096 * (b + 1)" using b(1) by simp
  have lv: "get_second_level off = b div 256 div 512 mod 512"
    "get_third_level off = b div 256 mod 512" "get_last_level off = b mod 256"
    "get_second_level (off + 4096) = (b + 1) div 256 div 512 mod 512"
    "get_third_level (off + 4096) = (b + 1) div 256 mod 512"
    "get_last_level (off + 4096) = (b + 1) mod 256"
    unfolding off' using b by (simp_all only: level_block)
  have carry: "(b + 1) div 256 = b div 256 \<and> (b + 1) mod 256 = b mod 256 + 1 \<or>
      (b + 1) div 256 = b div 256 + 1" by (rule succ_div_mod) simp
  define q where "q = b div 256"
  have wrap: "q mod 512 \<noteq> (q + 1) mod 512" for q :: int
    using mod_eq_dvd_iff [of q 512 "q + 1"] by simp
  show *: "get_second_level off = get_second_level (off + 4096) \<and>
           get_last_level (off + 4096) = get_last_level off + 1"
    if "get_third_level off = get_third_level (off + 4096)"
    using carry that wrap [of q] unfolding lv q_def by metis
  then show "get_third_level off \<noteq> get_third_level (off + 4096)"
    if "get_second_level off \<noteq> get_second_level (off + 4096)"
    using that by blast
qed

end
