(* ===== verification/Storage.thy ===== *)
theory Storage
  imports Block_Codec
begin

text \<open>
  The volume (\<^verbatim>\<open>storage.cpp\<close>, the implementation the server links): a copy-on-write tree of
  metadata blocks in one file. This theory holds the state and the operations; the theories
  that import it prove what they do.

  The file statics are the fields of \<open>storage\<close>. The file itself is a sequence of 4096-byte
  blocks: every \<^verbatim>\<open>pread\<close> and \<^verbatim>\<open>pwrite\<close> of the source is for one whole block. \<open>disk\<close> is what
  reads return; \<open>durable\<close> and \<open>unsynced\<close> record what has reached the medium at the last
  \<^verbatim>\<open>fdatasync\<close> and which blocks were written since, so that crashes can be described.
  \<open>first_block\<close> is the struct of that name, kept as its bytes.

  A result \<open>None\<close> means the call does not return normally: the process exits because a system
  call failed (a negative block number), a null pointer is dereferenced, a 32-bit counter
  overflows, or an uninitialised buffer would be read. The system calls succeed otherwise.
\<close>

section \<open>State\<close>

record uncommitted_write =
  to_free :: "int list"
  new_metadata_offset :: "int list"

text \<open>
  \<^verbatim>\<open>uncommitted_writes[k]\<close> on a missing key inserts a null pointer, which no later operation
  can tell from a missing key; both are \<open>None\<close> here.
\<close>

record storage =
  disk :: "int \<Rightarrow> block"
  file_blocks :: int
  durable :: "int \<Rightarrow> block"
  durable_blocks :: int
  unsynced :: "(int \<times> block) list"
  first_block :: block
  uncommitted_writes :: "int \<rightharpoonup> uncommitted_write"
  pending_blocks :: "int \<rightharpoonup> int"
  free_blocks :: "int list"
  num_total_blocks :: int

definition last_committed :: "storage \<Rightarrow> int" where
  "last_committed s = get_i64 (first_block s) 0"

definition first_level_block :: "storage \<Rightarrow> int \<Rightarrow> int" where
  "first_level_block s i = get_i64 (first_block s) (1 + nat i)"

definition set_last_committed :: "int \<Rightarrow> storage \<Rightarrow> storage" where
  "set_last_committed v s = s\<lparr>first_block := put_i64 0 v (first_block s)\<rparr>"

definition set_first_level_block :: "int \<Rightarrow> int \<Rightarrow> storage \<Rightarrow> storage" where
  "set_first_level_block i v s = s\<lparr>first_block := put_i64 (1 + nat i) v (first_block s)\<rparr>"

text \<open>
  A process that has just started, on a file of \<open>n\<close> blocks. A write past the end leaves a hole
  that reads as zeros, so that is what \<open>disk\<close> holds there.
\<close>

definition new_process :: "(int \<Rightarrow> block) \<Rightarrow> int \<Rightarrow> storage" where
  "new_process blocks n =
     \<lparr>disk = (\<lambda>i. if 0 \<le> i \<and> i < n then blocks i else zero_block), file_blocks = n,
      durable = (\<lambda>i. if 0 \<le> i \<and> i < n then blocks i else zero_block), durable_blocks = n,
      unsynced = [], first_block = zero_block, uncommitted_writes = Map.empty, pending_blocks = Map.empty,
      free_blocks = [], num_total_blocks = 0\<rparr>"

section \<open>Blocks of the file\<close>

definition write_block :: "block \<Rightarrow> int \<Rightarrow> storage \<Rightarrow> storage option" where
  "write_block buf n s =
     (if n < 0 then None
      else Some (s\<lparr>disk := (disk s)(n := buf), file_blocks := max (file_blocks s) (n + 1),
                   unsynced := unsynced s @ [(n, buf)]\<rparr>))"

text \<open>Past the end of the file \<^verbatim>\<open>pread\<close> returns 0 and leaves the buffer \<open>buf\<close> as it was.\<close>

definition read_block :: "storage \<Rightarrow> block \<Rightarrow> int \<Rightarrow> block option" where
  "read_block s buf n =
     (if n < 0 then None else if n < file_blocks s then Some (disk s n) else Some buf)"

text \<open>The same call with an uninitialised buffer.\<close>

definition read_block_fresh :: "storage \<Rightarrow> int \<Rightarrow> block option" where
  "read_block_fresh s n = (if 0 \<le> n \<and> n < file_blocks s then Some (disk s n) else None)"

definition fdatasync :: "storage \<Rightarrow> storage" where
  "fdatasync s = s\<lparr>durable := disk s, durable_blocks := file_blocks s, unsynced := []\<rparr>"

definition get_free_block_num :: "storage \<Rightarrow> (int \<times> storage) option" where
  "get_free_block_num s =
     (case free_blocks s of
        [] \<Rightarrow> if num_total_blocks s + 1 < 2 ^ 31
              then Some (num_total_blocks s + 1, s\<lparr>num_total_blocks := num_total_blocks s + 1\<rparr>)
              else None
      | num # rest \<Rightarrow> Some (num, s\<lparr>free_blocks := rest\<rparr>))"

section \<open>Reading\<close>

definition read_aligned :: "storage \<Rightarrow> int \<Rightarrow> block option" where
  "read_aligned s volume_offset =
     (case pending_blocks s volume_offset of
        Some n \<Rightarrow> read_block_fresh s n
      | None \<Rightarrow>
          let block_num = first_level_block s (get_first_level volume_offset) in
          if block_num = 0 then Some zero_block
          else do {
            b \<leftarrow> read_block_fresh s block_num;
            let block_num = indirect_block b (get_second_level volume_offset);
            if block_num = 0 then Some zero_block
            else do {
              b \<leftarrow> read_block s b block_num;
              let block_num = indirect_block b (get_third_level volume_offset);
              if block_num = 0 then Some zero_block
              else do {
                b \<leftarrow> read_block s b block_num;
                let block_num = entry_file_block_num b (get_last_level volume_offset);
                if block_num = 0 then Some zero_block else read_block_fresh s block_num }}})"

definition storage_read :: "storage \<Rightarrow> int \<Rightarrow> block option" where
  "storage_read s volume_offset =
     (let remainder = volume_offset smod 4096 in
      if remainder < 0 then None
      else if remainder \<noteq> 0 then
        (let offset = volume_offset - remainder in do {
           buf1 \<leftarrow> read_aligned s offset;
           buf2 \<leftarrow> read_aligned s (offset + 4096);
           Some (drop (nat remainder) buf1 @ take (nat remainder) buf2) })
      else read_aligned s volume_offset)"

section \<open>Writing metadata\<close>

text \<open>
  The existing metadata on the path of one block of the volume: the three metadata blocks
  (zero where there is none) and the four old block numbers.
\<close>

type_synonym path_blocks = "block \<times> block \<times> block"
type_synonym path_nums = "int \<times> int \<times> int \<times> int"

definition read_path :: "storage \<Rightarrow> int \<Rightarrow> int \<Rightarrow> (path_blocks \<times> path_nums) option" where
  "read_path s root v_offset =
     (if root = 0 then Some ((zero_block, zero_block, zero_block), (0, 0, 0, 0))
      else do {
        b0 \<leftarrow> read_block s zero_block root;
        let n1 = indirect_block b0 (get_second_level v_offset);
        if n1 = 0 then Some ((b0, zero_block, zero_block), (root, 0, 0, 0))
        else do {
          b1 \<leftarrow> read_block s zero_block n1;
          let n2 = indirect_block b1 (get_third_level v_offset);
          if n2 = 0 then Some ((b0, b1, zero_block), (root, n1, 0, 0))
          else do {
            b2 \<leftarrow> read_block s zero_block n2;
            Some ((b0, b1, b2),
                  (root, n1, n2, entry_file_block_num b2 (get_last_level v_offset))) }}})"

text \<open>The tree a write builds on: that of the previous write if it is still uncommitted.\<close>

definition base_root :: "storage \<Rightarrow> int \<Rightarrow> nat \<Rightarrow> int \<Rightarrow> int" where
  "base_root s sequence_number i v_offset =
     (case uncommitted_writes s (sequence_number - 1) of
        Some uw \<Rightarrow> new_metadata_offset uw ! i
      | None \<Rightarrow> first_level_block s (get_first_level v_offset))"

definition free_pair :: "int \<Rightarrow> int \<Rightarrow> int list" where
  "free_pair n0 n1 = (if n0 \<noteq> 0 then [n0] else []) @ (if n1 \<noteq> 0 \<and> n1 \<noteq> n0 then [n1] else [])"

fun to_free_list :: "path_nums \<Rightarrow> path_nums \<Rightarrow> int list" where
  "to_free_list (a0, a1, a2, a3) (b0, b1, b2, b3) =
     free_pair a0 b0 @ free_pair a1 b1 @ free_pair a2 b2 @ free_pair a3 b3"

text \<open>
  New block numbers of one level for the two paths. An aligned write has one path only; where
  its index differs from the zero initial value of \<^verbatim>\<open>offsets[1]\<close>, \<^verbatim>\<open>new_block_nums[1][j]\<close> keeps
  the indeterminate value \<open>junk\<close> of the uninitialised array.
\<close>

definition new_level :: "int \<Rightarrow> int \<Rightarrow> int \<Rightarrow> int \<Rightarrow> storage \<Rightarrow> ((int \<times> int) \<times> storage) option" where
  "new_level remainder o0 o1 junk s =
     (if o0 = o1 then do { (n, s) \<leftarrow> get_free_block_num s; Some ((n, n), s) }
      else if remainder \<noteq> 0 then do {
        (n0, s) \<leftarrow> get_free_block_num s;
        (n1, s) \<leftarrow> get_free_block_num s;
        Some ((n0, n1), s) }
      else do { (n0, s) \<leftarrow> get_free_block_num s; Some ((n0, junk), s) })"

definition set_entry :: "int \<Rightarrow> int \<Rightarrow> int \<Rightarrow> block \<Rightarrow> block" where
  "set_entry l file_block_num sequence_number b =
     set_entry_last_updated l sequence_number (set_entry_file_block_num l file_block_num b)"

definition write_level :: "int \<Rightarrow> int \<Rightarrow> block \<Rightarrow> block \<Rightarrow> int \<times> int \<Rightarrow> storage \<Rightarrow> storage option" where
  "write_level o0 o1 b0 b1 n s = do {
     s \<leftarrow> write_block b0 (fst n) s;
     if o0 \<noteq> o1 then write_block b1 (snd n) s else Some s }"

definition write_metadata ::
  "(nat \<Rightarrow> int) \<Rightarrow> int \<Rightarrow> int \<Rightarrow> int \<Rightarrow> int \<Rightarrow> storage \<Rightarrow> (uncommitted_write \<times> storage) option" where
  "write_metadata junk sequence_number file_offset0 file_offset1 volume_offset s = (
     let remainder = volume_offset smod 4096;
         v0 = volume_offset - remainder;
         v1 = volume_offset - remainder + 4096;
         two = (remainder \<noteq> 0);
         o00 = get_first_level v0; o01 = get_second_level v0;
         o02 = get_third_level v0; o03 = get_last_level v0;
         o10 = (if two then get_first_level v1 else 0);
         o11 = (if two then get_second_level v1 else 0);
         o12 = (if two then get_third_level v1 else 0);
         o13 = (if two then get_last_level v1 else 0)
     in do {
       ((b00, b01, b02), old0) \<leftarrow> read_path s (base_root s sequence_number 0 v0) v0;
       ((b10, b11, b12), old1) \<leftarrow>
         (if two then read_path s (base_root s sequence_number 1 v1) v1
          else Some ((zero_block, zero_block, zero_block), (0, 0, 0, 0)));
       (n0, s) \<leftarrow> new_level remainder o00 o10 (junk 0) s;
       (n1, s) \<leftarrow> new_level remainder o01 o11 (junk 1) s;
       (n2, s) \<leftarrow> new_level remainder o02 o12 (junk 2) s;
       let b02 = set_entry o03 file_offset0 sequence_number b02;
       let (b02, b12) =
         (if two then
            if o02 = o12 then (set_entry o13 file_offset1 sequence_number b02, b12)
            else (b02, set_entry o13 file_offset1 sequence_number b12)
          else (b02, b12));
       let b01 = set_indirect_block o02 (fst n2) b01;
       let (b01, b11) =
         (if two then
            if o01 = o11 then (set_indirect_block o12 (snd n2) b01, b11)
            else (b01, set_indirect_block o12 (snd n2) b11)
          else (b01, b11));
       let b00 = set_indirect_block o01 (fst n1) b00;
       let (b00, b10) =
         (if two then
            if o00 = o10 then (set_indirect_block o11 (snd n1) b00, b10)
            else (b00, set_indirect_block o11 (snd n1) b10)
          else (b00, b10));
       s \<leftarrow> write_level o00 o10 b00 b10 n0 s;
       s \<leftarrow> write_level o01 o11 b01 b11 n1 s;
       s \<leftarrow> write_level o02 o12 b02 b12 n2 s;
       Some (\<lparr>to_free = to_free_list old0 old1, new_metadata_offset = [fst n0, snd n0]\<rparr>, s) })"

section \<open>Writing and committing\<close>

text \<open>\<open>buf\<close> points to at least one block of readable bytes.\<close>

definition storage_write ::
  "(nat \<Rightarrow> int) \<Rightarrow> block \<Rightarrow> int \<Rightarrow> int \<Rightarrow> storage \<Rightarrow> storage option" where
  "storage_write junk buf volume_offset sequence_number s = (
     let remainder = volume_offset smod 4096 in
     if remainder < 0 then None
     else do {
       (file_offset0, file_offset1, s) \<leftarrow>
         (if remainder \<noteq> 0 then
            (let offset = volume_offset - remainder; r = nat remainder in do {
               (block_num, s) \<leftarrow> get_free_block_num s;
               buf1 \<leftarrow> storage_read s offset;
               let buf1 = take r buf1 @ take (BLOCK_SIZE - r) buf;
               s \<leftarrow> write_block buf1 block_num s;
               let file_offset0 = block_num;
               let s = s\<lparr>pending_blocks := (pending_blocks s)(offset \<mapsto> block_num)\<rparr>;
               let offset = offset + 4096;
               (block_num, s) \<leftarrow> get_free_block_num s;
               buf1 \<leftarrow> storage_read s offset;
               let buf1 = take r (drop (BLOCK_SIZE - r) buf) @ drop r buf1;
               s \<leftarrow> write_block buf1 block_num s;
               let s = s\<lparr>pending_blocks := (pending_blocks s)(offset \<mapsto> block_num)\<rparr>;
               Some (file_offset0, block_num, s) })
          else do {
            (block_num, s) \<leftarrow> get_free_block_num s;
            s \<leftarrow> write_block (take BLOCK_SIZE buf) block_num s;
            let s = s\<lparr>pending_blocks := (pending_blocks s)(volume_offset \<mapsto> block_num)\<rparr>;
            Some (block_num, - 1, s) });
       (uw, s) \<leftarrow> write_metadata junk sequence_number file_offset0 file_offset1 volume_offset s;
       Some (s\<lparr>uncommitted_writes := (uncommitted_writes s)(sequence_number \<mapsto> uw)\<rparr>) })"

text \<open>
  \<^verbatim>\<open>commit\<close> in its three stages: the change of the tables in memory, the two synchronised writes
  of the file, and the return of the old blocks to the free list.
\<close>

definition commit_tables :: "int \<Rightarrow> int \<Rightarrow> storage \<Rightarrow> (uncommitted_write \<times> storage) option" where
  "commit_tables sequence_number volume_offset s =
     (case uncommitted_writes s sequence_number of
        None \<Rightarrow> None
      | Some uw \<Rightarrow>
          let s = s\<lparr>uncommitted_writes := (uncommitted_writes s)(sequence_number := None)\<rparr>;
              remainder = volume_offset smod 4096;
              offset = volume_offset - remainder;
              root0 = new_metadata_offset uw ! 0;
              root1 = new_metadata_offset uw ! 1;
              s = set_first_level_block (get_first_level offset) root0 s;
              s = s\<lparr>pending_blocks := (pending_blocks s)(offset := None)\<rparr>;
              s = (if root1 \<noteq> 0 \<and> root0 \<noteq> root1 then
                     (let offset = offset + 4096;
                          s = set_first_level_block (get_first_level offset) root1 s
                      in s\<lparr>pending_blocks := (pending_blocks s)(offset := None)\<rparr>)
                   else s)
          in Some (uw, set_last_committed sequence_number s))"

definition commit_write :: "storage \<Rightarrow> storage option" where
  "commit_write s = (let s = fdatasync s in write_block (first_block s) 0 s)"

definition storage_commit :: "int \<Rightarrow> int \<Rightarrow> storage \<Rightarrow> storage option" where
  "storage_commit sequence_number volume_offset s = do {
     (uw, s) \<leftarrow> commit_tables sequence_number volume_offset s;
     s \<leftarrow> commit_write s;
     let s = fdatasync s;
     Some (s\<lparr>free_blocks := free_blocks s @ to_free uw\<rparr>) }"

definition get_sequence_number :: "storage \<Rightarrow> int" where
  "get_sequence_number s = last_committed s"

section \<open>Reading an uncommitted write back\<close>

definition read_through :: "storage \<Rightarrow> int \<Rightarrow> int \<Rightarrow> block option" where
  "read_through s root offset = do {
     mdb \<leftarrow> read_block_fresh s root;
     mdb \<leftarrow> read_block s mdb (indirect_block mdb (get_second_level offset));
     mdb \<leftarrow> read_block s mdb (indirect_block mdb (get_third_level offset));
     read_block_fresh s (entry_file_block_num mdb (get_last_level offset)) }"

text \<open>\<open>Some None\<close> is the return value \<^verbatim>\<open>false\<close>, \<open>Some (Some buf)\<close> is \<^verbatim>\<open>true\<close> with the buffer.\<close>

definition read_sequence_number :: "storage \<Rightarrow> int \<Rightarrow> int \<Rightarrow> block option option" where
  "read_sequence_number s seq_num volume_offset =
     (case uncommitted_writes s seq_num of
        None \<Rightarrow> Some None
      | Some uw \<Rightarrow>
          let remainder = volume_offset smod 4096 in
          if remainder < 0 then None
          else if remainder \<noteq> 0 then
            (let offset = volume_offset - remainder in do {
               buf1 \<leftarrow> read_through s (new_metadata_offset uw ! 0) offset;
               buf2 \<leftarrow> read_through s (new_metadata_offset uw ! 1) (offset + 4096);
               Some (Some (drop (nat remainder) buf1 @ take (nat remainder) buf2)) })
          else do {
            buf \<leftarrow> read_through s (new_metadata_offset uw ! 0) volume_offset;
            Some (Some buf) })"

section \<open>Walking the tree\<close>

text \<open>The nested loops of the source: results are collected in the order of the walk.\<close>

fun collect :: "('a \<Rightarrow> 'b list option) \<Rightarrow> 'a list \<Rightarrow> 'b list option" where
  "collect f [] = Some []"
| "collect f (x # xs) = do { ys \<leftarrow> f x; zs \<leftarrow> collect f xs; Some (ys @ zs) }"

definition get_modified_offsets :: "storage \<Rightarrow> int \<Rightarrow> (int \<times> int) list option" where
  "get_modified_offsets s seq_num =
     collect (\<lambda>i.
       let first_block_num = first_level_block s i in
       if first_block_num \<noteq> 0 then do {
         first \<leftarrow> read_block_fresh s first_block_num;
         collect (\<lambda>j.
           let second_block_num = indirect_block first j in
           if second_block_num \<noteq> 0 then do {
             second \<leftarrow> read_block_fresh s second_block_num;
             collect (\<lambda>k.
               let third_block_num = indirect_block second k in
               if third_block_num \<noteq> 0 then do {
                 third \<leftarrow> read_block_fresh s third_block_num;
                 collect (\<lambda>l.
                   let volume_offset = to_int32 (4096 * (l + NUM_ENTRIES * (k + NUM_INDIRECT * (j + NUM_INDIRECT * i))));
                       data_seq_num = entry_last_updated third l
                   in Some (if data_seq_num > seq_num then [(volume_offset, data_seq_num)] else []))
                   [0..NUM_ENTRIES - 1] }
               else Some []) [0..NUM_INDIRECT - 1] }
           else Some []) [0..NUM_INDIRECT - 1] }
       else Some []) [0..NUM_FIRST_LEVEL - 1]"

definition used_blocks :: "storage \<Rightarrow> int list option" where
  "used_blocks s =
     collect (\<lambda>i.
       let first_block_num = first_level_block s i in
       if first_block_num \<noteq> 0 then do {
         first \<leftarrow> read_block_fresh s first_block_num;
         rest \<leftarrow> collect (\<lambda>j.
           let second_block_num = indirect_block first j in
           if second_block_num \<noteq> 0 then do {
             second \<leftarrow> read_block_fresh s second_block_num;
             rest \<leftarrow> collect (\<lambda>k.
               let third_block_num = indirect_block second k in
               if third_block_num \<noteq> 0 then do {
                 third \<leftarrow> read_block_fresh s third_block_num;
                 rest \<leftarrow> collect (\<lambda>l.
                   let data_block_num = entry_file_block_num third l
                   in Some (if data_block_num \<noteq> 0 then [data_block_num] else []))
                   [0..NUM_ENTRIES - 1];
                 Some (third_block_num # rest) }
               else Some []) [0..NUM_INDIRECT - 1];
             Some (second_block_num # rest) }
           else Some []) [0..NUM_INDIRECT - 1];
         Some (first_block_num # rest) }
       else Some []) [0..NUM_FIRST_LEVEL - 1]"

text \<open>MD5 is library code: the digest function is a parameter.\<close>

definition block_digests :: "(block \<Rightarrow> byte list) \<Rightarrow> storage \<Rightarrow> byte list option" where
  "block_digests md5 s =
     collect (\<lambda>i.
       let first_block_num = first_level_block s i in
       if first_block_num \<noteq> 0 then do {
         first \<leftarrow> read_block_fresh s first_block_num;
         collect (\<lambda>j.
           let second_block_num = indirect_block first j in
           if second_block_num \<noteq> 0 then do {
             second \<leftarrow> read_block_fresh s second_block_num;
             collect (\<lambda>k.
               let third_block_num = indirect_block second k in
               if third_block_num \<noteq> 0 then do {
                 third \<leftarrow> read_block_fresh s third_block_num;
                 collect (\<lambda>l.
                   let data_block_num = entry_file_block_num third l in
                   if data_block_num \<noteq> 0 then do {
                     data \<leftarrow> read_block_fresh s data_block_num;
                     Some (md5 data) }
                   else Some []) [0..NUM_ENTRIES - 1] }
               else Some []) [0..NUM_INDIRECT - 1] }
           else Some []) [0..NUM_INDIRECT - 1] }
       else Some []) [0..NUM_FIRST_LEVEL - 1]"

definition hex_digit :: "nat \<Rightarrow> char" where
  "hex_digit d = (if d < 10 then char_of (48 + d) else char_of (87 + d))"

text \<open>\<^verbatim>\<open>ss << std::hex << (int)b\<close>: no leading zero.\<close>

definition byte_to_hex :: "byte \<Rightarrow> string" where
  "byte_to_hex b = (if unat b < 16 then [hex_digit (unat b)]
                    else [hex_digit (unat b div 16), hex_digit (unat b mod 16)])"

definition storage_checksum :: "(byte list \<Rightarrow> byte list) \<Rightarrow> storage \<Rightarrow> string option" where
  "storage_checksum md5 s = do {
     results \<leftarrow> block_digests md5 s;
     Some (concat (map byte_to_hex (md5 results))) }"

section \<open>Opening and closing\<close>

text \<open>The loop that turns the sorted list of used blocks into the free list.\<close>

function free_scan :: "int list \<Rightarrow> int \<Rightarrow> int \<Rightarrow> int list" where
  "free_scan used block_num num_total =
     (if block_num < num_total then
        (if used \<noteq> [] \<and> block_num = hd used then free_scan (tl used) (block_num + 1) num_total
         else block_num # free_scan used (block_num + 1) num_total)
      else [])"
  by pat_completeness auto
termination
  by (relation "measure (\<lambda>(used, b, n). nat (n - b))") auto

declare free_scan.simps [simp del]

text \<open>With a file of \<open>n\<close> whole blocks \<^verbatim>\<open>(res + 1) / BLOCK_SIZE\<close> is \<open>n\<close>.\<close>

definition open_volume :: "storage \<Rightarrow> storage option" where
  "open_volume s = do {
     let res = file_blocks s * 4096;
     let s = s\<lparr>num_total_blocks := to_int32 ((res + 1) div 4096)\<rparr>;
     s \<leftarrow> (if num_total_blocks s = 0 then do {
            s \<leftarrow> write_block zero_block 0 (s\<lparr>first_block := zero_block\<rparr>);
            Some (s\<lparr>num_total_blocks := 1\<rparr>) }
          else do { b \<leftarrow> read_block s (first_block s) 0; Some (s\<lparr>first_block := b\<rparr>) });
     used \<leftarrow> used_blocks s;
     Some (s\<lparr>free_blocks := free_blocks s @ free_scan (sort used) 1 (num_total_blocks s)\<rparr>) }"

definition init_volume :: "storage \<Rightarrow> storage option" where
  "init_volume s = do {
     s \<leftarrow> write_block zero_block 0 (s\<lparr>first_block := zero_block\<rparr>);
     Some (s\<lparr>num_total_blocks := 1, free_blocks := free_blocks s @ [1..file_blocks s - 1]\<rparr>) }"

definition close_volume :: "storage \<Rightarrow> storage" where
  "close_volume s = (fdatasync s)\<lparr>num_total_blocks := 0, uncommitted_writes := Map.empty,
     pending_blocks := Map.empty, free_blocks := []\<rparr>"

end
