(* ===== verification/Nonatomic.thy ===== *)
theory Nonatomic
  imports Storage
begin

text \<open>
  The other implementation of \<^verbatim>\<open>storage.hpp\<close> (\<^verbatim>\<open>storage-nonatomic.cpp\<close>, chosen by a build option):
  a flat table of metadata entries behind block 0, updated in place. This theory holds the state
  and the operations. Names carry the prefix \<open>na_\<close>; the loop over the free list and the printing
  of digests are the same code as in \<^verbatim>\<open>storage.cpp\<close> and shared with it.

  The file is a function from positions to bytes with a size, and every access is a \<^verbatim>\<open>pread\<close> or a
  \<^verbatim>\<open>pwrite\<close> of some bytes: entries are 16 bytes wide, the sequence number 8, blocks 4096. As in
  the other theory \<open>None\<close> is a call that does not return normally (a failed system call, a null
  pointer, an overflow, an uninitialised buffer that is read). \<^verbatim>\<open>fdatasync\<close> changes nothing that
  a running process can see; a commit is split where the process may stop.
\<close>

section \<open>The file\<close>

definition fetch :: "(int \<Rightarrow> byte) \<Rightarrow> int \<Rightarrow> nat \<Rightarrow> byte list" where
  "fetch f off n = map (\<lambda>i. f (off + int i)) [0..<n]"

definition store :: "byte list \<Rightarrow> int \<Rightarrow> (int \<Rightarrow> byte) \<Rightarrow> int \<Rightarrow> byte" where
  "store bs off f = (\<lambda>x. if off \<le> x \<and> x < off + int (length bs) then bs ! nat (x - off) else f x)"

section \<open>State\<close>

definition METADATA_SIZE :: int where
  "METADATA_SIZE = NUM_BLOCKS * 16"

record na_entry =
  na_last_updated :: int
  na_file_block_num :: int

record na_uncommitted_write =
  na_to_free :: "int list"
  na_new_file_offset :: "int list"

record na_storage =
  na_file :: "int \<Rightarrow> byte"
  na_size :: int
  na_uncommitted_writes :: "int \<rightharpoonup> na_uncommitted_write"
  na_pending_blocks :: "int \<rightharpoonup> int"
  na_free_blocks :: "int list"
  na_num_total_blocks :: int

text \<open>A process that has just opened a file of \<open>n\<close> bytes; past its end a file reads as zeros once it grows.\<close>

definition na_new_process :: "(int \<Rightarrow> byte) \<Rightarrow> int \<Rightarrow> na_storage" where
  "na_new_process f n = \<lparr>na_file = (\<lambda>x. if 0 \<le> x \<and> x < n then f x else 0), na_size = n,
     na_uncommitted_writes = Map.empty, na_pending_blocks = Map.empty, na_free_blocks = [], na_num_total_blocks = 0\<rparr>"

section \<open>Access to the file\<close>

definition na_pwrite :: "byte list \<Rightarrow> int \<Rightarrow> na_storage \<Rightarrow> na_storage option" where
  "na_pwrite bs off s =
     (if off < 0 then None
      else Some (s\<lparr>na_file := store bs off (na_file s), na_size := max (na_size s) (off + int (length bs))\<rparr>))"

text \<open>
  \<^verbatim>\<open>pread\<close> of \<open>n\<close> bytes. A read that the end of the file cuts short leaves the rest of the buffer
  as it was: \<open>None\<close> if that was never written.
\<close>

definition na_pread :: "na_storage \<Rightarrow> byte list option \<Rightarrow> int \<Rightarrow> nat \<Rightarrow> byte list option" where
  "na_pread s buf off n =
     (if off < 0 then None
      else if off + int n \<le> na_size s then Some (fetch (na_file s) off n)
      else (let k = nat (na_size s - off)
            in map_option (\<lambda>b. fetch (na_file s) off k @ drop k b) buf))"

definition na_write_block :: "block \<Rightarrow> int \<Rightarrow> na_storage \<Rightarrow> na_storage option" where
  "na_write_block buf file_block_num s = na_pwrite (take BLOCK_SIZE buf) (file_block_num * 4096) s"

definition na_read_block :: "na_storage \<Rightarrow> int \<Rightarrow> block option" where
  "na_read_block s file_block_num = na_pread s None (file_block_num * 4096) BLOCK_SIZE"

definition entry_bytes :: "na_entry \<Rightarrow> byte list" where
  "entry_bytes e = le_bytes 8 (na_last_updated e) @ le_bytes 8 (na_file_block_num e)"

definition entry_of_bytes :: "byte list \<Rightarrow> na_entry" where
  "entry_of_bytes bs = \<lparr>na_last_updated = to_int64 (le_int (take 8 bs)), na_file_block_num = to_int64 (le_int (drop 8 bs))\<rparr>"

text \<open>The position of an entry, narrowed to \<^verbatim>\<open>int\<close>.\<close>

definition metadata_offset :: "int \<Rightarrow> int" where
  "metadata_offset volume_offset = to_int32 (volume_offset sdiv 4096 * 16 + 4096)"

definition na_write_metadata :: "na_entry \<Rightarrow> int \<Rightarrow> na_storage \<Rightarrow> na_storage option" where
  "na_write_metadata entry volume_offset s = na_pwrite (entry_bytes entry) (metadata_offset volume_offset) s"

text \<open>The second argument is the caller's entry before the call, \<open>None\<close> if it is uninitialised.\<close>

definition na_read_metadata :: "na_storage \<Rightarrow> na_entry option \<Rightarrow> int \<Rightarrow> na_entry option" where
  "na_read_metadata s entry volume_offset =
     map_option entry_of_bytes (na_pread s (map_option entry_bytes entry) (metadata_offset volume_offset) 16)"

definition set_sequence_num :: "int \<Rightarrow> na_storage \<Rightarrow> na_storage option" where
  "set_sequence_num sequence_num s = na_pwrite (le_bytes 8 sequence_num) 0 s"

definition read_sequence_num :: "na_storage \<Rightarrow> int option" where
  "read_sequence_num s = map_option (\<lambda>bs. to_int64 (le_int bs)) (na_pread s None 0 8)"

text \<open>The loop of \<^verbatim>\<open>init_metadata\<close> over its first \<open>n\<close> iterations.\<close>

fun write_zero_blocks :: "nat \<Rightarrow> na_storage \<Rightarrow> na_storage option" where
  "write_zero_blocks 0 s = Some s"
| "write_zero_blocks (Suc n) s = do { s \<leftarrow> write_zero_blocks n s; na_write_block zero_block (int n + 1) s }"

definition init_metadata :: "na_storage \<Rightarrow> na_storage option" where
  "init_metadata s = write_zero_blocks (nat (METADATA_SIZE div 4096)) s"

section \<open>Reading\<close>

definition na_read_aligned :: "na_storage \<Rightarrow> int \<Rightarrow> block option" where
  "na_read_aligned s volume_offset =
     (case na_pending_blocks s volume_offset of
        Some n \<Rightarrow> na_read_block s n
      | None \<Rightarrow> do {
          entry \<leftarrow> na_read_metadata s None volume_offset;
          if na_file_block_num entry \<noteq> 0 then na_read_block s (na_file_block_num entry) else Some zero_block })"

definition na_read :: "na_storage \<Rightarrow> int \<Rightarrow> block option" where
  "na_read s volume_offset =
     (let remainder = volume_offset smod 4096 in
      if remainder < 0 then None
      else if remainder \<noteq> 0 then
        (let offset = volume_offset - remainder in do {
           buf1 \<leftarrow> na_read_aligned s offset;
           buf2 \<leftarrow> na_read_aligned s (offset + 4096);
           Some (drop (nat remainder) buf1 @ take (nat remainder) buf2) })
      else na_read_aligned s volume_offset)"

definition na_get_free_block_num :: "na_storage \<Rightarrow> (int \<times> na_storage) option" where
  "na_get_free_block_num s =
     (case na_free_blocks s of
        [] \<Rightarrow> if na_num_total_blocks s + 1 < 2 ^ 31
              then Some (na_num_total_blocks s + 1, s\<lparr>na_num_total_blocks := na_num_total_blocks s + 1\<rparr>)
              else None
      | num # rest \<Rightarrow> Some (num, s\<lparr>na_free_blocks := rest\<rparr>))"

section \<open>Opening and closing\<close>

text \<open>The scan for used blocks passes the index \<open>i\<close> where \<^verbatim>\<open>read_metadata\<close> expects an offset.\<close>

definition na_used_blocks :: "na_storage \<Rightarrow> int list option" where
  "na_used_blocks s =
     collect (\<lambda>i. do {
       entry \<leftarrow> na_read_metadata s None i;
       Some (if na_file_block_num entry \<noteq> 0 then [na_file_block_num entry] else []) }) [0..NUM_BLOCKS - 1]"

text \<open>The free list starts at block \<open>1 + METADATA_SIZE\<close>, although the table ends at \<open>METADATA_SIZE div 4096\<close>.\<close>

definition na_open_volume :: "na_storage \<Rightarrow> na_storage option" where
  "na_open_volume s = do {
     let res = na_size s;
     let s = s\<lparr>na_num_total_blocks := to_int32 ((res + 1) div 4096)\<rparr>;
     s \<leftarrow> (if na_num_total_blocks s = 0 then do {
            s \<leftarrow> init_metadata s;
            s \<leftarrow> set_sequence_num 0 s;
            Some (s\<lparr>na_num_total_blocks := 1 + METADATA_SIZE div 4096\<rparr>) }
          else Some s);
     used_blocks \<leftarrow> na_used_blocks s;
     Some (s\<lparr>na_free_blocks := na_free_blocks s @ free_scan (sort used_blocks) (1 + METADATA_SIZE) (na_num_total_blocks s)\<rparr>) }"

definition na_init_volume :: "na_storage \<Rightarrow> na_storage option" where
  "na_init_volume s = do {
     s \<leftarrow> init_metadata s;
     s \<leftarrow> set_sequence_num 0 s;
     let s = s\<lparr>na_num_total_blocks := 1 + METADATA_SIZE div 4096\<rparr>;
     let blocks_in_file = na_size s div 4096;
     Some (s\<lparr>na_free_blocks := na_free_blocks s @ [na_num_total_blocks s..blocks_in_file - 1]\<rparr>) }"

definition na_close_volume :: "na_storage \<Rightarrow> na_storage" where
  "na_close_volume s = s\<lparr>na_num_total_blocks := 0, na_uncommitted_writes := Map.empty,
     na_pending_blocks := Map.empty, na_free_blocks := []\<rparr>"

section \<open>Writing\<close>

text \<open>The block a write replaces, if there is one: it is free once the write is committed.\<close>

definition old_block :: "na_entry \<Rightarrow> int list" where
  "old_block entry = (if na_file_block_num entry \<noteq> 0 then [na_file_block_num entry] else [])"

definition na_write :: "block \<Rightarrow> int \<Rightarrow> int \<Rightarrow> na_storage \<Rightarrow> na_storage option" where
  "na_write buf volume_offset sequence_number s =
     (let remainder = volume_offset smod 4096 in
      if remainder < 0 then None
      else do {
        (uw, s) \<leftarrow>
          (if remainder \<noteq> 0 then
             (let offset = volume_offset - remainder; r = nat remainder in do {
                (block_num0, s) \<leftarrow> na_get_free_block_num s;
                entry0 \<leftarrow> na_read_metadata s None offset;
                buf1 \<leftarrow> na_read s offset;
                let buf1 = take r buf1 @ take (BLOCK_SIZE - r) buf;
                s \<leftarrow> na_write_block buf1 block_num0 s;
                let s = s\<lparr>na_pending_blocks := (na_pending_blocks s)(offset \<mapsto> block_num0)\<rparr>;
                let offset = offset + 4096;
                (block_num1, s) \<leftarrow> na_get_free_block_num s;
                entry1 \<leftarrow> na_read_metadata s (Some entry0) offset;
                buf1 \<leftarrow> na_read s offset;
                let buf1 = take r (drop (BLOCK_SIZE - r) buf) @ drop r buf1;
                s \<leftarrow> na_write_block buf1 block_num1 s;
                let s = s\<lparr>na_pending_blocks := (na_pending_blocks s)(offset \<mapsto> block_num1)\<rparr>;
                Some (\<lparr>na_to_free = old_block entry0 @ old_block entry1, na_new_file_offset = [block_num0, block_num1]\<rparr>, s) })
           else do {
             (block_num, s) \<leftarrow> na_get_free_block_num s;
             entry \<leftarrow> na_read_metadata s None volume_offset;
             s \<leftarrow> na_write_block buf block_num s;
             let s = s\<lparr>na_pending_blocks := (na_pending_blocks s)(volume_offset \<mapsto> block_num)\<rparr>;
             Some (\<lparr>na_to_free = old_block entry, na_new_file_offset = [block_num, 0]\<rparr>, s) });
        Some (s\<lparr>na_uncommitted_writes := (na_uncommitted_writes s)(sequence_number \<mapsto> uw)\<rparr>) })"

definition na_read_sequence_number :: "na_storage \<Rightarrow> int \<Rightarrow> int \<Rightarrow> block option option" where
  "na_read_sequence_number s seq_num volume_offset =
     (case na_uncommitted_writes s seq_num of
        None \<Rightarrow> Some None
      | Some uw \<Rightarrow>
          let remainder = volume_offset smod 4096 in
          if remainder < 0 then None
          else if remainder \<noteq> 0 then do {
            buf1 \<leftarrow> na_read_block s (na_new_file_offset uw ! 0);
            buf2 \<leftarrow> na_read_block s (na_new_file_offset uw ! 1);
            Some (Some (drop (nat remainder) buf1 @ take (nat remainder) buf2)) }
          else do {
            buf \<leftarrow> na_read_block s (na_new_file_offset uw ! 0);
            Some (Some buf) })"

section \<open>Committing\<close>

text \<open>
  \<^verbatim>\<open>commit\<close> in its stages: the entry of the first block, the entry of the second block if there
  is one, and the sequence number with the return of the old blocks.
\<close>

definition na_commit_first :: "int \<Rightarrow> int \<Rightarrow> na_storage \<Rightarrow> (na_uncommitted_write \<times> na_storage) option" where
  "na_commit_first sequence_number volume_offset s =
     (case na_uncommitted_writes s sequence_number of
        None \<Rightarrow> None
      | Some uw \<Rightarrow> do {
          let s = s\<lparr>na_uncommitted_writes := (na_uncommitted_writes s)(sequence_number := None)\<rparr>;
          let remainder = volume_offset smod 4096;
          let volume_offset = volume_offset - remainder;
          let s = s\<lparr>na_pending_blocks := (na_pending_blocks s)(volume_offset := None)\<rparr>;
          s \<leftarrow> na_write_metadata
            \<lparr>na_last_updated = sequence_number, na_file_block_num = na_new_file_offset uw ! 0\<rparr> volume_offset s;
          Some (uw, s) })"

definition na_commit_second :: "int \<Rightarrow> int \<Rightarrow> na_uncommitted_write \<Rightarrow> na_storage \<Rightarrow> na_storage option" where
  "na_commit_second sequence_number volume_offset uw s =
     (let remainder = volume_offset smod 4096;
          volume_offset = volume_offset - remainder
      in if na_new_file_offset uw ! 1 \<noteq> 0 \<and> na_new_file_offset uw ! 0 \<noteq> na_new_file_offset uw ! 1
         then (let volume_offset = volume_offset + 4096;
                   s = s\<lparr>na_pending_blocks := (na_pending_blocks s)(volume_offset := None)\<rparr>
               in na_write_metadata
                    \<lparr>na_last_updated = sequence_number, na_file_block_num = na_new_file_offset uw ! 1\<rparr> volume_offset s)
         else Some s)"

definition na_commit :: "int \<Rightarrow> int \<Rightarrow> na_storage \<Rightarrow> na_storage option" where
  "na_commit sequence_number volume_offset s = do {
     (uw, s) \<leftarrow> na_commit_first sequence_number volume_offset s;
     s \<leftarrow> na_commit_second sequence_number volume_offset uw s;
     s \<leftarrow> set_sequence_num sequence_number s;
     Some (s\<lparr>na_free_blocks := na_free_blocks s @ na_to_free uw\<rparr>) }"

definition na_get_sequence_number :: "na_storage \<Rightarrow> int option" where
  "na_get_sequence_number s = read_sequence_num s"

section \<open>Walking the table\<close>

text \<open>The loops of the source keep one entry for all iterations.\<close>

fun scan_entries ::
  "na_storage \<Rightarrow> (int \<Rightarrow> na_entry \<Rightarrow> 'b list option) \<Rightarrow> na_entry option \<Rightarrow> int list \<Rightarrow> 'b list option" where
  "scan_entries s f entry [] = Some []"
| "scan_entries s f entry (i # is) = do {
     entry \<leftarrow> na_read_metadata s entry (i * 4096);
     xs \<leftarrow> f i entry;
     ys \<leftarrow> scan_entries s f (Some entry) is;
     Some (xs @ ys) }"

definition na_get_modified_offsets :: "na_storage \<Rightarrow> int \<Rightarrow> (int \<times> int) list option" where
  "na_get_modified_offsets s seq_num =
     scan_entries s (\<lambda>i entry. Some (if na_last_updated entry > seq_num then [(i * 4096, na_last_updated entry)] else []))
       None [0..NUM_BLOCKS - 1]"

definition na_checksum :: "(byte list \<Rightarrow> byte list) \<Rightarrow> na_storage \<Rightarrow> string option" where
  "na_checksum md5 s = do {
     results \<leftarrow> scan_entries s (\<lambda>i entry.
       if na_file_block_num entry \<noteq> 0 then do { data \<leftarrow> na_read_aligned s (i * 4096); Some (md5 data) } else Some [])
       None [0..NUM_BLOCKS - 1];
     Some (concat (map byte_to_hex (md5 results))) }"

end
