(* ===== verification/Byte_Volume.thy ===== *)
theory Byte_Volume
  imports Block_Codec
begin

text \<open>
  The volume a client sees: an array of bytes with block-sized reads and writes at any position
  (\<open>spec_read\<close>, \<open>spec_write\<close>). Both implementations of \<^verbatim>\<open>storage.hpp\<close> keep the volume as blocks
  and split an access that is not on a block boundary over two of them; this theory shows that
  the splitting is right for any function from block offsets to blocks.
\<close>

section \<open>The abstract volume\<close>

definition spec_read :: "int \<Rightarrow> (int \<Rightarrow> byte) \<Rightarrow> block" where
  "spec_read off vol = map (\<lambda>i. vol (off + int i)) [0..<BLOCK_SIZE]"

definition spec_write :: "int \<Rightarrow> block \<Rightarrow> (int \<Rightarrow> byte) \<Rightarrow> int \<Rightarrow> byte" where
  "spec_write off buf vol x = (if off \<le> x \<and> x < off + 4096 then buf ! nat (x - off) else vol x)"

text \<open>A block-sized access that stays inside the volume.\<close>

definition access_ok :: "int \<Rightarrow> bool" where
  "access_ok off \<longleftrightarrow> 0 \<le> off \<and> off + 4096 \<le> VOLUME_SIZE"

text \<open>The offsets of the blocks of the volume.\<close>

definition cell :: "int \<Rightarrow> bool" where
  "cell v \<longleftrightarrow> in_volume v \<and> aligned v"

lemma length_spec_read [simp]: "length (spec_read off vol) = BLOCK_SIZE"
  by (simp add: spec_read_def)

text \<open>The blocks an access touches.\<close>

definition blocks_of :: "int \<Rightarrow> int set" where
  "blocks_of off = (if off mod 4096 = 0 then {off} else {off - off mod 4096, off - off mod 4096 + 4096})"

section \<open>Block boundaries\<close>

lemma block_start: "in_volume x \<Longrightarrow> in_volume (x - x mod 4096)" "aligned (x - x mod 4096)"
  using zmod_le_nonneg_dividend [of x 4096] pos_mod_sign [of 4096 x]
  by (auto simp: in_volume_def aligned_def mod_simps)

lemma block_start_eq:
  assumes "aligned v"
  shows "x - x mod 4096 = v \<longleftrightarrow> v \<le> x \<and> x < v + 4096"
proof
  assume "x - x mod 4096 = v"
  then show "v \<le> x \<and> x < v + 4096"
    using pos_mod_sign [of 4096 x] pos_mod_bound [of 4096 x] by linarith
next
  assume x: "v \<le> x \<and> x < v + 4096"
  obtain k where k: "v = 4096 * k" using assms by (auto simp: aligned_def mod_eq_0_iff_dvd dvd_def)
  have "x mod 4096 = x - v"
    by (rule int_mod_pos_eq [where q = k]) (use x k in simp_all)
  then show "x - x mod 4096 = v" by simp
qed

lemma next_start:
  assumes "access_ok off" and "off mod 4096 \<noteq> 0"
  shows "in_volume (off - off mod 4096 + 4096)" "in_volume off"
proof -
  have "0 < off mod 4096" using assms(2) pos_mod_sign [of 4096 off] by linarith
  then show "in_volume (off - off mod 4096 + 4096)" "in_volume off"
    using assms(1) zmod_le_nonneg_dividend [of off 4096]
    by (simp_all add: access_ok_def in_volume_def)
qed

lemma blocks_of_cells: "access_ok off \<Longrightarrow> v \<in> blocks_of off \<Longrightarrow> in_volume v \<and> aligned v"
proof -
  assume ok: "access_ok off" and v: "v \<in> blocks_of off"
  have off: "in_volume off" using ok by (auto simp: access_ok_def in_volume_def)
  show ?thesis
    using v block_start [of off] off next_start [OF ok]
    by (auto simp: blocks_of_def aligned_def mod_simps split: if_splits)
qed

section \<open>Volumes made of blocks\<close>

definition bytes_of :: "(int \<Rightarrow> block) \<Rightarrow> int \<Rightarrow> byte" where
  "bytes_of B x = (if in_volume x then B (x - x mod 4096) ! nat (x mod 4096) else 0)"

definition join_blocks :: "(int \<Rightarrow> block) \<Rightarrow> int \<Rightarrow> block" where
  "join_blocks B off =
     (let v = off - off mod 4096; k = nat (off mod 4096) in
      if k = 0 then B v else drop k (B v) @ take k (B (v + 4096)))"

text \<open>The two blocks an unaligned write puts, from the old ones and the buffer.\<close>

definition splice_blocks :: "(int \<Rightarrow> block) \<Rightarrow> int \<Rightarrow> block \<Rightarrow> block \<times> block" where
  "splice_blocks B off buf =
     (let v = off - off mod 4096; k = nat (off mod 4096) in
      (take k (B v) @ take (BLOCK_SIZE - k) buf, take k (drop (BLOCK_SIZE - k) buf) @ drop k (B (v + 4096))))"

definition write_blocks :: "int \<Rightarrow> block \<Rightarrow> (int \<Rightarrow> block) \<Rightarrow> int \<Rightarrow> block" where
  "write_blocks off buf B v =
     (let v0 = off - off mod 4096 in
      if off mod 4096 = 0 then (if v = off then take BLOCK_SIZE buf else B v)
      else if v = v0 + 4096 then snd (splice_blocks B off buf)
      else if v = v0 then fst (splice_blocks B off buf) else B v)"

lemma join_blocks_read:
  assumes ok: "access_ok off" and len: "\<And>v. v \<in> blocks_of off \<Longrightarrow> is_block (B v)"
  shows "join_blocks B off = spec_read off (bytes_of B)"
proof (rule nth_equalityI)
  define v where "v = off - off mod 4096"
  define k where "k = nat (off mod 4096)"
  have k: "k < 4096" "off = v + int k" by (simp_all add: k_def v_def nat_less_iff)
  have k0: "k = 0 \<longleftrightarrow> off mod 4096 = 0" using pos_mod_sign [of 4096 off] unfolding k_def by linarith
  have al: "aligned v" "aligned (v + 4096)" by (simp_all add: v_def aligned_def mod_simps)
  have isb: "length (B v) = 4096" "k \<noteq> 0 \<Longrightarrow> length (B (v + 4096)) = 4096"
    using len k0 by (auto simp: is_block_def blocks_of_def v_def split: if_splits)
  have j: "join_blocks B off = (if k = 0 then B v else drop k (B v) @ take k (B (v + 4096)))"
    by (simp add: join_blocks_def Let_def v_def k_def)
  show l: "length (join_blocks B off) = length (spec_read off (bytes_of B))"
    using k isb unfolding j by simp
  fix i assume "i < length (join_blocks B off)"
  then have i: "i < 4096" using l by simp
  have vol: "in_volume (off + int i)" using ok i by (auto simp: access_ok_def in_volume_def)
  have at: "bytes_of B (off + int i) = B u ! nat (off + int i - u)"
    if "aligned u" "u \<le> off + int i" "off + int i < u + 4096" for u
  proof -
    have "off + int i - (off + int i) mod 4096 = u" using block_start_eq [OF that(1)] that(2,3) by blast
    moreover from this have "(off + int i) mod 4096 = off + int i - u" by simp
    ultimately show ?thesis using vol by (simp add: bytes_of_def)
  qed
  show "join_blocks B off ! i = spec_read off (bytes_of B) ! i"
  proof (cases "k + i < 4096")
    case True
    then have "nat (off + int i - v) = k + i" "i < 4096 - k" using k by simp_all
    then show ?thesis using True at [OF al(1)] k i isb(1) unfolding j by (simp add: spec_read_def nth_append)
  next
    case False
    then have "nat (off + int i - (v + 4096)) = i + k - 4096" "\<not> i < 4096 - k" "k \<noteq> 0" using k i by simp_all
    then show ?thesis
      using False at [OF al(2)] k i isb(1) unfolding j by (simp add: spec_read_def nth_append)
  qed
qed

lemma splice_blocks_nth:
  assumes rem: "off mod 4096 \<noteq> 0" and v0: "v0 = off - off mod 4096" and v1: "v1 = v0 + 4096"
    and len: "BLOCK_SIZE \<le> length buf" and isb: "length (B v0) = 4096" "length (B v1) = 4096"
    and v: "v = x - x mod 4096"
  shows "(if v = v1 then snd (splice_blocks B off buf) else if v = v0 then fst (splice_blocks B off buf)
      else B v) ! nat (x mod 4096) =
    (if off \<le> x \<and> x < off + 4096 then buf ! nat (x - off) else B v ! nat (x mod 4096))"
proof -
  define k where "k = nat (off mod 4096)"
  have k: "0 < off mod 4096" "off mod 4096 < 4096" "int k = off mod 4096" "k < 4096"
    using rem pos_mod_bound [of 4096 off] pos_mod_sign [of 4096 off] unfolding k_def by linarith+
  have off: "off = v0 + int k" using v0 k(3) by simp
  have al: "aligned v0" "aligned v1" by (simp_all add: v0 v1 aligned_def mod_simps)
  have e0: "v = v0 \<longleftrightarrow> v0 \<le> x \<and> x < v0 + 4096" and e1: "v = v1 \<longleftrightarrow> v1 \<le> x \<and> x < v1 + 4096"
    using block_start_eq [OF al(1), of x] block_start_eq [OF al(2), of x] v by simp_all
  have sp: "splice_blocks B off buf = (take k (B v0) @ take (BLOCK_SIZE - k) buf,
       take k (drop (BLOCK_SIZE - k) buf) @ drop k (B v1))"
    by (simp add: splice_blocks_def Let_def v0 v1 k_def)
  define i where "i = nat (x mod 4096)"
  have x: "x = v + int i" "i < 4096" using v by (simp_all add: i_def nat_less_iff)
  consider "v = v0" | "v = v1" | "v \<noteq> v0" "v \<noteq> v1" by blast
  then show ?thesis
  proof cases
    case 1
    then have "x - off = int i - int k" "v \<noteq> v1" using x off v1 by simp_all
    moreover from this have "nat (x - off) = i - k" "off \<le> x \<longleftrightarrow> k \<le> i" "x < off + 4096"
      using x(2) by linarith+
    ultimately show ?thesis
      using 1 x(2) isb len k(4) by (simp add: sp nth_append i_def [symmetric])
  next
    case 2
    then have "x - off = int (4096 - k + i)" using x off v1 k(4) by simp
    moreover from this have "nat (x - off) = 4096 - k + i" "off \<le> x" "x < off + 4096 \<longleftrightarrow> i < k"
      using k(4) by linarith+
    moreover have "length (take k (drop (BLOCK_SIZE - k) buf)) = k" using len k(4) by auto
    then have "(take k (drop (BLOCK_SIZE - k) buf) @ drop k (B v1)) ! i =
        (if i < k then buf ! (4096 - k + i) else B v1 ! i)"
      using isb len k(4) unfolding nth_append by simp
    ultimately show ?thesis using 2 by (simp add: sp i_def [symmetric])
  next
    case 3
    then have "\<not> (off \<le> x \<and> x < off + 4096)" using e0 e1 off v1 k(4) by auto
    then show ?thesis using 3 by auto
  qed
qed

lemma write_blocks_spec:
  assumes ok: "access_ok off" and len: "BLOCK_SIZE \<le> length buf" and b: "\<And>v. v \<in> blocks_of off \<Longrightarrow> is_block (B v)"
    and B': "\<And>v. in_volume v \<Longrightarrow> aligned v \<Longrightarrow> B' v = write_blocks off buf B v"
  shows "bytes_of B' = spec_write off buf (bytes_of B)"
proof
  fix x
  show "bytes_of B' x = spec_write off buf (bytes_of B) x"
  proof (cases "in_volume x")
    case False
    then have "\<not> (off \<le> x \<and> x < off + 4096)" using ok by (auto simp: access_ok_def in_volume_def)
    then show ?thesis using False by (auto simp: bytes_of_def spec_write_def)
  next
    case True
    define v where "v = x - x mod 4096"
    have v: "in_volume v" "aligned v" unfolding v_def by (simp_all add: block_start True)
    have l: "bytes_of B' x = write_blocks off buf B v ! nat (x mod 4096)"
      using True B' [OF v] by (simp add: bytes_of_def v_def)
    have r: "spec_write off buf (bytes_of B) x = (if off \<le> x \<and> x < off + 4096 then buf ! nat (x - off)
        else B v ! nat (x mod 4096))"
      using True by (simp add: spec_write_def bytes_of_def v_def)
    show ?thesis
    proof (cases "off mod 4096 = 0")
      case True
      then have "v = off \<longleftrightarrow> off \<le> x \<and> x < off + 4096"
        using block_start_eq [of off x] by (simp add: v_def aligned_def)
      moreover have "nat (x mod 4096) < 4096" by (simp add: nat_less_iff)
      moreover have "x mod 4096 = x - v" by (simp add: v_def)
      ultimately show ?thesis using True len unfolding l r by (auto simp: write_blocks_def)
    next
      case False
      have bs: "length (B (off - off mod 4096)) = 4096" "length (B (off - off mod 4096 + 4096)) = 4096"
        using b False by (simp_all add: blocks_of_def is_block_def)
      show ?thesis
        unfolding l r using splice_blocks_nth [where B = B, OF False refl refl len bs v_def] False
        by (simp add: write_blocks_def Let_def)
    qed
  qed
qed

end
