(* ===== verification/Nonatomic_Refine.thy ===== *)
theory Nonatomic_Refine
  imports Nonatomic Byte_Volume
begin

text \<open>
  The non-atomic volume as an array of bytes: its invariant, and that writes, reads and commits
  refine the operations on the array, as long as no two uncommitted writes touch the same block.
\<close>

section \<open>Bytes of a file\<close>

lemma length_fetch [simp]: "length (fetch f off n) = n"
  by (simp add: fetch_def)

lemma nth_fetch [simp]: "i < n \<Longrightarrow> fetch f off n ! i = f (off + int i)"
  by (simp add: fetch_def)

lemma fetch_cong: "(\<And>x. off \<le> x \<Longrightarrow> x < off + int n \<Longrightarrow> f x = g x) \<Longrightarrow> fetch f off n = fetch g off n"
  by (simp add: fetch_def)

lemma fetch_store_same: "n = length bs \<Longrightarrow> fetch (store bs off f) off n = bs"
  by (rule nth_equalityI) (simp_all add: store_def)

lemma fetch_store_other: "off + int n \<le> off' \<or> off' + int (length bs) \<le> off \<Longrightarrow> fetch (store bs off' f) off n = fetch f off n"
  by (rule fetch_cong) (auto simp: store_def)

lemma fetch_zero: "(\<And>x. off \<le> x \<Longrightarrow> x < off + int n \<Longrightarrow> f x = 0) \<Longrightarrow> fetch f off n = replicate n 0"
  by (rule nth_equalityI) simp_all

lemma length_entry_bytes [simp]: "length (entry_bytes e) = 16"
  by (simp add: entry_bytes_def)

lemma entry_round_trip:
  assumes "int64_range (na_last_updated e)" and "int64_range (na_file_block_num e)"
  shows "entry_of_bytes (entry_bytes e) = e"
  using assms by (simp add: entry_of_bytes_def entry_bytes_def int64_range_def to_int64_le_bytes)

lemma entry_of_zeros: "entry_of_bytes (replicate 16 0) = \<lparr>na_last_updated = 0, na_file_block_num = 0\<rparr>"
  by (simp add: entry_of_bytes_def to_int64_def)

section \<open>The table\<close>

abbreviation table_blocks :: int where
  "table_blocks \<equiv> 262144"

lemma METADATA_SIZE_eq: "METADATA_SIZE = 1073741824" "METADATA_SIZE div 4096 = table_blocks"
  by (simp_all add: METADATA_SIZE_def)

lemma metadata_offset_in:
  assumes "in_volume v"
  shows "metadata_offset v = v div 4096 * 16 + 4096" "4096 \<le> metadata_offset v"
    "metadata_offset v + 16 \<le> 4096 * (table_blocks + 1)"
proof -
  have "0 \<le> v div 4096" "v div 4096 < 67108864"
    using assms unfolding in_volume_def VOLUME_SIZE_def by linarith+
  moreover have "v sdiv 4096 = v div 4096" using assms by (simp add: sdiv_nonneg in_volume_def)
  ultimately show "metadata_offset v = v div 4096 * 16 + 4096" "4096 \<le> metadata_offset v"
    "metadata_offset v + 16 \<le> 4096 * (table_blocks + 1)"
    by (simp_all add: metadata_offset_def)
qed

text \<open>Entries of different blocks do not overlap.\<close>

lemma metadata_offset_apart:
  assumes "cell u" and "cell v" and "u \<noteq> v"
  shows "metadata_offset u + 16 \<le> metadata_offset v \<or> metadata_offset v + 16 \<le> metadata_offset u"
proof -
  have "u div 4096 \<noteq> v div 4096"
    using assms by (metis aligned_def cell_def add.right_neutral mult_div_mod_eq)
  then show ?thesis using assms metadata_offset_in(1) by (auto simp: cell_def)
qed

definition entry_at :: "(int \<Rightarrow> byte) \<Rightarrow> int \<Rightarrow> na_entry" where
  "entry_at f v = entry_of_bytes (fetch f (metadata_offset v) 16)"

definition block_num_at :: "(int \<Rightarrow> byte) \<Rightarrow> int \<Rightarrow> int" where
  "block_num_at f v = na_file_block_num (entry_at f v)"

lemma entry_at_store_table:
  assumes "cell u" and "cell v" and "int64_range (na_last_updated e)" and "int64_range (na_file_block_num e)"
  shows "entry_at (store (entry_bytes e) (metadata_offset v) f) u = (if u = v then e else entry_at f u)"
  using metadata_offset_apart [OF assms(1,2)] assms(3,4)
  by (simp add: entry_at_def fetch_store_same fetch_store_other entry_round_trip)

lemma entry_at_store_outside:
  assumes "cell u" and "off + int (length bs) \<le> 4096 \<or> 4096 * (table_blocks + 1) \<le> off"
  shows "entry_at (store bs off f) u = entry_at f u"
proof -
  have "in_volume u" using assms(1) by (simp add: cell_def)
  note metadata_offset_in(2,3) [OF this]
  then have "metadata_offset u + int 16 \<le> off \<or> off + int (length bs) \<le> metadata_offset u"
    using assms(2) by linarith
  then show ?thesis by (simp add: entry_at_def fetch_store_other)
qed

section \<open>The invariant\<close>

text \<open>The readable content of a block, and of the volume.\<close>

definition na_block :: "na_storage \<Rightarrow> int \<Rightarrow> block" where
  "na_block s v = (case na_pending_blocks s v of
     Some n \<Rightarrow> fetch (na_file s) (n * 4096) BLOCK_SIZE
   | None \<Rightarrow> if block_num_at (na_file s) v = 0 then zero_block
             else fetch (na_file s) (block_num_at (na_file s) v * 4096) BLOCK_SIZE)"

definition na_volume :: "na_storage \<Rightarrow> int \<Rightarrow> byte" where
  "na_volume s = bytes_of (na_block s)"

text \<open>The blocks of the file that hold data: those of committed and those of pending writes.\<close>

definition owned :: "na_storage \<Rightarrow> int set" where
  "owned s = {n. n \<noteq> 0 \<and> (\<exists>v. cell v \<and> block_num_at (na_file s) v = n)} \<union> ran (na_pending_blocks s)"

text \<open>
  Blocks that hold data lie behind the table and inside the file; a block holds the data of one
  cell only; free blocks hold none.
\<close>

definition one_owner :: "(int \<Rightarrow> byte) \<Rightarrow> (int \<rightharpoonup> int) \<Rightarrow> bool" where
  "one_owner f p \<longleftrightarrow>
     (\<forall>u v. cell u \<and> cell v \<and> block_num_at f u = block_num_at f v \<and> block_num_at f u \<noteq> 0 \<longrightarrow> u = v) \<and>
     (\<forall>u v n. p u = Some n \<and> p v = Some n \<longrightarrow> u = v) \<and>
     (\<forall>u v n. p u = Some n \<and> cell v \<longrightarrow> block_num_at f v \<noteq> n)"

definition na_wf :: "na_storage \<Rightarrow> bool" where
  "na_wf s \<longleftrightarrow> 4096 * (table_blocks + 1) \<le> na_size s \<and> table_blocks + 1 \<le> na_num_total_blocks s \<and>
     na_num_total_blocks s < 2 ^ 31 \<and>
     (\<forall>n \<in> owned s. table_blocks < n \<and> n \<le> na_num_total_blocks s \<and> 4096 * (n + 1) \<le> na_size s) \<and>
     distinct (na_free_blocks s) \<and>
     (\<forall>n \<in> set (na_free_blocks s). table_blocks < n \<and> n \<le> na_num_total_blocks s \<and> n \<notin> owned s) \<and>
     (\<forall>v \<in> dom (na_pending_blocks s). cell v) \<and> one_owner (na_file s) (na_pending_blocks s) \<and>
     na_size s \<le> 4096 * (na_num_total_blocks s + 1)"

lemma na_wfD:
  assumes "na_wf s"
  shows "4096 * (table_blocks + 1) \<le> na_size s" "table_blocks + 1 \<le> na_num_total_blocks s"
    "na_num_total_blocks s < 2 ^ 31"
    "n \<in> owned s \<Longrightarrow> table_blocks < n" "n \<in> owned s \<Longrightarrow> n \<le> na_num_total_blocks s"
    "n \<in> owned s \<Longrightarrow> 4096 * (n + 1) \<le> na_size s"
    "distinct (na_free_blocks s)" "n \<in> set (na_free_blocks s) \<Longrightarrow> table_blocks < n"
    "n \<in> set (na_free_blocks s) \<Longrightarrow> n \<le> na_num_total_blocks s" "n \<in> set (na_free_blocks s) \<Longrightarrow> n \<notin> owned s"
    "na_pending_blocks s v = Some n \<Longrightarrow> cell v"
    "one_owner (na_file s) (na_pending_blocks s)" "na_size s \<le> 4096 * (na_num_total_blocks s + 1)"
  using assms unfolding na_wf_def by blast+

lemma one_ownerD:
  assumes "one_owner f p"
  shows "cell u \<Longrightarrow> cell v \<Longrightarrow> block_num_at f u = block_num_at f v \<Longrightarrow> block_num_at f u \<noteq> 0 \<Longrightarrow> u = v"
    "p u = Some n \<Longrightarrow> p v = Some n \<Longrightarrow> u = v" "p u = Some n \<Longrightarrow> cell v \<Longrightarrow> block_num_at f v \<noteq> n"
  using assms unfolding one_owner_def by blast+

lemma owned_I:
  "na_pending_blocks s v = Some n \<Longrightarrow> n \<in> owned s"
  "cell v \<Longrightarrow> block_num_at (na_file s) v \<noteq> 0 \<Longrightarrow> block_num_at (na_file s) v \<in> owned s"
  by (auto simp: owned_def ran_def)

section \<open>Reading\<close>

lemma read_metadata_at:
  assumes "na_wf s" and "cell v"
  shows "na_read_metadata s e v = Some (entry_at (na_file s) v)"
proof -
  have v: "in_volume v" using assms(2) by (simp add: cell_def)
  note m = metadata_offset_in [OF v]
  have "\<not> metadata_offset v < 0" "metadata_offset v + int 16 \<le> na_size s"
    using m na_wfD(1) [OF assms(1)] by linarith+
  then show ?thesis by (simp add: na_read_metadata_def na_pread_def entry_at_def)
qed

lemma read_block_owned:
  assumes "na_wf s" and "n \<in> owned s"
  shows "na_read_block s n = Some (fetch (na_file s) (n * 4096) BLOCK_SIZE)"
  using na_wfD(4,6) [OF assms] by (simp add: na_read_block_def na_pread_def)

lemma read_aligned_block:
  assumes "na_wf s" and "cell v"
  shows "na_read_aligned s v = Some (na_block s v)"
proof (cases "na_pending_blocks s v")
  case None
  then show ?thesis
    using read_metadata_at [OF assms] read_block_owned [OF assms(1) owned_I(2) [OF assms(2)]]
    by (simp add: na_read_aligned_def na_block_def block_num_at_def)
next
  case (Some n)
  then show ?thesis
    using read_block_owned [OF assms(1) owned_I(1)] by (simp add: na_read_aligned_def na_block_def)
qed

lemma is_block_na [simp]: "is_block (na_block s v)"
  by (simp add: na_block_def is_block_def zero_block_def split: option.splits)

lemma access_smod: "0 \<le> (off :: int) \<Longrightarrow> off smod 4096 = off mod 4096" "nat (off mod 4096) = 0 \<longleftrightarrow> off mod 4096 = 0"
  "\<not> off mod 4096 < 0"
proof -
  show "0 \<le> off \<Longrightarrow> off smod 4096 = off mod 4096" by (simp add: smod_nonneg)
  show "nat (off mod 4096) = 0 \<longleftrightarrow> off mod 4096 = 0" "\<not> off mod 4096 < 0"
    using pos_mod_sign [of 4096 off] by linarith+
qed

lemma na_read_volume:
  assumes "na_wf s" and "access_ok off"
  shows "na_read s off = Some (spec_read off (na_volume s))"
proof -
  have c: "v \<in> blocks_of off \<Longrightarrow> na_read_aligned s v = Some (na_block s v)" for v
    using read_aligned_block [OF assms(1)] blocks_of_cells [OF assms(2)] by (simp add: cell_def)
  have "0 \<le> off" using assms(2) by (simp add: access_ok_def)
  then have "na_read s off = Some (join_blocks (na_block s) off)"
    using c access_smod [of off]
    by (simp add: na_read_def join_blocks_def Let_def blocks_of_def split: if_splits)
  then show ?thesis using join_blocks_read [OF assms(2), of "na_block s"] by (simp add: na_volume_def)
qed

section \<open>Writing\<close>

lemma na_wf_fewer_free:
  assumes wf: "na_wf s" and k: "na_num_total_blocks s \<le> k" "k < 2 ^ 31" and fb: "distinct fb" "set fb \<subseteq> set (na_free_blocks s)"
  shows "na_wf (s\<lparr>na_free_blocks := fb, na_num_total_blocks := k\<rparr>)"
proof -
  have own: "owned (s\<lparr>na_free_blocks := fb, na_num_total_blocks := k\<rparr>) = owned s" by (simp add: owned_def)
  show ?thesis
    unfolding na_wf_def own
  proof (intro conjI)
    show "\<forall>n \<in> owned s. table_blocks < n \<and> n \<le> na_num_total_blocks (s\<lparr>na_free_blocks := fb, na_num_total_blocks := k\<rparr>) \<and>
        4096 * (n + 1) \<le> na_size (s\<lparr>na_free_blocks := fb, na_num_total_blocks := k\<rparr>)"
      using na_wfD(4-6) [OF wf] k by force
    show "\<forall>n \<in> set (na_free_blocks (s\<lparr>na_free_blocks := fb, na_num_total_blocks := k\<rparr>)). table_blocks < n \<and>
        n \<le> na_num_total_blocks (s\<lparr>na_free_blocks := fb, na_num_total_blocks := k\<rparr>) \<and> n \<notin> owned s"
      using na_wfD(8-10) [OF wf] k fb by force
  qed (use wf k fb in \<open>simp_all add: na_wf_def\<close>)
qed

lemma free_block:
  assumes wf: "na_wf s" and room: "na_num_total_blocks s + 1 < 2 ^ 31"
  obtains n fb k where "na_get_free_block_num s = Some (n, s\<lparr>na_free_blocks := fb, na_num_total_blocks := k\<rparr>)"
    "na_wf (s\<lparr>na_free_blocks := fb, na_num_total_blocks := k\<rparr>)" "n \<notin> owned s" "n \<notin> set fb" "table_blocks < n" "n \<le> k"
    "k \<le> na_num_total_blocks s + 1"
proof (cases "na_free_blocks s")
  case Nil
  let ?n = "na_num_total_blocks s + 1"
  have "na_get_free_block_num s = Some (?n, s\<lparr>na_free_blocks := [], na_num_total_blocks := ?n\<rparr>)"
    using Nil room by (simp add: na_get_free_block_num_def)
  moreover have "?n \<notin> owned s" using na_wfD(5) [OF wf, of ?n] by auto
  moreover have "na_wf (s\<lparr>na_free_blocks := [], na_num_total_blocks := ?n\<rparr>)"
    by (rule na_wf_fewer_free [OF wf]) (use room in simp_all)
  ultimately show ?thesis using that na_wfD(2) [OF wf] by simp
next
  case (Cons n fb)
  have "na_get_free_block_num s = Some (n, s\<lparr>na_free_blocks := fb, na_num_total_blocks := na_num_total_blocks s\<rparr>)"
    using Cons by (simp add: na_get_free_block_num_def)
  moreover have "na_wf (s\<lparr>na_free_blocks := fb, na_num_total_blocks := na_num_total_blocks s\<rparr>)"
    by (rule na_wf_fewer_free [OF wf]) (use Cons na_wfD(3,7) [OF wf] in auto)
  ultimately show ?thesis
    using na_wfD(7) [OF wf] na_wfD(8-10) [OF wf, of n] Cons by (intro that [of n "na_num_total_blocks s" fb]) simp_all
qed

text \<open>The effect of writing a fresh block \<open>n\<close> for the cell \<open>v\<close>.\<close>

definition claim :: "int \<Rightarrow> block \<Rightarrow> int \<Rightarrow> na_storage \<Rightarrow> na_storage" where
  "claim n b v s = s\<lparr>na_file := store b (n * 4096) (na_file s), na_size := max (na_size s) (n * 4096 + 4096),
     na_pending_blocks := (na_pending_blocks s)(v \<mapsto> n)\<rparr>"

lemma write_block_claim:
  assumes "table_blocks < n" and "is_block b"
  shows "na_write_block b n s = Some (s\<lparr>na_file := store b (n * 4096) (na_file s),
    na_size := max (na_size s) (n * 4096 + 4096)\<rparr>)"
  using assms by (simp add: na_write_block_def na_pwrite_def is_block_def)

lemma claim_wf:
  assumes wf: "na_wf s" and n: "n \<notin> owned s" "n \<notin> set (na_free_blocks s)" "table_blocks < n" "n \<le> na_num_total_blocks s"
    and v: "cell v" "na_pending_blocks s v = None" and b: "is_block b"
  shows "cell u \<Longrightarrow> entry_at (na_file (claim n b v s)) u = entry_at (na_file s) u" (is "_ \<Longrightarrow> ?E u")
    and "cell u \<Longrightarrow> na_block (claim n b v s) u = (if u = v then b else na_block s u)" (is "_ \<Longrightarrow> ?B u")
    and "na_wf (claim n b v s)"
proof -
  have e: "?E u" if "cell u" for u
    using entry_at_store_outside [OF that, of "n * 4096" b] n(3) by (simp add: claim_def)
  then have num: "block_num_at (na_file (claim n b v s)) u = block_num_at (na_file s) u" if "cell u" for u
    using that by (simp add: block_num_at_def)
  show "cell u \<Longrightarrow> ?E u" by (rule e)
  have other: "fetch (na_file (claim n b v s)) (m * 4096) BLOCK_SIZE = fetch (na_file s) (m * 4096) BLOCK_SIZE"
    if "m \<in> owned s" for m
  proof -
    have "m \<noteq> n" using that n(1) by blast
    then have "m * 4096 + int BLOCK_SIZE \<le> n * 4096 \<or> n * 4096 + int (length b) \<le> m * 4096"
      using b by (auto simp: is_block_def)
    then show ?thesis by (simp add: claim_def fetch_store_other)
  qed
  show "?B u" if "cell u" for u
  proof (cases "u = v")
    case True
    then show ?thesis using b by (simp add: na_block_def claim_def fetch_store_same is_block_def)
  next
    case False
    then have p: "na_pending_blocks (claim n b v s) u = na_pending_blocks s u" by (simp add: claim_def)
    show ?thesis
      using False other [OF owned_I(1)] other [OF owned_I(2) [OF that]]
      by (simp add: na_block_def p num [OF that] split: option.splits)
  qed
  have own: "owned (claim n b v s) = insert n (owned s)"
  proof -
    have "ran ((na_pending_blocks s)(v \<mapsto> n)) = insert n (ran (na_pending_blocks s))" using v(2) by (simp add: ran_map_upd)
    then show ?thesis using num unfolding owned_def by (auto simp: claim_def)
  qed
  have nc: "block_num_at (na_file s) u \<noteq> n" if "cell u" for u
    using n(1,3) owned_I(2) [OF that] by (cases "block_num_at (na_file s) u = 0") auto
  have np: "na_pending_blocks s u \<noteq> Some n" for u using n(1) owned_I(1) by blast
  show "na_wf (claim n b v s)"
    unfolding na_wf_def own
  proof (intro conjI)
    show "\<forall>m \<in> insert n (owned s). table_blocks < m \<and> m \<le> na_num_total_blocks (claim n b v s) \<and>
        4096 * (m + 1) \<le> na_size (claim n b v s)"
      using na_wfD(4-6) [OF wf] n by (force simp: claim_def)
    show "\<forall>m \<in> set (na_free_blocks (claim n b v s)). table_blocks < m \<and> m \<le> na_num_total_blocks (claim n b v s) \<and>
        m \<notin> insert n (owned s)"
      using na_wfD(8-10) [OF wf] n by (force simp: claim_def)
    show "one_owner (na_file (claim n b v s)) (na_pending_blocks (claim n b v s))"
      unfolding one_owner_def
    proof (intro conjI)
      note oo = one_ownerD [OF na_wfD(12) [OF wf]]
      show "\<forall>u w. cell u \<and> cell w \<and> block_num_at (na_file (claim n b v s)) u = block_num_at (na_file (claim n b v s)) w \<and>
          block_num_at (na_file (claim n b v s)) u \<noteq> 0 \<longrightarrow> u = w"
        using oo(1) num by metis
      show "\<forall>u w m. na_pending_blocks (claim n b v s) u = Some m \<and> na_pending_blocks (claim n b v s) w = Some m \<longrightarrow> u = w"
        using oo(2) np by (auto simp: claim_def split: if_splits)
      show "\<forall>u w m. na_pending_blocks (claim n b v s) u = Some m \<and> cell w \<longrightarrow> block_num_at (na_file (claim n b v s)) w \<noteq> m"
        using oo(3) nc num by (auto simp: claim_def split: if_splits)
    qed
    show "\<forall>u \<in> dom (na_pending_blocks (claim n b v s)). cell u"
      using na_wfD(11) [OF wf] v(1) by (auto simp: claim_def split: if_splits)
  qed (use na_wfD(1-3,7,13) [OF wf] n(4) in \<open>auto simp: claim_def\<close>)
qed

text \<open>What the record of an uncommitted write at \<open>off\<close> says.\<close>

definition write_record :: "na_storage \<Rightarrow> int \<Rightarrow> na_uncommitted_write \<Rightarrow> bool" where
  "write_record s off uw \<longleftrightarrow> access_ok off \<and>
     na_pending_blocks s (off - off mod 4096) = Some (na_new_file_offset uw ! 0) \<and>
     (if off mod 4096 = 0 then na_new_file_offset uw ! 1 = 0 \<and> na_to_free uw = old_block (entry_at (na_file s) off)
      else na_pending_blocks s (off - off mod 4096 + 4096) = Some (na_new_file_offset uw ! 1) \<and>
           na_to_free uw = old_block (entry_at (na_file s) (off - off mod 4096)) @
                           old_block (entry_at (na_file s) (off - off mod 4096 + 4096)))"

text \<open>
  The invariant: \<open>H q\<close> is the offset of the uncommitted write \<open>q\<close>, and uncommitted writes touch
  different blocks.
\<close>

definition na_inv :: "(int \<Rightarrow> int) \<Rightarrow> na_storage \<Rightarrow> bool" where
  "na_inv H s \<longleftrightarrow> na_wf s \<and> (\<forall>q uw. na_uncommitted_writes s q = Some uw \<longrightarrow> write_record s (H q) uw) \<and>
     (\<forall>p q. p \<in> dom (na_uncommitted_writes s) \<and> q \<in> dom (na_uncommitted_writes s) \<and> p \<noteq> q \<longrightarrow>
        blocks_of (H p) \<inter> blocks_of (H q) = {})"

lemma na_invD:
  assumes "na_inv H s"
  shows "na_wf s" "na_uncommitted_writes s q = Some uw \<Longrightarrow> write_record s (H q) uw"
    "na_uncommitted_writes s p = Some up \<Longrightarrow> na_uncommitted_writes s q = Some uw \<Longrightarrow> p \<noteq> q \<Longrightarrow>
      blocks_of (H p) \<inter> blocks_of (H q) = {}"
  using assms unfolding na_inv_def by blast+

lemma write_record_pending:
  assumes "write_record s off uw" and "v \<in> blocks_of off"
  shows "v \<in> dom (na_pending_blocks s)"
  using assms by (auto simp: write_record_def blocks_of_def split: if_splits)

lemma write_record_frame:
  assumes "write_record s off uw" and "\<And>v. v \<in> blocks_of off \<Longrightarrow> na_pending_blocks s' v = na_pending_blocks s v"
    and "\<And>v. v \<in> blocks_of off \<Longrightarrow> entry_at (na_file s') v = entry_at (na_file s) v"
  shows "write_record s' off uw"
  using assms by (auto simp: write_record_def blocks_of_def split: if_splits)

lemma claim_fields [simp]:
  "na_uncommitted_writes (claim n b v s) = na_uncommitted_writes s" "na_free_blocks (claim n b v s) = na_free_blocks s"
  "na_num_total_blocks (claim n b v s) = na_num_total_blocks s"
  "na_pending_blocks (claim n b v s) = (na_pending_blocks s)(v \<mapsto> n)"
  by (simp_all add: claim_def)

lemma na_block_cong: "na_file s' = na_file s \<Longrightarrow> na_pending_blocks s' = na_pending_blocks s \<Longrightarrow> na_block s' v = na_block s v"
  by (simp add: na_block_def split: option.split)

text \<open>Taking a block, filling it and noting it for a cell without a pending write.\<close>

definition fresh_for :: "int \<Rightarrow> na_storage \<Rightarrow> int \<Rightarrow> na_storage \<Rightarrow> bool" where
  "fresh_for v s n s1 \<longleftrightarrow> na_get_free_block_num s = Some (n, s1) \<and> na_file s1 = na_file s \<and>
     na_pending_blocks s1 = na_pending_blocks s \<and> na_uncommitted_writes s1 = na_uncommitted_writes s \<and> na_wf s1 \<and>
     na_num_total_blocks s1 \<le> na_num_total_blocks s + 1 \<and>
     (\<forall>b. is_block b \<longrightarrow> na_write_block b n s1 =
        Some (s1\<lparr>na_file := store b (n * 4096) (na_file s1), na_size := max (na_size s1) (n * 4096 + 4096)\<rparr>) \<and>
        na_wf (claim n b v s1) \<and>
        (\<forall>u. cell u \<longrightarrow> entry_at (na_file (claim n b v s1)) u = entry_at (na_file s) u \<and>
           na_block (claim n b v s1) u = (if u = v then b else na_block s u)))"

lemma fresh_forD:
  assumes "fresh_for v s n s1"
  shows "na_get_free_block_num s = Some (n, s1)" "na_file s1 = na_file s" "na_pending_blocks s1 = na_pending_blocks s"
    "na_uncommitted_writes s1 = na_uncommitted_writes s" "na_wf s1" "na_num_total_blocks s1 \<le> na_num_total_blocks s + 1"
    "is_block b \<Longrightarrow> na_write_block b n s1 =
       Some (s1\<lparr>na_file := store b (n * 4096) (na_file s1), na_size := max (na_size s1) (n * 4096 + 4096)\<rparr>)"
    "is_block b \<Longrightarrow> na_wf (claim n b v s1)"
    "is_block b \<Longrightarrow> cell u \<Longrightarrow> entry_at (na_file (claim n b v s1)) u = entry_at (na_file s) u"
    "is_block b \<Longrightarrow> cell u \<Longrightarrow> na_block (claim n b v s1) u = (if u = v then b else na_block s u)"
    "na_block s1 u = na_block s u"
  using assms na_block_cong [of s1 s u] by (simp_all add: fresh_for_def)

lemma claim_block:
  assumes wf: "na_wf s" and room: "na_num_total_blocks s + 1 < 2 ^ 31" and v: "cell v" "na_pending_blocks s v = None"
  obtains n s1 where "fresh_for v s n s1"
proof -
  obtain n fb k where f: "na_get_free_block_num s = Some (n, s\<lparr>na_free_blocks := fb, na_num_total_blocks := k\<rparr>)"
    "na_wf (s\<lparr>na_free_blocks := fb, na_num_total_blocks := k\<rparr>)" "n \<notin> owned s" "n \<notin> set fb" "table_blocks < n" "n \<le> k"
    "k \<le> na_num_total_blocks s + 1"
    by (rule free_block [OF wf room])
  define s1 where "s1 = s\<lparr>na_free_blocks := fb, na_num_total_blocks := k\<rparr>"
  have s1: "na_file s1 = na_file s" "na_pending_blocks s1 = na_pending_blocks s" "na_size s1 = na_size s"
    "na_uncommitted_writes s1 = na_uncommitted_writes s" "na_num_total_blocks s1 = k" "na_free_blocks s1 = fb"
    by (simp_all add: s1_def)
  have own: "owned s1 = owned s" by (simp add: owned_def s1)
  have c: "na_wf s1" "n \<notin> owned s1" "n \<notin> set (na_free_blocks s1)" "table_blocks < n" "n \<le> na_num_total_blocks s1"
      "cell v" "na_pending_blocks s1 v = None"
    using f v by (simp_all add: own s1 s1_def [symmetric])
  show ?thesis
    using f(1,7) c(1) s1 write_block_claim [OF c(4)] claim_wf(1-3) [OF c] na_block_cong [OF s1(1,2)]
    by (intro that [of n s1]) (simp add: s1_def [symmetric] fresh_for_def)
qed

lemma na_read_cell:
  assumes "na_wf s" and "cell v"
  shows "na_read s v = Some (na_block s v)"
proof -
  have "v smod 4096 = 0" using assms(2) by (simp add: cell_def in_volume_def aligned_def smod_nonneg)
  then show ?thesis using read_aligned_block [OF assms] by (simp add: na_read_def)
qed

text \<open>The state before the record of the write is entered, for both kinds of write.\<close>

definition written_at :: "int \<Rightarrow> block \<Rightarrow> na_storage \<Rightarrow> na_uncommitted_write \<Rightarrow> na_storage \<Rightarrow> bool" where
  "written_at off buf s uw s' \<longleftrightarrow> na_wf s' \<and> na_uncommitted_writes s' = na_uncommitted_writes s \<and>
     na_num_total_blocks s' \<le> na_num_total_blocks s + 2 \<and>
     (\<forall>u. u \<notin> blocks_of off \<longrightarrow> na_pending_blocks s' u = na_pending_blocks s u) \<and>
     (\<forall>u. cell u \<longrightarrow> entry_at (na_file s') u = entry_at (na_file s) u \<and>
        na_block s' u = write_blocks off buf (na_block s) u) \<and> write_record s' off uw"

lemma na_write_aligned:
  assumes wf: "na_wf s" and room: "na_num_total_blocks s + 2 < 2 ^ 31" and ok: "access_ok off" and al: "off mod 4096 = 0"
    and len: "BLOCK_SIZE \<le> length buf" and new: "na_pending_blocks s off = None"
  shows "\<exists>uw s'. na_write buf off q s = Some (s'\<lparr>na_uncommitted_writes := (na_uncommitted_writes s')(q \<mapsto> uw)\<rparr>) \<and>
    written_at off buf s uw s'"
proof -
  have c: "cell off" using blocks_of_cells [OF ok, of off] al by (simp add: cell_def blocks_of_def)
  have room': "na_num_total_blocks s + 1 < 2 ^ 31" using room by simp
  obtain n s1 where "fresh_for off s n s1" by (rule claim_block [OF wf room' c new])
  note g = fresh_forD [OF this]
  let ?b = "take BLOCK_SIZE buf"
  have b: "is_block ?b" using len by (simp add: is_block_def)
  have w: "na_write_block buf n s1 = Some (s1\<lparr>na_file := store ?b (n * 4096) (na_file s1),
      na_size := max (na_size s1) (n * 4096 + 4096)\<rparr>)"
    using g(7) [OF b] by (simp add: na_write_block_def)
  define uw where "uw = \<lparr>na_to_free = old_block (entry_at (na_file s) off), na_new_file_offset = [n, 0]\<rparr>"
  have "off smod 4096 = 0" using ok al by (simp add: smod_nonneg access_ok_def)
  then have "na_write buf off q s = Some ((claim n ?b off s1)\<lparr>na_uncommitted_writes := (na_uncommitted_writes (claim n ?b off s1))(q \<mapsto> uw)\<rparr>)"
    using g(1) read_metadata_at [OF g(5) c] w by (simp add: na_write_def claim_def uw_def g(2))
  moreover have "written_at off buf s uw (claim n ?b off s1)"
    using g(3,4,6) g(8-10) [OF b] ok al c
    by (auto simp: written_at_def blocks_of_def write_blocks_def write_record_def uw_def)
  ultimately show ?thesis by blast
qed

lemma na_write_unaligned:
  assumes wf: "na_wf s" and room: "na_num_total_blocks s + 2 < 2 ^ 31" and ok: "access_ok off" and al: "off mod 4096 \<noteq> 0"
    and len: "BLOCK_SIZE \<le> length buf" and v: "v = off - off mod 4096"
    and new: "na_pending_blocks s v = None" "na_pending_blocks s (v + 4096) = None"
  shows "\<exists>uw s'. na_write buf off q s = Some (s'\<lparr>na_uncommitted_writes := (na_uncommitted_writes s')(q \<mapsto> uw)\<rparr>) \<and>
    written_at off buf s uw s'"
proof -
  have bl: "blocks_of off = {v, v + 4096}" using al by (simp add: blocks_of_def v)
  have c: "cell v" "cell (v + 4096)" using blocks_of_cells [OF ok] by (simp_all add: cell_def bl)
  define r where "r = nat (off mod 4096)"
  have r: "r < 4096" by (simp add: r_def nat_less_iff)
  have room': "na_num_total_blocks s + 1 < 2 ^ 31" using room by simp
  obtain n s1 where "fresh_for v s n s1" by (rule claim_block [OF wf room' c(1) new(1)])
  note g = fresh_forD [OF this]
  have sp: "splice_blocks (na_block s) off buf = (take r (na_block s v) @ take (BLOCK_SIZE - r) buf,
      take r (drop (BLOCK_SIZE - r) buf) @ drop r (na_block s (v + 4096)))" (is "_ = (?b0, ?b1)")
    by (simp add: splice_blocks_def Let_def r_def v)
  have b: "is_block ?b0" "is_block ?b1"
    using len r is_block_na [of s v] is_block_na [of s "v + 4096"] by (simp_all add: is_block_def)
  define s2 where "s2 = claim n ?b0 v s1"
  have s2: "na_wf s2" "na_num_total_blocks s2 + 1 < 2 ^ 31" "na_pending_blocks s2 (v + 4096) = None"
      "na_block s2 (v + 4096) = na_block s (v + 4096)" "entry_at (na_file s2) (v + 4096) = entry_at (na_file s) (v + 4096)"
    using g(8-10) [OF b(1)] g(3,6) room new c by (simp_all add: s2_def)
  obtain m s3 where "fresh_for (v + 4096) s2 m s3" by (rule claim_block [OF s2(1,2) c(2) s2(3)])
  note h = fresh_forD [OF this]
  define uw where "uw = \<lparr>na_to_free = old_block (entry_at (na_file s) v) @ old_block (entry_at (na_file s) (v + 4096)),
    na_new_file_offset = [n, m]\<rparr>"
  define s4 where "s4 = claim m ?b1 (v + 4096) s3"
  have rd: "na_read s1 v = Some (na_block s v)" "na_read s3 (v + 4096) = Some (na_block s (v + 4096))"
      "na_read_metadata s1 None v = Some (entry_at (na_file s) v)"
      "na_read_metadata s3 e (v + 4096) = Some (entry_at (na_file s) (v + 4096))" for e
    using na_read_cell [OF g(5) c(1)] na_read_cell [OF h(5) c(2)] read_metadata_at [OF g(5) c(1)] read_metadata_at [OF h(5) c(2)]
      g(11) h(11) g(2) h(2) s2(4,5) by simp_all
  have sm: "off smod 4096 = off mod 4096" "\<not> off mod 4096 < 0" using access_smod [of off] ok by (simp_all add: access_ok_def)
  have cl: "s1\<lparr>na_file := store ?b0 (n * 4096) (na_file s1), na_size := max (na_size s1) (n * 4096 + 4096),
      na_pending_blocks := (na_pending_blocks s1)(v \<mapsto> n)\<rparr> = s2" by (simp add: s2_def claim_def)
  have "na_write buf off q s = Some (s4\<lparr>na_uncommitted_writes := (na_uncommitted_writes s4)(q \<mapsto> uw)\<rparr>)"
    using al sm g(1) h(1) rd g(7) [OF b(1)] h(7) [OF b(2)] cl
    by (simp add: na_write_def Let_def r_def [symmetric] v [symmetric] s4_def claim_def uw_def)
  moreover have "written_at off buf s uw s4"
    unfolding written_at_def
  proof (intro conjI allI impI)
    show "na_wf s4" using h(8) [OF b(2)] by (simp add: s4_def)
    show "na_uncommitted_writes s4 = na_uncommitted_writes s" using g(4) h(4) by (simp add: s4_def s2_def)
    show "na_num_total_blocks s4 \<le> na_num_total_blocks s + 2" using g(6) h(6) by (simp add: s4_def s2_def)
    show "na_pending_blocks s4 u = na_pending_blocks s u" if "u \<notin> blocks_of off" for u
      using that g(3) h(3) by (simp add: s4_def s2_def bl)
    show e: "entry_at (na_file s4) u = entry_at (na_file s) u" if "cell u" for u
      using h(9) [OF b(2) that] g(9) [OF b(1) that] by (simp add: s4_def s2_def)
    show "na_block s4 u = write_blocks off buf (na_block s) u" if "cell u" for u
      using h(10) [OF b(2) that] g(10) [OF b(1) that] al
      by (simp add: s4_def s2_def write_blocks_def Let_def sp v [symmetric])
    show "write_record s4 off uw"
      using ok al e c g(3) h(3) by (simp add: write_record_def uw_def v [symmetric]) (simp add: s4_def s2_def)
  qed
  ultimately show ?thesis by blast
qed

lemma na_write_returns:
  assumes wf: "na_wf s" and room: "na_num_total_blocks s + 2 < 2 ^ 31" and ok: "access_ok off"
    and len: "BLOCK_SIZE \<le> length buf" and new: "blocks_of off \<inter> dom (na_pending_blocks s) = {}"
  obtains uw s' where "na_write buf off q s = Some (s'\<lparr>na_uncommitted_writes := (na_uncommitted_writes s')(q \<mapsto> uw)\<rparr>)"
    "written_at off buf s uw s'"
proof (cases "off mod 4096 = 0")
  case True
  then have "na_pending_blocks s off = None" using new by (auto simp: blocks_of_def)
  then show ?thesis using na_write_aligned [OF wf room ok True len] that by blast
next
  case False
  then have "na_pending_blocks s (off - off mod 4096) = None" "na_pending_blocks s (off - off mod 4096 + 4096) = None"
    using new by (auto simp: blocks_of_def)
  then show ?thesis using na_write_unaligned [OF wf room ok False len refl] that by blast
qed

text \<open>The invariant speaks of the record of every uncommitted write, so entering one is a matter of its own.\<close>

lemma na_wf_record [simp]: "na_wf (s\<lparr>na_uncommitted_writes := m\<rparr>) = na_wf s" "na_block (s\<lparr>na_uncommitted_writes := m\<rparr>) = na_block s"
  "na_volume (s\<lparr>na_uncommitted_writes := m\<rparr>) = na_volume s"
  "write_record (s\<lparr>na_uncommitted_writes := m\<rparr>) off uw = write_record s off uw"
proof -
  show "na_block (s\<lparr>na_uncommitted_writes := m\<rparr>) = na_block s" by (rule ext, rule na_block_cong) simp_all
  then show "na_volume (s\<lparr>na_uncommitted_writes := m\<rparr>) = na_volume s" by (simp add: na_volume_def)
qed (simp_all add: na_wf_def owned_def write_record_def)

lemma na_write_inv:
  assumes inv: "na_inv H s" and room: "na_num_total_blocks s + 2 < 2 ^ 31" and ok: "access_ok off"
    and len: "BLOCK_SIZE \<le> length buf" and new: "blocks_of off \<inter> dom (na_pending_blocks s) = {}"
  obtains s' where "na_write buf off q s = Some s'" "na_inv (H(q := off)) s'"
    "\<forall>u. cell u \<longrightarrow> entry_at (na_file s') u = entry_at (na_file s) u"
    "na_volume s' = spec_write off buf (na_volume s)" "dom (na_uncommitted_writes s') = insert q (dom (na_uncommitted_writes s))"
    "na_num_total_blocks s' \<le> na_num_total_blocks s + 2" "\<forall>u. u \<notin> blocks_of off \<longrightarrow> na_pending_blocks s' u = na_pending_blocks s u"
proof -
  note wf = na_invD(1) [OF inv]
  obtain uw t where w: "na_write buf off q s = Some (t\<lparr>na_uncommitted_writes := (na_uncommitted_writes t)(q \<mapsto> uw)\<rparr>)"
    and t: "written_at off buf s uw t"
    using na_write_returns [OF wf room ok len new] .
  define s' where "s' = t\<lparr>na_uncommitted_writes := (na_uncommitted_writes t)(q \<mapsto> uw)\<rparr>"
  note t' = t [unfolded written_at_def]
  have old: "blocks_of (H p) \<inter> blocks_of off = {}" "write_record t (H p) u" if "na_uncommitted_writes s p = Some u" for p u
  proof -
    note r = na_invD(2) [OF inv that]
    show d: "blocks_of (H p) \<inter> blocks_of off = {}" using write_record_pending [OF r] new by blast
    have "access_ok (H p)" using r by (simp add: write_record_def)
    then have "cell v" if "v \<in> blocks_of (H p)" for v using blocks_of_cells that by (simp add: cell_def)
    then show "write_record t (H p) u" using d t' by (intro write_record_frame [OF r]) auto
  qed
  have "na_inv (H(q := off)) s'"
    unfolding na_inv_def
  proof (intro conjI allI impI)
    show "na_wf s'" using t' by (simp add: s'_def)
    show "write_record s' ((H(q := off)) p) u" if "na_uncommitted_writes s' p = Some u" for p u
      using that t' old by (auto simp: s'_def split: if_splits)
    show "blocks_of ((H(q := off)) p) \<inter> blocks_of ((H(q := off)) r) = {}"
      if "p \<in> dom (na_uncommitted_writes s') \<and> r \<in> dom (na_uncommitted_writes s') \<and> p \<noteq> r" for p r
      using that t' old(1) na_invD(3) [OF inv] by (auto simp: s'_def split: if_splits) blast+
  qed
  moreover have "na_volume s' = spec_write off buf (na_volume s)"
    using t' by (simp add: s'_def na_volume_def) (intro write_blocks_spec [OF ok len], simp_all add: cell_def)
  ultimately show ?thesis using that [of s'] w t' by (simp add: s'_def)
qed

section \<open>Committing\<close>

text \<open>The entry of a cell takes over its pending block.\<close>

definition promote :: "int \<Rightarrow> int \<Rightarrow> int \<Rightarrow> na_storage \<Rightarrow> na_storage" where
  "promote q v n s = s\<lparr>na_file := store (entry_bytes \<lparr>na_last_updated = q, na_file_block_num = n\<rparr>) (metadata_offset v) (na_file s),
     na_pending_blocks := (na_pending_blocks s)(v := None)\<rparr>"

lemma write_metadata_promote:
  assumes "na_wf s" and "cell v"
  shows "na_write_metadata \<lparr>na_last_updated = q, na_file_block_num = n\<rparr> v (s\<lparr>na_pending_blocks := (na_pending_blocks s)(v := None)\<rparr>) =
    Some (promote q v n s)"
proof -
  have v: "in_volume v" using assms(2) by (simp add: cell_def)
  note m = metadata_offset_in [OF v]
  have "\<not> metadata_offset v < 0" "metadata_offset v + 16 \<le> na_size s" using m na_wfD(1) [OF assms(1)] by linarith+
  then show ?thesis by (simp add: na_write_metadata_def na_pwrite_def promote_def max_absorb1)
qed

lemma promote_wf:
  assumes wf: "na_wf s" and v: "na_pending_blocks s v = Some n" and q: "int64_range q"
  shows "cell u \<Longrightarrow> entry_at (na_file (promote q v n s)) u =
      (if u = v then \<lparr>na_last_updated = q, na_file_block_num = n\<rparr> else entry_at (na_file s) u)" (is "_ \<Longrightarrow> ?E u")
    and "cell u \<Longrightarrow> na_block (promote q v n s) u = na_block s u" (is "_ \<Longrightarrow> ?B u")
    and "na_wf (promote q v n s)"
    and "set (old_block (entry_at (na_file s) v)) \<inter> owned (promote q v n s) = {}"
    and "owned (promote q v n s) \<subseteq> owned s"
proof -
  let ?s = "promote q v n s"
  have c: "cell v" by (rule na_wfD(11) [OF wf v])
  have no: "n \<in> owned s" by (rule owned_I(1) [OF v])
  note n = na_wfD(4-6) [OF wf no]
  have rng: "int64_range n" using n na_wfD(3) [OF wf] by (simp add: int64_range_def)
  have e: "?E u" if "cell u" for u
    using entry_at_store_table [OF that c, of "\<lparr>na_last_updated = q, na_file_block_num = n\<rparr>"] q rng by (simp add: promote_def)
  show "cell u \<Longrightarrow> ?E u" by (rule e)
  have num: "block_num_at (na_file ?s) u = (if u = v then n else block_num_at (na_file s) u)" if "cell u" for u
    using e [OF that] by (simp add: block_num_at_def)
  have p: "na_pending_blocks ?s = (na_pending_blocks s)(v := None)" by (simp add: promote_def)
  have data: "fetch (na_file ?s) (m * 4096) BLOCK_SIZE = fetch (na_file s) (m * 4096) BLOCK_SIZE" if "m \<in> owned s" for m
  proof -
    have "metadata_offset v + 16 \<le> m * 4096"
      using metadata_offset_in(3) [of v] c na_wfD(4) [OF wf that] by (simp add: cell_def)
    then show ?thesis by (simp add: promote_def fetch_store_other)
  qed
  show "?B u" if "cell u" for u
    using data [OF owned_I(1) [of s u]] data [OF owned_I(2) [OF that]] num [OF that] v n(1)
    by (auto simp: na_block_def p split: option.splits)
  note oo = one_ownerD [OF na_wfD(12) [OF wf]]
  have old: "block_num_at (na_file s) v \<notin> owned ?s" if nz: "block_num_at (na_file s) v \<noteq> 0"
  proof
    assume "block_num_at (na_file s) v \<in> owned ?s"
    then consider u where "cell u" "block_num_at (na_file ?s) u = block_num_at (na_file s) v"
      | u where "na_pending_blocks s u = Some (block_num_at (na_file s) v)"
      by (auto simp: owned_def p ran_def split: if_splits)
    then show False
    proof cases
      case 1
      then show False using num oo(1) [OF 1(1) c] oo(3) [OF v c] nz by (auto split: if_splits)
    next
      case 2
      then show False using oo(3) [OF _ c] by blast
    qed
  qed
  then show "set (old_block (entry_at (na_file s) v)) \<inter> owned ?s = {}"
    by (auto simp: old_block_def block_num_at_def)
  show own: "owned ?s \<subseteq> owned s"
    using num owned_I no by (auto simp: owned_def p ran_def split: if_splits)
  show "na_wf ?s"
    unfolding na_wf_def
  proof (intro conjI)
    show "\<forall>m \<in> owned ?s. table_blocks < m \<and> m \<le> na_num_total_blocks ?s \<and> 4096 * (m + 1) \<le> na_size ?s"
      using own na_wfD(4-6) [OF wf] by (auto simp: promote_def)
    show "\<forall>m \<in> set (na_free_blocks ?s). table_blocks < m \<and> m \<le> na_num_total_blocks ?s \<and> m \<notin> owned ?s"
      using own na_wfD(8-10) [OF wf] by (auto simp: promote_def)
    show "\<forall>u \<in> dom (na_pending_blocks ?s). cell u" using na_wfD(11) [OF wf] by (auto simp: p split: if_splits)
    show "one_owner (na_file ?s) (na_pending_blocks ?s)"
      unfolding one_owner_def
    proof (intro conjI allI impI)
      show "u = w" if "cell u \<and> cell w \<and> block_num_at (na_file ?s) u = block_num_at (na_file ?s) w \<and> block_num_at (na_file ?s) u \<noteq> 0"
        for u w
        using that num oo(1) [of u w] oo(3) [OF v, of u] oo(3) [OF v, of w] by (auto split: if_splits)
      show "u = w" if "na_pending_blocks ?s u = Some m \<and> na_pending_blocks ?s w = Some m" for u w m
        using that oo(2) by (auto simp: p split: if_splits)
      show "block_num_at (na_file ?s) w \<noteq> m" if "na_pending_blocks ?s u = Some m \<and> cell w" for u w m
        using that num [of w] oo(2) [OF v, of u] oo(3) by (auto simp: p split: if_splits)
    qed
  qed (use na_wfD(1-3,7,13) [OF wf] in \<open>simp_all add: promote_def\<close>)
qed

text \<open>Storing into block 0, and returning blocks to the free list.\<close>

lemma one_owner_cong:
  assumes "\<And>u. cell u \<Longrightarrow> block_num_at f' u = block_num_at f u" and "one_owner f p"
  shows "one_owner f' p"
  using assms(1) one_ownerD [OF assms(2)] unfolding one_owner_def by metis

lemma store_block0:
  assumes wf: "na_wf s" and off: "0 \<le> off" "off + int (length bs) \<le> 4096"
  defines "s' \<equiv> s\<lparr>na_file := store bs off (na_file s)\<rparr>"
  shows "na_pwrite bs off s = Some s'" "cell u \<Longrightarrow> entry_at (na_file s') u = entry_at (na_file s) u"
    "cell u \<Longrightarrow> na_block s' u = na_block s u" "owned s' = owned s" "na_wf s'"
proof -
  show "na_pwrite bs off s = Some s'"
    using off na_wfD(1) [OF wf] by (simp add: na_pwrite_def s'_def max_absorb1)
  have e: "entry_at (na_file s') u = entry_at (na_file s) u" if "cell u" for u
    using entry_at_store_outside [OF that, of off bs] off by (simp add: s'_def)
  then show "cell u \<Longrightarrow> entry_at (na_file s') u = entry_at (na_file s) u" .
  have num: "block_num_at (na_file s') u = block_num_at (na_file s) u" if "cell u" for u
    using e [OF that] by (simp add: block_num_at_def)
  have p: "na_pending_blocks s' = na_pending_blocks s" by (simp add: s'_def)
  show own: "owned s' = owned s" using num by (auto simp: owned_def p)
  have data: "fetch (na_file s') (m * 4096) BLOCK_SIZE = fetch (na_file s) (m * 4096) BLOCK_SIZE" if "m \<in> owned s" for m
    using na_wfD(4) [OF wf that] off by (simp add: s'_def fetch_store_other)
  show "na_block s' u = na_block s u" if "cell u"
    using data [OF owned_I(1) [of s u]] data [OF owned_I(2) [OF that]] num [OF that]
    by (auto simp: na_block_def p split: option.splits)
  show "na_wf s'"
    using na_wfD [OF wf] one_owner_cong [OF num na_wfD(12) [OF wf]] unfolding na_wf_def own by (auto simp: s'_def)
qed

lemma release:
  assumes wf: "na_wf s" and xs: "distinct xs" "set xs \<inter> set (na_free_blocks s) = {}" "set xs \<inter> owned s = {}"
    and rng: "\<And>x. x \<in> set xs \<Longrightarrow> table_blocks < x \<and> x \<le> na_num_total_blocks s"
  shows "na_wf (s\<lparr>na_free_blocks := na_free_blocks s @ xs\<rparr>)"
proof -
  have own: "owned (s\<lparr>na_free_blocks := na_free_blocks s @ xs\<rparr>) = owned s" by (simp add: owned_def)
  show ?thesis unfolding na_wf_def own using na_wfD [OF wf] xs rng by auto
qed

lemma old_block_owned: "cell v \<Longrightarrow> set (old_block (entry_at (na_file s) v)) \<subseteq> owned s"
  using owned_I(2) [of v s] by (auto simp: old_block_def block_num_at_def)

lemma old_blocks_distinct:
  assumes "na_wf s" and "cell u" "cell v" "u \<noteq> v"
  shows "distinct (old_block (entry_at (na_file s) u) @ old_block (entry_at (na_file s) v))"
  using one_ownerD(1) [OF na_wfD(12) [OF assms(1)] assms(2,3)] assms(4) by (auto simp: old_block_def block_num_at_def)

text \<open>The first stage: the entry of the first block.\<close>

lemma commit_first_promotes:
  assumes inv: "na_inv H s" and uw: "na_uncommitted_writes s q = Some uw" and v: "v = H q - H q mod 4096"
    and s0: "s0 = s\<lparr>na_uncommitted_writes := (na_uncommitted_writes s)(q := None)\<rparr>"
  shows "na_commit_first q (H q) s = Some (uw, promote q v (na_new_file_offset uw ! 0) s0)"
    "na_wf s0" "na_pending_blocks s0 v = Some (na_new_file_offset uw ! 0)" "cell v" "H q - H q smod 4096 = v"
proof -
  have r: "access_ok (H q)" "na_pending_blocks s v = Some (na_new_file_offset uw ! 0)"
    using na_invD(2) [OF inv uw] by (simp_all add: write_record_def v)
  show w: "na_wf s0" "na_pending_blocks s0 v = Some (na_new_file_offset uw ! 0)"
    using na_invD(1) [OF inv] r by (simp_all add: s0)
  show c: "cell v" by (rule na_wfD(11) [OF w])
  show sm: "H q - H q smod 4096 = v" using access_smod(1) [of "H q"] r by (simp add: v access_ok_def)
  show "na_commit_first q (H q) s = Some (uw, promote q v (na_new_file_offset uw ! 0) s0)"
    using write_metadata_promote [OF w(1) c, of q "na_new_file_offset uw ! 0"] uw sm
    by (simp add: na_commit_first_def Let_def s0)
qed

text \<open>The two stages that change the table, for both kinds of write.\<close>

lemma commit_entries:
  assumes inv: "na_inv H s" and uw: "na_uncommitted_writes s q = Some uw" and q: "int64_range q"
  obtains t u where "na_commit_first q (H q) s = Some (uw, t)" "na_commit_second q (H q) uw t = Some u"
    "na_wf u" "set (na_to_free uw) \<inter> owned u = {}" "distinct (na_to_free uw)" "set (na_to_free uw) \<subseteq> owned s"
    "na_free_blocks u = na_free_blocks s" "na_num_total_blocks u = na_num_total_blocks s"
    "na_uncommitted_writes u = (na_uncommitted_writes s)(q := None)"
    "na_pending_blocks u = (\<lambda>v. if v \<in> blocks_of (H q) then None else na_pending_blocks s v)"
    "\<forall>v. cell v \<longrightarrow> na_block u v = na_block s v"
    "\<forall>v. cell v \<and> v \<notin> blocks_of (H q) \<longrightarrow> entry_at (na_file u) v = entry_at (na_file s) v"
proof -
  define v where "v = H q - H q mod 4096"
  define s0 where "s0 = s\<lparr>na_uncommitted_writes := (na_uncommitted_writes s)(q := None)\<rparr>"
  let ?n0 = "na_new_file_offset uw ! 0" and ?n1 = "na_new_file_offset uw ! 1"
  note r = na_invD(2) [OF inv uw, unfolded write_record_def, folded v_def]
  have wf: "na_wf s" by (rule na_invD(1) [OF inv])
  note cf = commit_first_promotes [OF inv uw v_def s0_def]
  note s0 = cf(2,3) and c = cf(4) and sm = cf(5)
  have f0: "na_file s0 = na_file s" "na_block s0 = na_block s" "owned s0 = owned s"
    by (simp_all add: s0_def owned_def)
  define t where "t = promote q v ?n0 s0"
  note t = promote_wf [OF s0 q, folded t_def, unfolded f0] and first = cf(1) [folded t_def]
  have tf: "na_free_blocks t = na_free_blocks s" "na_num_total_blocks t = na_num_total_blocks s"
    "na_uncommitted_writes t = (na_uncommitted_writes s)(q := None)" "na_pending_blocks t = (na_pending_blocks s)(v := None)"
    by (simp_all add: t_def promote_def s0_def)
  show ?thesis
  proof (cases "H q mod 4096 = 0")
    case True
    then have bl: "blocks_of (H q) = {v}" "v = H q" by (simp_all add: blocks_of_def v_def)
    have n1: "?n1 = 0" and fr: "na_to_free uw = old_block (entry_at (na_file s) v)" using r True bl(2) by simp_all
    have second: "na_commit_second q (H q) uw t = Some t" using n1 by (simp add: na_commit_second_def)
    show ?thesis
    proof (rule that [OF first second])
      show "na_wf t" by (rule t(3))
      show "set (na_to_free uw) \<inter> owned t = {}" using t(4) fr by simp
      show "distinct (na_to_free uw)" by (simp add: fr old_block_def)
      show "set (na_to_free uw) \<subseteq> owned s" using old_block_owned [OF c, of s] fr by simp
      show "\<forall>w. cell w \<longrightarrow> na_block t w = na_block s w" using t(2) by simp
      show "\<forall>w. cell w \<and> w \<notin> blocks_of (H q) \<longrightarrow> entry_at (na_file t) w = entry_at (na_file s) w" using t(1) bl by simp
    qed (use tf bl in \<open>simp_all add: fun_eq_iff\<close>)
  next
    case False
    then have bl: "blocks_of (H q) = {v, v + 4096}" by (simp add: blocks_of_def v_def)
    have p1: "na_pending_blocks t (v + 4096) = Some ?n1" and fr: "na_to_free uw =
        old_block (entry_at (na_file s) v) @ old_block (entry_at (na_file s) (v + 4096))"
      using r False tf(4) by simp_all
    have c1: "cell (v + 4096)" by (rule na_wfD(11) [OF t(3) p1])
    define u where "u = promote q (v + 4096) ?n1 t"
    note u = promote_wf [OF t(3) p1 q, folded u_def]
    have p01: "na_pending_blocks s v = Some ?n0" "na_pending_blocks s (v + 4096) = Some ?n1" using r False by simp_all
    then have "?n0 \<noteq> ?n1" using one_ownerD(2) [OF na_wfD(12) [OF wf] p01(1), of "v + 4096"] by auto
    moreover have "?n1 \<noteq> 0" using na_wfD(4) [OF wf owned_I(1) [OF p01(2)]] by simp
    ultimately have second: "na_commit_second q (H q) uw t = Some u"
      using write_metadata_promote [OF t(3) c1, of q ?n1] sm by (simp add: na_commit_second_def Let_def u_def)
    have e1: "entry_at (na_file t) (v + 4096) = entry_at (na_file s) (v + 4096)" using t(1) [OF c1] by simp
    show ?thesis
    proof (rule that [OF first second])
      show "na_wf u" by (rule u(3))
      show "set (na_to_free uw) \<inter> owned u = {}" using t(4) u(4,5) e1 fr by auto
      show "distinct (na_to_free uw)" unfolding fr by (rule old_blocks_distinct [OF wf c c1]) simp
      show "set (na_to_free uw) \<subseteq> owned s" using old_block_owned [OF c, of s] old_block_owned [OF c1, of s] fr by simp
      show "\<forall>w. cell w \<longrightarrow> na_block u w = na_block s w" using u(2) t(2) by simp
      show "\<forall>w. cell w \<and> w \<notin> blocks_of (H q) \<longrightarrow> entry_at (na_file u) w = entry_at (na_file s) w"
        using u(1) t(1) bl by simp
    qed (use tf bl in \<open>auto simp: u_def promote_def fun_eq_iff\<close>)
  qed
qed

lemma bytes_of_cong: "(\<And>v. cell v \<Longrightarrow> B v = C v) \<Longrightarrow> bytes_of B = bytes_of C"
  using block_start by (auto simp: bytes_of_def cell_def fun_eq_iff)

lemma na_commit_inv:
  assumes inv: "na_inv H s" and uw: "na_uncommitted_writes s q = Some uw" and q: "int64_range q"
  obtains s' where "na_commit q (H q) s = Some s'" "na_inv H s'" "na_volume s' = na_volume s"
    "na_get_sequence_number s' = Some q" "na_uncommitted_writes s' = (na_uncommitted_writes s)(q := None)"
    "na_pending_blocks s' = (\<lambda>v. if v \<in> blocks_of (H q) then None else na_pending_blocks s v)"
    "na_num_total_blocks s' = na_num_total_blocks s"
proof -
  have wf: "na_wf s" by (rule na_invD(1) [OF inv])
  obtain t u where f: "na_commit_first q (H q) s = Some (uw, t)" "na_commit_second q (H q) uw t = Some u"
    and u: "na_wf u" "set (na_to_free uw) \<inter> owned u = {}" "distinct (na_to_free uw)" "set (na_to_free uw) \<subseteq> owned s"
      "na_free_blocks u = na_free_blocks s" "na_num_total_blocks u = na_num_total_blocks s"
      "na_uncommitted_writes u = (na_uncommitted_writes s)(q := None)"
      "na_pending_blocks u = (\<lambda>v. if v \<in> blocks_of (H q) then None else na_pending_blocks s v)"
      "\<forall>v. cell v \<longrightarrow> na_block u v = na_block s v"
      "\<forall>v. cell v \<and> v \<notin> blocks_of (H q) \<longrightarrow> entry_at (na_file u) v = entry_at (na_file s) v"
    using commit_entries [OF inv uw q] .
  define w where "w = u\<lparr>na_file := store (le_bytes 8 q) 0 (na_file u)\<rparr>"
  have "(0::int) \<le> 0" "0 + int (length (le_bytes 8 q)) \<le> 4096" by simp_all
  note w = store_block0 [OF u(1) this, folded w_def]
  define s' where "s' = w\<lparr>na_free_blocks := na_free_blocks w @ na_to_free uw\<rparr>"
  have c: "na_commit q (H q) s = Some s'"
    using f w(1) by (simp add: na_commit_def set_sequence_num_def s'_def)
  have wf': "na_wf s'"
    unfolding s'_def
  proof (rule release [OF w(5) u(3)])
    show "set (na_to_free uw) \<inter> set (na_free_blocks w) = {}" using u(4,5) na_wfD(10) [OF wf] by (auto simp: w_def)
    show "set (na_to_free uw) \<inter> owned w = {}" using u(2) w(4) by simp
    show "table_blocks < x \<and> x \<le> na_num_total_blocks w" if "x \<in> set (na_to_free uw)" for x
      using that u(4,6) na_wfD(4,5) [OF wf, of x] by (auto simp: w_def)
  qed
  have s': "na_file s' = na_file w" "na_pending_blocks s' = na_pending_blocks u"
    "na_uncommitted_writes s' = na_uncommitted_writes u" "na_size s' = na_size u" "na_num_total_blocks s' = na_num_total_blocks u"
    by (simp_all add: s'_def w_def)
  have "na_inv H s'"
    unfolding na_inv_def
  proof (intro conjI allI impI)
    show "write_record s' (H p) up" if "na_uncommitted_writes s' p = Some up" for p up
    proof -
      have p: "na_uncommitted_writes s p = Some up" "p \<noteq> q" using that s'(3) u(7) by (auto split: if_splits)
      note r = na_invD(2) [OF inv p(1)]
      have d: "blocks_of (H p) \<inter> blocks_of (H q) = {}" by (rule na_invD(3) [OF inv p(1) uw p(2)])
      have "access_ok (H p)" using r by (simp add: write_record_def)
      then have cl: "cell v" if "v \<in> blocks_of (H p)" for v using blocks_of_cells that by (simp add: cell_def)
      show ?thesis
        by (rule write_record_frame [OF r]) (use d cl u(8,10) w(2) in \<open>auto simp: s'(1,2)\<close>)
    qed
    show "blocks_of (H p) \<inter> blocks_of (H r) = {}"
      if "p \<in> dom (na_uncommitted_writes s') \<and> r \<in> dom (na_uncommitted_writes s') \<and> p \<noteq> r" for p r
      using that na_invD(3) [OF inv] by (auto simp: s'(3) u(7) split: if_splits) blast
  qed (rule wf')
  moreover have "na_volume s' = na_volume s"
    unfolding na_volume_def
    using u(9) w(3) na_block_cong [of s' w] s'(1,2) by (intro bytes_of_cong) (simp add: w_def)
  moreover have "na_get_sequence_number s' = Some q"
  proof -
    have "na_size s' \<ge> 8" using na_wfD(1) [OF u(1)] s'(4) by simp
    then show ?thesis
      using q by (simp add: na_get_sequence_number_def read_sequence_num_def na_pread_def s'(1) w_def fetch_store_same
          to_int64_le_bytes int64_range_def)
  qed
  ultimately show ?thesis using that c s' u(6-8) by simp
qed

end
