(* ===== verification/Nonatomic_Limits.thy ===== *)
theory Nonatomic_Limits
  imports Nonatomic_Refine
begin

text \<open>
  The non-atomic volume from outside: a new volume, what a restarted process finds, and where the
  implementation falls short of the other one (a commit that is cut in two, blocks that are freed
  twice, blocks that are lost at a restart).
\<close>

section \<open>A new volume\<close>

definition na_new_volume :: na_storage where
  "na_new_volume = \<lparr>na_file = (\<lambda>_. 0), na_size = 4096 * (table_blocks + 1), na_uncommitted_writes = Map.empty,
     na_pending_blocks = Map.empty, na_free_blocks = [], na_num_total_blocks = table_blocks + 1\<rparr>"

lemma store_zeros: "store (replicate n 0) off (\<lambda>_. 0) = (\<lambda>_. 0)"
  by (auto simp: store_def fun_eq_iff)

lemma le_bytes_zero [simp]: "le_bytes n 0 = replicate n 0"
  by (induction n) simp_all

lemma write_zero_blocks_new:
  assumes "na_file s = (\<lambda>_. 0)" and "na_size s = 0"
  shows "write_zero_blocks n s = Some (s\<lparr>na_size := if n = 0 then 0 else 4096 * (int n + 1)\<rparr>)"
proof (induction n)
  case 0
  then show ?case using assms(2) by simp
next
  case (Suc n)
  have "\<not> (int n + 1) * 4096 < 0" "max (if n = 0 then 0 else 4096 * (int n + 1)) ((int n + 1) * 4096 + 4096) = 4096 * (int (Suc n) + 1)"
    by simp_all
  then show ?case
    using Suc assms(1) by (simp add: na_write_block_def na_pwrite_def zero_block_def store_zeros)
qed

lemma entry_at_zero: "entry_at (\<lambda>_. 0) v = \<lparr>na_last_updated = 0, na_file_block_num = 0\<rparr>"
  by (simp add: entry_at_def fetch_zero entry_of_zeros)

lemma collect_empty: "(\<And>x. x \<in> set xs \<Longrightarrow> f x = Some []) \<Longrightarrow> collect f xs = Some []"
  by (induction xs) simp_all

lemma free_scan_past: "n \<le> b \<Longrightarrow> free_scan us b n = []"
  by (simp add: free_scan.simps)

text \<open>Entries are read inside the table whatever the index: the scan of \<^verbatim>\<open>open_volume\<close> never fails.\<close>

lemma read_metadata_in:
  assumes "4096 * (table_blocks + 1) \<le> na_size s" and "in_volume v"
  shows "na_read_metadata s e v = Some (entry_at (na_file s) v)"
proof -
  note m = metadata_offset_in [OF assms(2)]
  have "\<not> metadata_offset v < 0" "metadata_offset v + int 16 \<le> na_size s" using m assms(1) by linarith+
  then show ?thesis by (simp add: na_read_metadata_def na_pread_def entry_at_def)
qed

lemma collect_total: "(\<And>x. x \<in> set xs \<Longrightarrow> f x \<noteq> None) \<Longrightarrow> \<exists>ys. collect f xs = Some ys"
proof (induction xs)
  case (Cons x xs)
  then obtain y ys where "f x = Some y" "collect f xs = Some ys" by fastforce
  then show ?case by simp
qed simp

lemma used_blocks_returns:
  assumes "4096 * (table_blocks + 1) \<le> na_size s"
  shows "\<exists>us. na_used_blocks s = Some us"
  unfolding na_used_blocks_def
  by (rule collect_total) (use read_metadata_in [OF assms] in \<open>simp add: in_volume_def VOLUME_SIZE_def\<close>)

lemma na_open_new: "na_open_volume (na_new_process f 0) = Some na_new_volume"
proof -
  let ?p = "(na_new_process f 0)\<lparr>na_num_total_blocks := 0\<rparr>"
  have z: "na_file ?p = (\<lambda>_. 0)" "na_size ?p = 0" by (auto simp: na_new_process_def fun_eq_iff)
  have "init_metadata ?p = Some (?p\<lparr>na_size := 4096 * (table_blocks + 1)\<rparr>)"
    using write_zero_blocks_new [OF z, of 262144] by (simp add: init_metadata_def METADATA_SIZE_eq)
  moreover have "set_sequence_num 0 (?p\<lparr>na_size := 4096 * (table_blocks + 1)\<rparr>) = Some (?p\<lparr>na_size := 4096 * (table_blocks + 1)\<rparr>)"
    using z(1) by (simp add: set_sequence_num_def na_pwrite_def store_zeros)
  moreover have "?p\<lparr>na_size := 4096 * (table_blocks + 1), na_num_total_blocks := 1 + table_blocks\<rparr> = na_new_volume"
    using z(1) by (simp add: na_new_process_def na_new_volume_def)
  moreover obtain us where "na_used_blocks na_new_volume = Some us"
    using used_blocks_returns [of na_new_volume] by (auto simp: na_new_volume_def)
  moreover have "free_scan (sort us) (1 + METADATA_SIZE) (na_num_total_blocks na_new_volume) = []"
    by (rule free_scan_past) (simp add: na_new_volume_def METADATA_SIZE_eq)
  moreover have "na_free_blocks na_new_volume = []" by (simp add: na_new_volume_def)
  ultimately show ?thesis
    by (simp add: na_open_volume_def METADATA_SIZE_eq na_new_process_def Let_def)
qed

lemma na_new_inv: "na_inv H na_new_volume" and na_new_zero: "na_volume na_new_volume = (\<lambda>_. 0)"
  and na_new_sequence: "na_get_sequence_number na_new_volume = Some 0"
proof -
  have num: "block_num_at (na_file na_new_volume) v = 0" for v
    by (simp add: block_num_at_def na_new_volume_def entry_at_zero)
  then have own: "owned na_new_volume = {}" by (simp add: owned_def na_new_volume_def)
  have "na_wf na_new_volume"
    unfolding na_wf_def own one_owner_def using num by (simp add: na_new_volume_def)
  then show "na_inv H na_new_volume" by (simp add: na_inv_def na_new_volume_def)
  have "na_block na_new_volume v = zero_block" for v
    using num by (simp add: na_block_def na_new_volume_def)
  then show "na_volume na_new_volume = (\<lambda>_. 0)"
    by (simp add: na_volume_def bytes_of_def fun_eq_iff zero_block_def nat_less_iff)
  show "na_get_sequence_number na_new_volume = Some 0"
    by (simp add: na_get_sequence_number_def read_sequence_num_def na_pread_def na_new_volume_def fetch_zero to_int64_def)
qed

section \<open>Restarting\<close>

text \<open>The committed contents: what the table says, without the pending blocks.\<close>

definition na_committed :: "na_storage \<Rightarrow> int \<Rightarrow> byte" where
  "na_committed s = na_volume (s\<lparr>na_pending_blocks := Map.empty\<rparr>)"

lemma na_committed_bytes:
  "na_committed s = bytes_of (\<lambda>v. if block_num_at (na_file s) v = 0 then zero_block
     else fetch (na_file s) (block_num_at (na_file s) v * 4096) BLOCK_SIZE)"
  unfolding na_committed_def na_volume_def by (rule arg_cong [where f = bytes_of]) (simp add: fun_eq_iff na_block_def)

text \<open>
  A process that stops loses the uncommitted writes and nothing else, but every free block of the
  file is lost with it: the restarted process finds no free blocks.
\<close>

lemma na_restart:
  assumes wf: "na_wf s" and size: "na_size s < 4096 * 2 ^ 30"
  obtains s' where "na_open_volume (na_new_process (na_file s) (na_size s)) = Some s'" "na_inv H s'"
    "na_volume s' = na_committed s" "na_free_blocks s' = []" "na_num_total_blocks s' \<le> 2 ^ 30"
    "na_get_sequence_number s' = na_get_sequence_number s"
proof -
  define f where "f = (\<lambda>x. if 0 \<le> x \<and> x < na_size s then na_file s x else 0)"
  define s' where "s' = (na_new_process (na_file s) (na_size s))\<lparr>na_num_total_blocks := (na_size s + 1) div 4096\<rparr>"
  have s': "na_file s' = f" "na_size s' = na_size s" "na_pending_blocks s' = Map.empty" "na_uncommitted_writes s' = Map.empty"
    "na_free_blocks s' = []" "na_num_total_blocks s' = (na_size s + 1) div 4096"
    by (simp_all add: s'_def na_new_process_def f_def)
  have inside: "fetch f off n = fetch (na_file s) off n" if "0 \<le> off" "off + int n \<le> na_size s" for off n
    using that by (intro fetch_cong) (auto simp: f_def)
  have tot: "table_blocks + 1 \<le> (na_size s + 1) div 4096" "(na_size s + 1) div 4096 \<le> 2 ^ 30"
  proof -
    have "na_size s < 4398046511104" using size by simp
    then show "table_blocks + 1 \<le> (na_size s + 1) div 4096" using na_wfD(1) [OF wf] by simp
    have "(na_size s + 1) div 4096 \<le> 1073741824" using \<open>na_size s < 4398046511104\<close> by linarith
    then show "(na_size s + 1) div 4096 \<le> 2 ^ 30" by simp
  qed
  have e: "entry_at f v = entry_at (na_file s) v" if "cell v" for v
  proof -
    have "in_volume v" using that by (simp add: cell_def)
    from metadata_offset_in(2,3) [OF this] have "0 \<le> metadata_offset v" "metadata_offset v + int 16 \<le> na_size s"
      using na_wfD(1) [OF wf] by linarith+
    from inside [OF this] show ?thesis by (simp add: entry_at_def)
  qed
  then have num: "block_num_at f v = block_num_at (na_file s) v" if "cell v" for v
    using that by (simp add: block_num_at_def)
  have own: "owned s' \<subseteq> owned s" using num by (auto simp: owned_def s')
  have wf': "na_wf s'"
    unfolding na_wf_def
  proof (intro conjI)
    show "\<forall>n \<in> owned s'. table_blocks < n \<and> n \<le> na_num_total_blocks s' \<and> 4096 * (n + 1) \<le> na_size s'"
    proof
      fix n assume "n \<in> owned s'"
      then have "n \<in> owned s" using own by blast
      from na_wfD(4,6) [OF wf this] show "table_blocks < n \<and> n \<le> na_num_total_blocks s' \<and> 4096 * (n + 1) \<le> na_size s'"
        unfolding s' by auto
    qed
    show "one_owner (na_file s') (na_pending_blocks s')"
      using one_ownerD(1) [OF na_wfD(12) [OF wf]] num unfolding one_owner_def s' by (metis option.distinct(1))
    show "na_num_total_blocks s' < 2 ^ 31" using tot(2) s' by simp
  qed (use na_wfD(1) [OF wf] tot(1) in \<open>simp_all add: s'\<close>)
  obtain us where us: "na_used_blocks s' = Some us"
    using used_blocks_returns [of s'] na_wfD(1) [OF wf] s'(2) by auto
  have "free_scan (sort us) (1 + METADATA_SIZE) (na_num_total_blocks s') = []"
    by (rule free_scan_past) (use tot(2) s'(6) in \<open>simp add: METADATA_SIZE_eq\<close>)
  moreover have "to_int32 ((na_size s + 1) div 4096) = (na_size s + 1) div 4096" using tot by (intro to_int32_id) simp_all
  ultimately have "na_open_volume (na_new_process (na_file s) (na_size s)) = Some s'"
    using us s'(5,6) tot(1) by (simp add: na_open_volume_def na_new_process_def Let_def s'_def)
  moreover have "na_volume s' = na_committed s"
    unfolding na_committed_bytes na_volume_def
  proof (rule bytes_of_cong)
    fix v assume v: "cell v"
    show "na_block s' v = (if block_num_at (na_file s) v = 0 then zero_block
        else fetch (na_file s) (block_num_at (na_file s) v * 4096) BLOCK_SIZE)"
      using na_wfD(4,6) [OF wf owned_I(2) [OF v]] inside [of "block_num_at (na_file s) v * 4096" BLOCK_SIZE]
      by (cases "block_num_at (na_file s) v = 0") (simp_all add: na_block_def s' num [OF v] mult.commute)
  qed
  moreover have "na_get_sequence_number s' = na_get_sequence_number s"
    using na_wfD(1) [OF wf] inside [of 0 8] by (simp add: na_get_sequence_number_def read_sequence_num_def na_pread_def s')
  moreover have "na_inv H s'" using wf' by (simp add: na_inv_def s')
  ultimately show ?thesis using that s'(5,6) tot(2) by simp
qed

section \<open>A commit that is cut in two\<close>

lemma commit_first_committed:
  assumes inv: "na_inv H s" and uw: "na_uncommitted_writes s q = Some uw" and q: "int64_range q"
    and v: "v = H q - H q mod 4096"
  obtains t where "na_commit_first q (H q) s = Some (uw, t)" "na_wf t" "na_size t = na_size s"
    "na_committed t = (\<lambda>x. if v \<le> x \<and> x < v + 4096 then na_volume s x else na_committed s x)"
proof -
  define s0 where "s0 = s\<lparr>na_uncommitted_writes := (na_uncommitted_writes s)(q := None)\<rparr>"
  let ?n = "na_new_file_offset uw ! 0"
  define t where "t = promote q v ?n s0"
  note cf = commit_first_promotes [OF inv uw v s0_def]
  have al: "aligned v" using cf(4) by (simp add: cell_def)
  have wf: "na_wf s" by (rule na_invD(1) [OF inv])
  have f0: "na_file s0 = na_file s" "na_block s0 = na_block s" "owned s0 = owned s" by (simp_all add: s0_def owned_def)
  note t = promote_wf [OF cf(2,3) q, folded t_def, unfolded f0]
  have num: "block_num_at (na_file t) u = (if u = v then ?n else block_num_at (na_file s) u)" if "cell u" for u
    using t(1) [OF that] by (simp add: block_num_at_def)
  have pv: "na_pending_blocks s v = Some ?n" using cf(3) by (simp add: s0_def)
  have no: "?n \<in> owned s" by (rule owned_I(1) [OF pv])
  have data: "fetch (na_file t) (m * 4096) BLOCK_SIZE = fetch (na_file s) (m * 4096) BLOCK_SIZE" if "m \<in> owned s" for m
  proof -
    have "metadata_offset v + 16 \<le> m * 4096"
      using metadata_offset_in(3) [of v] cf(4) na_wfD(4) [OF wf that] by (simp add: cell_def)
    then show ?thesis by (simp add: t_def promote_def f0 fetch_store_other)
  qed
  let ?C = "\<lambda>f u. if block_num_at f u = 0 then zero_block else fetch f (block_num_at f u * 4096) BLOCK_SIZE"
  have blk: "?C (na_file t) u = (if u = v then na_block s v else ?C (na_file s) u)" if "cell u" for u
    using num [OF that] data [OF no] data [OF owned_I(2) [OF that]] na_wfD(4) [OF wf no]
    by (auto simp: na_block_def pv)
  have "na_committed t x = (if v \<le> x \<and> x < v + 4096 then na_volume s x else na_committed s x)" for x
  proof (cases "in_volume x")
    case True
    then have c: "cell (x - x mod 4096)" using block_start [of x] by (simp add: cell_def)
    show ?thesis
      using True blk [OF c] block_start_eq [OF al, of x]
      by (auto simp: na_committed_bytes na_volume_def bytes_of_def)
  qed (simp add: na_committed_bytes na_volume_def bytes_of_def)
  then show ?thesis
    using that [of t] cf(1) t(3) by (simp add: fun_eq_iff t_def promote_def s0_def)
qed

section \<open>A block that is freed twice\<close>

text \<open>What an aligned write and its commit do, whatever the state of the free list.\<close>

definition put_state :: "block \<Rightarrow> int \<Rightarrow> int \<Rightarrow> int \<Rightarrow> na_storage \<Rightarrow> na_storage" where
  "put_state buf off q n s = s\<lparr>na_file := store (take BLOCK_SIZE buf) (n * 4096) (na_file s),
     na_size := max (na_size s) (n * 4096 + 4096), na_pending_blocks := (na_pending_blocks s)(off \<mapsto> n),
     na_uncommitted_writes := (na_uncommitted_writes s)(q \<mapsto>
       \<lparr>na_to_free = old_block (entry_at (na_file s) off), na_new_file_offset = [n, 0]\<rparr>)\<rparr>"

lemma na_write_exec:
  assumes c: "cell off" and size: "4096 * (table_blocks + 1) \<le> na_size s" and len: "BLOCK_SIZE \<le> length buf"
    and g: "na_get_free_block_num s = Some (n, s1)" "0 \<le> n"
  shows "na_write buf off q s = Some (put_state buf off q n s1)"
proof -
  have s1: "na_file s1 = na_file s" "na_size s1 = na_size s"
    using g(1) by (auto simp: na_get_free_block_num_def split: list.splits if_splits)
  have "off smod 4096 = 0" using c by (simp add: cell_def in_volume_def aligned_def smod_nonneg)
  moreover have "na_read_metadata s1 None off = Some (entry_at (na_file s1) off)"
    using read_metadata_in [of s1 off] c size s1 by (simp add: cell_def)
  ultimately show ?thesis
    using g len by (simp add: na_write_def na_write_block_def na_pwrite_def put_state_def)
qed

definition committed_put :: "int \<Rightarrow> int \<Rightarrow> int \<Rightarrow> int list \<Rightarrow> na_storage \<Rightarrow> na_storage" where
  "committed_put q off n fr s = s\<lparr>na_uncommitted_writes := (na_uncommitted_writes s)(q := None),
     na_pending_blocks := (na_pending_blocks s)(off := None),
     na_file := store (le_bytes 8 q) 0
       (store (entry_bytes \<lparr>na_last_updated = q, na_file_block_num = n\<rparr>) (metadata_offset off) (na_file s)),
     na_free_blocks := na_free_blocks s @ fr\<rparr>"

lemma na_commit_exec:
  assumes c: "cell off" and size: "4096 * (table_blocks + 1) \<le> na_size s"
    and uw: "na_uncommitted_writes s q = Some \<lparr>na_to_free = fr, na_new_file_offset = [n, 0]\<rparr>"
  shows "na_commit q off s = Some (committed_put q off n fr s)"
proof -
  have v: "in_volume off" and "off smod 4096 = 0"
    using c by (simp_all add: cell_def in_volume_def aligned_def smod_nonneg)
  moreover have "\<not> metadata_offset off < 0" "metadata_offset off + 16 \<le> na_size s"
    using metadata_offset_in [OF v] size by linarith+
  ultimately show ?thesis
    using uw size by (simp add: na_commit_def na_commit_first_def na_commit_second_def na_write_metadata_def na_pwrite_def
        set_sequence_num_def committed_put_def Let_def max_absorb1)
qed

lemma put_state_fields [simp]:
  "na_free_blocks (put_state buf off q n s) = na_free_blocks s" "na_num_total_blocks (put_state buf off q n s) = na_num_total_blocks s"
  "na_size (put_state buf off q n s) = max (na_size s) (n * 4096 + 4096)"
  "na_pending_blocks (put_state buf off q n s) = (na_pending_blocks s)(off \<mapsto> n)"
  "na_uncommitted_writes (put_state buf off q n s) = (na_uncommitted_writes s)(q \<mapsto>
       \<lparr>na_to_free = old_block (entry_at (na_file s) off), na_new_file_offset = [n, 0]\<rparr>)"
  by (simp_all add: put_state_def)

lemma committed_put_fields [simp]:
  "na_free_blocks (committed_put q off n fr s) = na_free_blocks s @ fr" "na_num_total_blocks (committed_put q off n fr s) = na_num_total_blocks s"
  "na_size (committed_put q off n fr s) = na_size s" "na_pending_blocks (committed_put q off n fr s) = (na_pending_blocks s)(off := None)"
  "na_uncommitted_writes (committed_put q off n fr s) = (na_uncommitted_writes s)(q := None)"
  by (simp_all add: committed_put_def)

lemma two_writes_free_twice:
  assumes size: "4096 * (table_blocks + 1) \<le> na_size s" and fb: "na_free_blocks s = []"
    and tot: "table_blocks \<le> na_num_total_blocks s" "na_num_total_blocks s + 2 < 2 ^ 31"
    and v: "cell v" "block_num_at (na_file s) v = n" "n \<noteq> 0" and len: "BLOCK_SIZE \<le> length b1" "BLOCK_SIZE \<le> length b2"
    and q: "q1 \<noteq> q2"
  obtains s' where "do { s \<leftarrow> na_write b1 v q1 s; s \<leftarrow> na_write b2 v q2 s; s \<leftarrow> na_commit q1 v s; na_commit q2 v s } = Some s'"
    "na_free_blocks s' = [n, n]" "na_size s \<le> na_size s'"
proof -
  let ?k = "na_num_total_blocks s"
  define s1 where "s1 = put_state b1 v q1 (?k + 1) (s\<lparr>na_num_total_blocks := ?k + 1\<rparr>)"
  define s2 where "s2 = put_state b2 v q2 (?k + 2) (s1\<lparr>na_num_total_blocks := ?k + 2\<rparr>)"
  have g1: "na_get_free_block_num s = Some (?k + 1, s\<lparr>na_num_total_blocks := ?k + 1\<rparr>)"
    using fb tot by (simp add: na_get_free_block_num_def)
  have w1: "na_write b1 v q1 s = Some s1"
    unfolding s1_def using tot by (intro na_write_exec [OF v(1) size len(1) g1]) simp
  have g2: "na_get_free_block_num s1 = Some (?k + 2, s1\<lparr>na_num_total_blocks := ?k + 2\<rparr>)"
    using fb tot by (simp add: na_get_free_block_num_def s1_def add.commute)
  have z1: "4096 * (table_blocks + 1) \<le> na_size s1" using size by (simp add: s1_def)
  have w2: "na_write b2 v q2 s1 = Some s2"
    unfolding s2_def using tot by (intro na_write_exec [OF v(1) z1 len(2) g2]) simp
  have e1: "entry_at (na_file s1) v = entry_at (na_file s) v"
    using entry_at_store_outside [OF v(1), of "(?k + 1) * 4096" "take BLOCK_SIZE b1"] tot by (simp add: s1_def put_state_def)
  have old: "old_block (entry_at (na_file s) v) = [n]" using v(2,3) by (simp add: old_block_def block_num_at_def)
  have u: "na_uncommitted_writes s2 q1 = Some \<lparr>na_to_free = [n], na_new_file_offset = [?k + 1, 0]\<rparr>"
    "na_uncommitted_writes s2 q2 = Some \<lparr>na_to_free = [n], na_new_file_offset = [?k + 2, 0]\<rparr>"
    using q old e1 by (simp_all add: s2_def) (simp add: s1_def)
  have z2: "4096 * (table_blocks + 1) \<le> na_size s2" using z1 by (simp add: s2_def)
  define s3 where "s3 = committed_put q1 v (?k + 1) [n] s2"
  have c1: "na_commit q1 v s2 = Some s3" unfolding s3_def by (rule na_commit_exec [OF v(1) z2 u(1)])
  have c2: "na_commit q2 v s3 = Some (committed_put q2 v (?k + 2) [n] s3)"
    by (rule na_commit_exec [OF v(1)]) (use z2 u(2) q in \<open>simp_all add: s3_def\<close>)
  show ?thesis
  proof (rule that)
    show "do { s \<leftarrow> na_write b1 v q1 s; s \<leftarrow> na_write b2 v q2 s; s \<leftarrow> na_commit q1 v s; na_commit q2 v s } =
        Some (committed_put q2 v (?k + 2) [n] s3)"
      using w1 w2 c1 c2 by simp
  qed (use fb in \<open>simp_all add: s3_def s2_def s1_def\<close>)
qed

lemma shared_block:
  assumes size: "4096 * (table_blocks + 1) \<le> na_size s" and fb: "na_free_blocks s = [n, n]" and n: "0 \<le> n"
    and c: "cell u" "cell w" "u \<noteq> w" and len: "BLOCK_SIZE \<le> length b3" "BLOCK_SIZE \<le> length b4"
  obtains s' where "do { s \<leftarrow> na_write b3 u q3 s; na_write b4 w q4 s } = Some s'" "na_read s' u = Some (take BLOCK_SIZE b4)"
proof -
  define s1 where "s1 = put_state b3 u q3 n (s\<lparr>na_free_blocks := [n]\<rparr>)"
  define s2 where "s2 = put_state b4 w q4 n (s1\<lparr>na_free_blocks := []\<rparr>)"
  have w1: "na_write b3 u q3 s = Some s1"
    unfolding s1_def by (rule na_write_exec [OF c(1) size len(1) _ n]) (simp add: na_get_free_block_num_def fb)
  have z1: "4096 * (table_blocks + 1) \<le> na_size s1" using size by (simp add: s1_def)
  have w2: "na_write b4 w q4 s1 = Some s2"
    unfolding s2_def by (rule na_write_exec [OF c(2) z1 len(2) _ n]) (simp add: na_get_free_block_num_def s1_def)
  have sm: "u smod 4096 = 0" using c(1) by (simp add: cell_def in_volume_def aligned_def smod_nonneg)
  have p: "na_pending_blocks s2 u = Some n" using c(3) by (simp add: s2_def s1_def)
  have f: "fetch (na_file s2) (n * 4096) BLOCK_SIZE = take BLOCK_SIZE b4"
    using len by (simp add: s2_def put_state_def fetch_store_same)
  have "na_read s2 u = Some (take BLOCK_SIZE b4)"
    using sm p f n by (simp add: na_read_def na_read_aligned_def na_read_block_def na_pread_def) (simp add: s2_def)
  then show ?thesis using that w1 w2 by simp
qed

section \<open>Properties\<close>

text \<open>
  C32. A write to the non-atomic volume that touches no block of an uncommitted write returns,
  keeps the invariant, and changes the readable contents in exactly the 4096 bytes written,
  whether it is aligned or not; reads return those contents.
\<close>

theorem na_write_refines:
  assumes "na_inv H s" and "access_ok off" and "BLOCK_SIZE \<le> length buf"
    and "blocks_of off \<inter> dom (na_pending_blocks s) = {}" and "na_num_total_blocks s + 2 < 2 ^ 31"
  shows "\<exists>s'. na_write buf off q s = Some s' \<and> na_inv (H(q := off)) s' \<and>
    na_volume s' = spec_write off buf (na_volume s) \<and> q \<in> dom (na_uncommitted_writes s') \<and>
    (\<forall>x. access_ok x \<longrightarrow> na_read s' x = Some (spec_read x (spec_write off buf (na_volume s))))"
  using na_write_inv [OF assms(1,5,2,3,4)] na_read_volume na_invD(1) by (metis insertI1)

theorem na_write_refines_witness:
  "\<exists>s'. na_write (replicate 4096 7) 100 1 na_new_volume = Some s' \<and> na_inv ((\<lambda>_. 0)(1 := 100)) s' \<and>
    na_volume s' = spec_write 100 (replicate 4096 7) (na_volume na_new_volume) \<and> 1 \<in> dom (na_uncommitted_writes s') \<and>
    (\<forall>x. access_ok x \<longrightarrow> na_read s' x = Some (spec_read x (spec_write 100 (replicate 4096 7) (na_volume na_new_volume))))"
  by (rule na_write_refines [OF na_new_inv])
     (simp_all add: access_ok_def VOLUME_SIZE_def, simp_all add: na_new_volume_def)

text \<open>
  C33. Committing any uncommitted write of the non-atomic volume, in any order, returns, keeps the
  invariant and the readable contents, and makes the write the last committed one.
\<close>

theorem na_commit_refines:
  assumes "na_inv H s" and "q \<in> dom (na_uncommitted_writes s)" and "int64_range q"
  shows "\<exists>s'. na_commit q (H q) s = Some s' \<and> na_inv H s' \<and> na_volume s' = na_volume s \<and>
    na_get_sequence_number s' = Some q \<and> dom (na_uncommitted_writes s') = dom (na_uncommitted_writes s) - {q} \<and>
    (\<forall>x. access_ok x \<longrightarrow> na_read s' x = Some (spec_read x (na_volume s)))"
proof -
  obtain uw where uw: "na_uncommitted_writes s q = Some uw" using assms(2) by blast
  obtain s' where s': "na_commit q (H q) s = Some s'" "na_inv H s'" "na_volume s' = na_volume s"
    "na_get_sequence_number s' = Some q" "na_uncommitted_writes s' = (na_uncommitted_writes s)(q := None)"
    using na_commit_inv [OF assms(1) uw assms(3)] by metis
  then show ?thesis using na_read_volume [OF na_invD(1) [OF s'(2)]] by auto
qed

text \<open>A write at position 100 of a new volume, not yet committed.\<close>

lemma demo_pending:
  obtains s where "na_write (replicate 4096 7) 100 1 na_new_volume = Some s" "na_inv (\<lambda>_. 100) s"
    "1 \<in> dom (na_uncommitted_writes s)" "na_volume s = spec_write 100 (replicate 4096 7) (\<lambda>_. 0)"
    "na_committed s 4096 = 0" "na_size s < 4096 * 2 ^ 30"
proof -
  have ok: "access_ok 100" "blocks_of 100 \<inter> dom (na_pending_blocks na_new_volume) = {}" "na_num_total_blocks na_new_volume + 2 < 2 ^ 31"
    by (simp_all add: access_ok_def VOLUME_SIZE_def na_new_volume_def)
  have "(\<lambda>_. 100)(1 := 100) = (\<lambda>_ :: int. 100 :: int)" by (simp add: fun_upd_idem)
  then obtain s where s: "na_write (replicate 4096 7) 100 1 na_new_volume = Some s" "na_inv (\<lambda>_. 100) s"
      "\<forall>u. cell u \<longrightarrow> entry_at (na_file s) u = entry_at (na_file na_new_volume) u"
      "na_volume s = spec_write 100 (replicate 4096 7) (\<lambda>_. 0)" "1 \<in> dom (na_uncommitted_writes s)"
      "na_num_total_blocks s \<le> na_num_total_blocks na_new_volume + 2"
    using na_write_inv [OF na_new_inv [of "\<lambda>_. 100"] ok(3,1) _ ok(2), of "replicate 4096 7" 1] na_new_zero
    by (metis insertI1 length_replicate order_refl)
  have "cell 4096" by (simp add: cell_def in_volume_def VOLUME_SIZE_def aligned_def)
  then have "block_num_at (na_file s) 4096 = 0" using s(3) by (simp add: block_num_at_def na_new_volume_def entry_at_zero)
  then have "na_committed s 4096 = 0" by (simp add: na_committed_bytes bytes_of_def zero_block_def)
  moreover have "na_size s < 4096 * 2 ^ 30"
    using na_wfD(13) [OF na_invD(1) [OF s(2)]] s(6) by (simp add: na_new_volume_def)
  ultimately show ?thesis using that s by blast
qed

theorem na_commit_refines_witness:
  "\<exists>s s'. na_write (replicate 4096 7) 100 1 na_new_volume = Some s \<and> na_commit 1 100 s = Some s' \<and>
    na_volume s' = spec_write 100 (replicate 4096 7) (\<lambda>_. 0) \<and> na_get_sequence_number s' = Some 1"
proof -
  obtain s where s: "na_write (replicate 4096 7) 100 1 na_new_volume = Some s" "na_inv (\<lambda>_. 100) s"
    "1 \<in> dom (na_uncommitted_writes s)" "na_volume s = spec_write 100 (replicate 4096 7) (\<lambda>_. 0)"
    using demo_pending .
  have "int64_range 1" by (simp add: int64_range_def)
  from na_commit_refines [OF s(2,3) this] s show ?thesis by auto
qed

text \<open>
  C34. A process that stops between two operations loses exactly the uncommitted writes: the volume
  opens again with the committed contents and sequence number. The restarted process finds
  no free block, however many there were, because the search for them starts behind block \<open>2\<^sup>3\<^sup>0\<close>.
\<close>

theorem na_restart_committed:
  assumes "na_inv H s" and "na_size s < 4096 * 2 ^ 30"
  shows "\<exists>s'. na_open_volume (na_new_process (na_file s) (na_size s)) = Some s' \<and> na_inv H' s' \<and>
    na_volume s' = na_committed s \<and> na_get_sequence_number s' = na_get_sequence_number s \<and> na_free_blocks s' = []"
  using na_restart [OF na_invD(1) [OF assms(1)] assms(2)] by metis

theorem na_restart_committed_witness:
  "\<exists>s s'. na_write (replicate 4096 7) 100 1 na_new_volume = Some s \<and> na_volume s 4096 = 7 \<and>
    na_open_volume (na_new_process (na_file s) (na_size s)) = Some s' \<and> na_inv (\<lambda>_. 0) s' \<and> na_volume s' 4096 = 0 \<and>
    na_get_sequence_number s' = na_get_sequence_number s \<and> na_free_blocks s' = []"
proof -
  obtain s where s: "na_write (replicate 4096 7) 100 1 na_new_volume = Some s" "na_inv (\<lambda>_. 100) s"
    "1 \<in> dom (na_uncommitted_writes s)" "na_volume s = spec_write 100 (replicate 4096 7) (\<lambda>_. 0)"
    "na_committed s 4096 = 0" "na_size s < 4096 * 2 ^ 30"
    by (rule demo_pending)
  have "na_volume s 4096 = 7" unfolding s(4) by (simp add: spec_write_def)
  with s(1) na_restart_committed [OF s(2,6), of "\<lambda>_. 0"] s(5) show ?thesis by auto
qed

text \<open>
  C35. The commit of a write that spans two blocks is not atomic: if the process stops between the
  two entries, the restarted process finds the first block as written and everything else as it
  was committed before.
\<close>

theorem na_commit_torn:
  assumes "na_inv H s" and "na_uncommitted_writes s q = Some uw" and "int64_range q" and "na_size s < 4096 * 2 ^ 30"
    and "v = H q - H q mod 4096"
  shows "\<exists>t s'. na_commit_first q (H q) s = Some (uw, t) \<and>
    na_open_volume (na_new_process (na_file t) (na_size t)) = Some s' \<and>
    na_volume s' = (\<lambda>x. if v \<le> x \<and> x < v + 4096 then na_volume s x else na_committed s x)"
proof -
  obtain t where t: "na_commit_first q (H q) s = Some (uw, t)" "na_wf t" "na_size t = na_size s"
    "na_committed t = (\<lambda>x. if v \<le> x \<and> x < v + 4096 then na_volume s x else na_committed s x)"
    using commit_first_committed [OF assms(1-3,5)] .
  obtain s' where "na_open_volume (na_new_process (na_file t) (na_size t)) = Some s'" "na_volume s' = na_committed t"
    using na_restart [OF t(2)] t(3) assms(4) by metis
  then show ?thesis using t by auto
qed

theorem na_commit_torn_witness:
  "\<exists>s uw t s'. na_write (replicate 4096 7) 100 1 na_new_volume = Some s \<and> na_commit_first 1 100 s = Some (uw, t) \<and>
    na_open_volume (na_new_process (na_file t) (na_size t)) = Some s' \<and> na_volume s' 4095 = 7 \<and> na_volume s' 4096 = 0"
proof -
  obtain s where s: "na_write (replicate 4096 7) 100 1 na_new_volume = Some s" "na_inv (\<lambda>_. 100) s"
    "1 \<in> dom (na_uncommitted_writes s)" "na_volume s = spec_write 100 (replicate 4096 7) (\<lambda>_. 0)"
    "na_committed s 4096 = 0" "na_size s < 4096 * 2 ^ 30"
    by (rule demo_pending)
  then obtain uw where uw: "na_uncommitted_writes s 1 = Some uw" by blast
  have "int64_range 1" by (simp add: int64_range_def)
  from na_commit_torn [OF s(2) uw this s(6) refl] s(1,4,5) show ?thesis
    by (auto simp: spec_write_def)
qed

text \<open>
  C36. Two writes to one block that are uncommitted at the same time free the old block twice. The
  next two writes then share it: the first of them reads back as the second.
\<close>

theorem na_double_free:
  assumes "na_inv H s" and "na_free_blocks s = []" and "na_num_total_blocks s + 2 < 2 ^ 31"
    and "cell v" and "block_num_at (na_file s) v \<noteq> 0" and "cell u" and "cell w" and "u \<noteq> w" and "q1 \<noteq> q2"
    and "\<forall>b \<in> {b1, b2, b3, b4}. BLOCK_SIZE \<le> length b"
  shows "\<exists>s' s''. do { s \<leftarrow> na_write b1 v q1 s; s \<leftarrow> na_write b2 v q2 s; s \<leftarrow> na_commit q1 v s; na_commit q2 v s } = Some s' \<and>
    do { s \<leftarrow> na_write b3 u q3 s'; na_write b4 w q4 s } = Some s'' \<and> na_read s'' u = Some (take BLOCK_SIZE b4)"
proof -
  note wf = na_wfD [OF na_invD(1) [OF assms(1)]]
  let ?n = "block_num_at (na_file s) v"
  have len: "BLOCK_SIZE \<le> length b1" "BLOCK_SIZE \<le> length b2" "BLOCK_SIZE \<le> length b3" "BLOCK_SIZE \<le> length b4"
    using assms(10) by simp_all
  have tot: "table_blocks \<le> na_num_total_blocks s" using wf(2) by simp
  obtain s' where s': "do { s \<leftarrow> na_write b1 v q1 s; s \<leftarrow> na_write b2 v q2 s; s \<leftarrow> na_commit q1 v s; na_commit q2 v s } = Some s'"
    "na_free_blocks s' = [?n, ?n]" "na_size s \<le> na_size s'"
    using two_writes_free_twice [OF wf(1) assms(2) tot assms(3,4) refl assms(5) len(1,2) assms(9)] .
  have z: "4096 * (table_blocks + 1) \<le> na_size s'" using wf(1) s'(3) by simp
  have n: "0 \<le> ?n" using wf(4) [OF owned_I(2) [OF assms(4,5)]] by simp
  show ?thesis using s'(1) shared_block [OF z s'(2) n assms(6-8) len(3,4)] by metis
qed

theorem na_double_free_witness:
  "\<exists>s s' s''. do { s \<leftarrow> na_write (replicate 4096 1) 0 1 na_new_volume; na_commit 1 0 s } = Some s \<and>
    do { s \<leftarrow> na_write (replicate 4096 2) 0 2 s; s \<leftarrow> na_write (replicate 4096 3) 0 3 s; s \<leftarrow> na_commit 2 0 s; na_commit 3 0 s } = Some s' \<and>
    do { s \<leftarrow> na_write (replicate 4096 4) 4096 4 s'; na_write (replicate 4096 5) 8192 5 s } = Some s'' \<and>
    na_read s'' 4096 = Some (replicate 4096 5)"
proof -
  have c: "cell 0" "cell 4096" "cell 8192" by (simp_all add: cell_def in_volume_def VOLUME_SIZE_def aligned_def)
  define s1 where "s1 = put_state (replicate 4096 1) 0 1 262146 (na_new_volume\<lparr>na_num_total_blocks := 262146\<rparr>)"
  define s where "s = committed_put 1 0 262146 [] s1"
  have g: "na_get_free_block_num na_new_volume = Some (262146, na_new_volume\<lparr>na_num_total_blocks := 262146\<rparr>)"
    by (simp add: na_get_free_block_num_def na_new_volume_def)
  have w: "na_write (replicate 4096 1) 0 1 na_new_volume = Some s1"
    unfolding s1_def by (rule na_write_exec [OF c(1) _ _ g]) (simp_all add: na_new_volume_def)
  have m: "na_commit 1 0 s1 = Some s"
    unfolding s_def by (rule na_commit_exec [OF c(1)])
      (simp_all add: s1_def na_new_volume_def entry_at_zero old_block_def)
  have i: "na_inv (\<lambda>_. 0) s"
  proof -
    have "access_ok 0" "BLOCK_SIZE \<le> length (replicate 4096 (1 :: byte))" "int64_range 1"
      by (simp_all add: access_ok_def VOLUME_SIZE_def int64_range_def)
    moreover have "blocks_of 0 \<inter> dom (na_pending_blocks na_new_volume) = {}" "na_num_total_blocks na_new_volume + 2 < 2 ^ 31"
      by (simp_all add: na_new_volume_def)
    moreover have "(\<lambda>_. 0)(1 := 0) = (\<lambda>_ :: int. 0 :: int)" by (simp add: fun_upd_idem)
    ultimately have "na_inv (\<lambda>_. 0) s1"
      using na_write_inv [OF na_new_inv [of "\<lambda>_. 0"], of 0 "replicate 4096 1" 1] w by (metis option.inject)
    moreover obtain uw where "na_uncommitted_writes s1 1 = Some uw" by (simp add: s1_def)
    ultimately show ?thesis using na_commit_inv [of "\<lambda>_. 0" s1 1] m \<open>int64_range 1\<close> by (metis option.inject)
  qed
  have e: "entry_at (na_file s) 0 = \<lparr>na_last_updated = 1, na_file_block_num = 262146\<rparr>"
    unfolding s_def committed_put_def
    using entry_at_store_outside [OF c(1), of 0 "le_bytes 8 1"] entry_at_store_table [OF c(1,1), of "\<lparr>na_last_updated = 1, na_file_block_num = 262146\<rparr>"]
    by (simp add: int64_range_def)
  have s: "na_free_blocks s = []" "na_num_total_blocks s + 2 < 2 ^ 31" "block_num_at (na_file s) 0 \<noteq> 0"
    using e by (simp_all add: s_def s1_def na_new_volume_def block_num_at_def)
  have "\<exists>s' s''. do { s \<leftarrow> na_write (replicate 4096 2) 0 2 s; s \<leftarrow> na_write (replicate 4096 3) 0 3 s; s \<leftarrow> na_commit 2 0 s; na_commit 3 0 s } = Some s' \<and>
    do { s \<leftarrow> na_write (replicate 4096 4) 4096 4 s'; na_write (replicate 4096 5) 8192 5 s } = Some s'' \<and>
    na_read s'' 4096 = Some (take BLOCK_SIZE (replicate 4096 5))"
    by (rule na_double_free [OF i s(1,2) c(1) s(3) c(2,3)]) simp_all
  moreover have "do { s \<leftarrow> na_write (replicate 4096 1) 0 1 na_new_volume; na_commit 1 0 s } = Some s" using w m by simp
  ultimately show ?thesis by simp
qed

end
