(* ===== verification/Storage_Tree.thy ===== *)
theory Storage_Tree
  imports Storage
begin

text \<open>
  The metadata tree on disk, independently of how it is built. A raw path is a list of slot
  numbers from the root down: \<open>[]\<close> is the root, \<open>[j]\<close> and \<open>[j, k]\<close> the metadata blocks below it,
  \<open>[j, k, 2l + 1]\<close> the data block of entry \<open>l\<close> and \<open>[j, k, 2l]\<close> that entry's sequence
  number. \<open>addr d r p\<close> is the number found at the end of the path in the tree with root \<open>r\<close>.
  The central lemma \<open>path_copy\<close> says what a tree looks like after some of its blocks have been
  copied to new places and changed there.
\<close>

section \<open>Addresses\<close>

fun addr :: "(int \<Rightarrow> block) \<Rightarrow> int \<Rightarrow> nat list \<Rightarrow> int" where
  "addr d r [] = r"
| "addr d r (i # p) = (if r = 0 then 0 else addr d (get_i64 (d r) i) p)"

lemma addr_zero [simp]: "addr d 0 p = 0"
  by (cases p) auto

lemma addr_snoc: "addr d r (p @ [i]) = (if addr d r p = 0 then 0 else get_i64 (d (addr d r p)) i)"
  by (induction p arbitrary: r) auto

definition raw_path :: "nat list \<Rightarrow> bool" where
  "raw_path p \<longleftrightarrow> length p \<le> 3 \<and> (\<forall>i \<in> set p. i < 512)"

text \<open>The paths that end at a block number.\<close>

definition tree_path :: "nat list \<Rightarrow> bool" where
  "tree_path p \<longleftrightarrow> raw_path p \<and> (length p = 3 \<longrightarrow> odd (last p))"

definition live :: "(int \<Rightarrow> block) \<Rightarrow> int \<Rightarrow> int set" where
  "live d r = {addr d r p |p. tree_path p} - {0}"

definition idx2 :: "int \<Rightarrow> nat" where "idx2 off = nat (get_second_level off)"
definition idx3 :: "int \<Rightarrow> nat" where "idx3 off = nat (get_third_level off)"
definition idx4 :: "int \<Rightarrow> nat" where "idx4 off = nat (get_last_level off)"

definition data_path :: "int \<Rightarrow> nat list" where
  "data_path off = [idx2 off, idx3 off, 2 * idx4 off + 1]"

definition stamp_path :: "int \<Rightarrow> nat list" where
  "stamp_path off = [idx2 off, idx3 off, 2 * idx4 off]"

lemma idx_bounds [simp]: "idx2 off < 512" "idx3 off < 512" "idx4 off < 256"
  using level_bounds [of off] by (simp_all add: idx2_def idx3_def idx4_def)

lemma idx_slot_bounds [simp]: "2 * idx4 off < 512" "Suc (2 * idx4 off) < 512" "2 * idx4 off < 511"
  using idx_bounds(3) [of off] by linarith+

lemma raw_path_simps [simp]:
  "raw_path []" "raw_path [j] \<longleftrightarrow> j < 512" "raw_path [j, k] \<longleftrightarrow> j < 512 \<and> k < 512"
  "raw_path [j, k, l] \<longleftrightarrow> j < 512 \<and> k < 512 \<and> l < 512"
  by (auto simp: raw_path_def)

lemma tree_path_simps [simp]:
  "tree_path []" "tree_path [j] \<longleftrightarrow> j < 512" "tree_path [j, k] \<longleftrightarrow> j < 512 \<and> k < 512"
  "tree_path [j, k, l] \<longleftrightarrow> j < 512 \<and> k < 512 \<and> l < 512 \<and> odd l"
  by (auto simp: tree_path_def)

lemma raw_path_data [simp]: "raw_path (data_path off)" "raw_path (stamp_path off)"
  and tree_path_data [simp]: "tree_path (data_path off)" "\<not> tree_path (stamp_path off)"
  using idx_bounds(3) [of off] by (auto simp: data_path_def stamp_path_def)

lemma raw_path_cases:
  assumes "raw_path p"
  obtains "p = []" | j where "p = [j]" "j < 512" | j k where "p = [j, k]" "j < 512" "k < 512"
  | j k l where "p = [j, k, l]" "j < 512" "k < 512" "l < 512"
proof (cases p)
  case (Cons j q)
  then show thesis
  proof (cases q)
    case (Cons k q')
    with \<open>p = j # q\<close> that(3,4) assms show thesis
      by (cases q') (auto simp: raw_path_def)
  qed (use Cons that(2) assms in \<open>auto simp: raw_path_def\<close>)
qed (use that in auto)

lemma raw_path_snoc: "raw_path (p @ [i]) \<longleftrightarrow> raw_path p \<and> length p \<le> 2 \<and> i < 512"
  by (auto simp: raw_path_def)

lemma tree_path_snocD: "tree_path (p @ [i]) \<Longrightarrow> tree_path p \<and> length p \<le> 2"
  by (auto simp: tree_path_def raw_path_def)

lemma tree_raw [simp]: "tree_path p \<Longrightarrow> raw_path p"
  by (simp add: tree_path_def)

lemma live_I: "tree_path p \<Longrightarrow> addr d r p \<noteq> 0 \<Longrightarrow> addr d r p \<in> live d r"
  by (auto simp: live_def)

lemma meta_live: "raw_path p \<Longrightarrow> length p \<le> 2 \<Longrightarrow> addr d r p \<noteq> 0 \<Longrightarrow> addr d r p \<in> live d r"
  by (rule live_I) (auto simp: tree_path_def)

lemma data_path_inj:
  assumes "in_volume a" "aligned a" "in_volume b" "aligned b"
  shows "data_path a = data_path b \<longleftrightarrow> a = b" "stamp_path a = stamp_path b \<longleftrightarrow> a = b"
  using levels_inj [OF assms] level_bounds [of a] level_bounds [of b]
  by (auto simp: data_path_def stamp_path_def idx2_def idx3_def idx4_def eq_nat_nat_iff)

text \<open>Every data slot of the tree belongs to one block of the volume.\<close>

lemma data_path_surj:
  assumes "j < 512" "k < 512" "l < 256"
  defines "off \<equiv> 4096 * (int l + 256 * (int k + 512 * int j))"
  shows "in_volume off" "aligned off" "data_path off = [j, k, 2 * l + 1]" "stamp_path off = [j, k, 2 * l]"
proof -
  note o = offset_of_indices [of "int j" "int k" "int l"]
  show "in_volume off" "aligned off" using o assms by auto
  show "data_path off = [j, k, 2 * l + 1]" "stamp_path off = [j, k, 2 * l]"
    using o assms by (auto simp: data_path_def stamp_path_def idx2_def idx3_def idx4_def)
qed

section \<open>Frame and copy\<close>

lemma addr_frame:
  assumes "\<And>n. n \<in> live d r \<Longrightarrow> d' n = d n" and "raw_path p"
  shows "addr d' r p = addr d r p"
  using assms(2)
proof (induction p rule: rev_induct)
  case (snoc i p)
  then have p: "raw_path p" "length p \<le> 2" by (simp_all add: raw_path_snoc)
  have IH: "addr d' r p = addr d r p" by (rule snoc.IH [OF p(1)])
  show ?case
  proof (cases "addr d r p = 0")
    case False
    then have "d' (addr d r p) = d (addr d r p)"
      using assms(1) meta_live [OF p] by blast
    then show ?thesis by (simp add: addr_snoc IH)
  qed (simp add: addr_snoc IH)
qed simp

lemma live_frame: "(\<And>n. n \<in> live d r \<Longrightarrow> d' n = d n) \<Longrightarrow> live d' r = live d r"
  using addr_frame [of d r d'] unfolding live_def by (metis (no_types, lifting) tree_raw)

lemma path_copy:
  assumes root: "W [] = Some r'"
    and nonzero: "\<And>p n. W p = Some n \<Longrightarrow> length p \<le> 2 \<Longrightarrow> n \<noteq> 0"
    and copied: "\<And>p n i. W p = Some n \<Longrightarrow> raw_path p \<Longrightarrow> length p \<le> 2 \<Longrightarrow> i < 512 \<Longrightarrow>
        get_i64 (d' n) i = (case W (p @ [i]) of Some v \<Rightarrow> v | None \<Rightarrow> addr d r (p @ [i]))"
    and kept: "\<And>p. W p = None \<Longrightarrow> raw_path p \<Longrightarrow> length p \<le> 2 \<Longrightarrow> addr d r p \<noteq> 0 \<Longrightarrow>
        d' (addr d r p) = d (addr d r p)"
    and closed: "\<And>p i. W p = None \<Longrightarrow> W (p @ [i]) = None"
    and path: "raw_path p"
  shows "addr d' r' p = (case W p of Some v \<Rightarrow> v | None \<Rightarrow> addr d r p)"
  using path
proof (induction p rule: rev_induct)
  case Nil
  then show ?case by (simp add: root)
next
  case (snoc i p)
  then have p: "raw_path p" "length p \<le> 2" "i < 512" by (simp_all add: raw_path_snoc)
  note IH = snoc.IH [OF p(1)]
  show ?case
  proof (cases "W p")
    case (Some n)
    then show ?thesis
      using IH nonzero [OF Some p(2)] copied [OF Some p] by (simp add: addr_snoc)
  next
    case None
    then show ?thesis
      using IH kept [OF None p(1,2)] closed [OF None, of i] by (simp add: addr_snoc)
  qed
qed

section \<open>Well-formed trees\<close>

text \<open>
  No block is reached twice, and every block of the tree is a real block of the file: its
  number is positive and below \<open>bound\<close>.
\<close>

definition wf_tree :: "(int \<Rightarrow> block) \<Rightarrow> int \<Rightarrow> int \<Rightarrow> bool" where
  "wf_tree d bound r \<longleftrightarrow>
     (\<forall>p q. tree_path p \<longrightarrow> tree_path q \<longrightarrow> addr d r p \<noteq> 0 \<longrightarrow> addr d r p = addr d r q \<longrightarrow> p = q)
     \<and> (\<forall>n \<in> live d r. 0 < n \<and> n < bound)"

lemma wf_treeD:
  assumes "wf_tree d bound r"
  shows "tree_path p \<Longrightarrow> tree_path q \<Longrightarrow> addr d r p \<noteq> 0 \<Longrightarrow> addr d r p = addr d r q \<Longrightarrow> p = q"
    and "n \<in> live d r \<Longrightarrow> 0 < n \<and> n < bound"
  using assms unfolding wf_tree_def by blast+

lemma wf_tree_zero [simp]: "wf_tree d bound 0" and live_zero [simp]: "live d 0 = {}"
  by (auto simp: wf_tree_def live_def)

lemma wf_tree_frame:
  assumes "\<And>n. n \<in> live d r \<Longrightarrow> d' n = d n" and "bound \<le> bound'" and "wf_tree d bound r"
  shows "wf_tree d' bound' r"
proof -
  have "addr d' r p = addr d r p" if "tree_path p" for p
    by (rule addr_frame [OF assms(1)]) (simp_all add: that)
  moreover have "live d' r = live d r" by (rule live_frame [OF assms(1)])
  ultimately show ?thesis
    using assms(2,3) unfolding wf_tree_def by (metis order.strict_trans2)
qed

text \<open>The tree after a copy: well-formed if the new numbers are fresh and distinct.\<close>

lemma wf_tree_copy:
  assumes wf: "wf_tree d bound r"
    and copy: "\<And>p. raw_path p \<Longrightarrow> addr d' r' p = (case W p of Some v \<Rightarrow> v | None \<Rightarrow> addr d r p)"
    and inj: "\<And>p q n. tree_path p \<Longrightarrow> tree_path q \<Longrightarrow> W p = Some n \<Longrightarrow> W q = Some n \<Longrightarrow> p = q"
    and fresh: "\<And>p n. tree_path p \<Longrightarrow> W p = Some n \<Longrightarrow> n \<notin> live d r \<and> 0 < n \<and> n < bound'"
    and bound: "bound \<le> bound'"
  shows "wf_tree d' bound' r'"
    and "live d' r' = (live d r - {addr d r p |p. tree_path p \<and> W p \<noteq> None})
           \<union> {n. \<exists>p. tree_path p \<and> W p = Some n}"
proof -
  have a: "addr d' r' p = (case W p of Some v \<Rightarrow> v | None \<Rightarrow> addr d r p)" if "tree_path p" for p
    by (rule copy) (simp add: that)
  have mixed: False if "tree_path p" "tree_path q" "W p = Some n" "W q = None"
      "addr d r q = n" for p q n
    using fresh [OF that(1,3)] live_I [OF that(2), of d r] that(5) by auto
  have "p = q" if t: "tree_path p" "tree_path q" and nz: "addr d' r' p \<noteq> 0"
      and eq: "addr d' r' p = addr d' r' q" for p q
  proof (cases "W p"; cases "W q")
    fix m n assume "W p = Some m" "W q = Some n"
    then show ?thesis using inj [OF t] eq a t by simp
  next
    assume "W p = None" "W q = None"
    then show ?thesis using wf_treeD(1) [OF wf t] nz eq a t by simp
  next
    fix n assume w: "W p = None" "W q = Some n"
    then show ?thesis using mixed [OF t(2,1) w(2,1)] eq a t by simp
  next
    fix n assume w: "W p = Some n" "W q = None"
    then show ?thesis using mixed [OF t w] eq a t by simp
  qed
  moreover have l: "live d' r' = (live d r - {addr d r p |p. tree_path p \<and> W p \<noteq> None})
           \<union> {n. \<exists>p. tree_path p \<and> W p = Some n}" (is "_ = ?L")
  proof
    show "live d' r' \<subseteq> ?L"
    proof
      fix n assume "n \<in> live d' r'"
      then obtain p where p: "tree_path p" "n = addr d' r' p" "n \<noteq> 0" by (auto simp: live_def)
      show "n \<in> ?L"
      proof (cases "W p")
        case None
        then have n: "n = addr d r p" using p a by simp
        have "n \<notin> {addr d r p |p. tree_path p \<and> W p \<noteq> None}"
          using wf_treeD(1) [OF wf p(1)] n p(3) None by auto
        then show ?thesis using live_I [OF p(1)] n p(3) by auto
      next
        case (Some m)
        then show ?thesis using p a by auto
      qed
    qed
    show "?L \<subseteq> live d' r'"
    proof
      fix n assume "n \<in> ?L"
      then consider p where "tree_path p" "W p = Some n"
        | p where "tree_path p" "n = addr d r p" "n \<noteq> 0" "W p = None"
        by (auto simp: live_def)
      then show "n \<in> live d' r'"
      proof cases
        case 1
        then have "addr d' r' p = n" "n \<noteq> 0" using a fresh by force+
        then show ?thesis using live_I [OF 1(1), of d' r'] by simp
      next
        case 2
        then have "addr d' r' p = n" using a by simp
        then show ?thesis using live_I [OF 2(1), of d' r'] 2(3) by simp
      qed
    qed
  qed
  moreover have "0 < n \<and> n < bound'" if "n \<in> live d' r'" for n
    using that wf_treeD(2) [OF wf, of n] fresh bound unfolding l by force
  ultimately show "wf_tree d' bound' r'" and "live d' r' = ?L"
    unfolding wf_tree_def by blast+
qed

end
