(* ===== verification/Storage_Write.thy ===== *)
theory Storage_Write
  imports Storage_Tree
begin

text \<open>
  What \<^verbatim>\<open>write_metadata\<close> and \<^verbatim>\<open>write\<close> do to the tree: allocation of fresh blocks, and the
  copy of the metadata on the path of one block of the volume (aligned writes) or of two
  consecutive blocks (unaligned writes).
\<close>

section \<open>Allocation\<close>

text \<open>The block numbers \<^verbatim>\<open>get_free_block_num\<close> may still hand out.\<close>

definition unalloc :: "storage \<Rightarrow> int set" where
  "unalloc s = {n. n \<in> set (free_blocks s) \<or> num_total_blocks s < n}"

definition wf_free :: "storage \<Rightarrow> bool" where
  "wf_free s \<longleftrightarrow> distinct (free_blocks s) \<and> 0 < num_total_blocks s \<and>
     (\<forall>n \<in> set (free_blocks s). 0 < n \<and> n \<le> num_total_blocks s)"

lemma unalloc_cong:
  "free_blocks s = free_blocks t \<Longrightarrow> num_total_blocks s = num_total_blocks t \<Longrightarrow> unalloc s = unalloc t"
  by (simp add: unalloc_def)

lemma wf_free_cong:
  "free_blocks s = free_blocks t \<Longrightarrow> num_total_blocks s = num_total_blocks t \<Longrightarrow> wf_free s = wf_free t"
  by (simp add: wf_free_def)

lemma unalloc_simps [simp]:
  "unalloc (s\<lparr>disk := d\<rparr>) = unalloc s" "unalloc (s\<lparr>file_blocks := n\<rparr>) = unalloc s"
  "unalloc (s\<lparr>unsynced := u\<rparr>) = unalloc s" "unalloc (s\<lparr>pending_blocks := m\<rparr>) = unalloc s"
  "unalloc (s\<lparr>uncommitted_writes := w\<rparr>) = unalloc s" "unalloc (s\<lparr>first_block := b\<rparr>) = unalloc s"
  "unalloc (s\<lparr>durable := d\<rparr>) = unalloc s" "unalloc (s\<lparr>durable_blocks := n\<rparr>) = unalloc s"
  by (simp_all add: unalloc_def)

lemma wf_free_simps [simp]:
  "wf_free (s\<lparr>disk := d\<rparr>) = wf_free s" "wf_free (s\<lparr>file_blocks := n\<rparr>) = wf_free s"
  "wf_free (s\<lparr>unsynced := u\<rparr>) = wf_free s" "wf_free (s\<lparr>pending_blocks := m\<rparr>) = wf_free s"
  "wf_free (s\<lparr>uncommitted_writes := w\<rparr>) = wf_free s" "wf_free (s\<lparr>first_block := b\<rparr>) = wf_free s"
  "wf_free (s\<lparr>durable := d\<rparr>) = wf_free s" "wf_free (s\<lparr>durable_blocks := n\<rparr>) = wf_free s"
  by (simp_all add: wf_free_def)

lemma unalloc_pos: "wf_free s \<Longrightarrow> n \<in> unalloc s \<Longrightarrow> 0 < n"
  by (auto simp: wf_free_def unalloc_def)

lemma alloc:
  assumes "wf_free s" and "num_total_blocks s + 1 < 2 ^ 31"
  obtains n fb k where "get_free_block_num s = Some (n, s\<lparr>free_blocks := fb, num_total_blocks := k\<rparr>)"
    and "n \<in> unalloc s" and "0 < n" and "n < 2 ^ 31"
    and "unalloc (s\<lparr>free_blocks := fb, num_total_blocks := k\<rparr>) = unalloc s - {n}"
    and "wf_free (s\<lparr>free_blocks := fb, num_total_blocks := k\<rparr>)"
    and "num_total_blocks s \<le> k" and "k \<le> num_total_blocks s + 1"
proof (cases "free_blocks s")
  case Nil
  with assms show thesis
    by (intro that [where n = "num_total_blocks s + 1" and fb = "[]" and k = "num_total_blocks s + 1"])
       (auto simp: get_free_block_num_def unalloc_def wf_free_def)
next
  case (Cons n fb)
  with assms show thesis
    by (intro that [where n = n and fb = fb and k = "num_total_blocks s"])
       (auto simp: get_free_block_num_def unalloc_def wf_free_def)
qed

section \<open>Reading a path\<close>

definition node :: "(int \<Rightarrow> block) \<Rightarrow> int \<Rightarrow> nat list \<Rightarrow> block" where
  "node d r p = (if addr d r p = 0 then zero_block else d (addr d r p))"

lemma get_node: "get_i64 (node d r p) i = addr d r (p @ [i])"
  by (simp add: node_def addr_snoc)

lemma get_node_path:
  "get_i64 (node d r []) i = addr d r [i]" "get_i64 (node d r [j]) i = addr d r [j, i]"
  "get_i64 (node d r [j, k]) i = addr d r [j, k, i]"
  by (simp_all only: get_node append.simps)

lemma is_block_node: "(\<And>n. is_block (d n)) \<Longrightarrow> is_block (node d r p)"
  by (simp add: node_def)

definition path_nums_of :: "(int \<Rightarrow> block) \<Rightarrow> int \<Rightarrow> int \<Rightarrow> path_nums" where
  "path_nums_of d r v = (addr d r [], addr d r [idx2 v], addr d r [idx2 v, idx3 v],
     addr d r (data_path v))"

definition path_blocks_of :: "(int \<Rightarrow> block) \<Rightarrow> int \<Rightarrow> int \<Rightarrow> path_blocks" where
  "path_blocks_of d r v = (node d r [], node d r [idx2 v], node d r [idx2 v, idx3 v])"

lemma read_block_live:
  assumes "wf_tree (disk s) (file_blocks s) r" and "tree_path p" and "addr (disk s) r p \<noteq> 0"
  shows "read_block s b (addr (disk s) r p) = Some (disk s (addr (disk s) r p))"
    and "read_block_fresh s (addr (disk s) r p) = Some (disk s (addr (disk s) r p))"
  using wf_treeD(2) [OF assms(1) live_I [OF assms(2,3)]]
  by (simp_all add: read_block_def read_block_fresh_def)

lemma read_path_wf:
  assumes "wf_tree (disk s) (file_blocks s) r"
  shows "read_path s r v = Some (path_blocks_of (disk s) r v, path_nums_of (disk s) r v)"
proof -
  note rb = read_block_live(1) [OF assms, of _ zero_block]
  show ?thesis
    using rb [of "[]"] rb [of "[idx2 v]"] rb [of "[idx2 v, idx3 v]"]
    by (auto simp: read_path_def path_blocks_of_def path_nums_of_def data_path_def node_def
        indirect_block_def entry_file_block_num_def idx2_def [symmetric] idx3_def [symmetric]
        idx4_def [symmetric] Let_def)
qed

section \<open>Copying the paths of one or two blocks\<close>

text \<open>
  The new addresses a write gives to the paths of two blocks \<open>v0\<close> and \<open>v1\<close> of the volume; an
  aligned write is the case \<open>v0 = v1\<close>. Where the paths share a block, both numbers are equal.
\<close>

fun new_addrs ::
  "int \<Rightarrow> int \<Rightarrow> int \<Rightarrow> int \<times> int \<Rightarrow> int \<times> int \<Rightarrow> int \<times> int \<Rightarrow> int \<Rightarrow> nat list \<Rightarrow> int option" where
  "new_addrs v0 v1 n n1 n2 f q [] = Some n"
| "new_addrs v0 v1 n n1 n2 f q [i] =
     (if i = idx2 v1 then Some (snd n1) else if i = idx2 v0 then Some (fst n1) else None)"
| "new_addrs v0 v1 n n1 n2 f q [i, j] =
     (if i = idx2 v1 \<and> j = idx3 v1 then Some (snd n2)
      else if i = idx2 v0 \<and> j = idx3 v0 then Some (fst n2) else None)"
| "new_addrs v0 v1 n n1 n2 f q (i # j # k # p) =
     (if i # j # k # p = stamp_path v1 then Some q
      else if i # j # k # p = data_path v1 then Some (snd f)
      else if i # j # k # p = stamp_path v0 then Some q
      else if i # j # k # p = data_path v0 then Some (fst f) else None)"

declare new_addrs.simps [simp del]

text \<open>Equal numbers exactly where the two paths share a block.\<close>

definition shares :: "int \<Rightarrow> int \<Rightarrow> int \<times> int \<Rightarrow> int \<times> int \<Rightarrow> int \<times> int \<Rightarrow> bool" where
  "shares v0 v1 n1 n2 f \<longleftrightarrow>
     (fst n1 = snd n1 \<longleftrightarrow> idx2 v0 = idx2 v1) \<and>
     (fst n2 = snd n2 \<longleftrightarrow> idx2 v0 = idx2 v1 \<and> idx3 v0 = idx3 v1) \<and>
     (fst f = snd f \<longleftrightarrow> data_path v0 = data_path v1)"

lemma list_cases_3:
  obtains "p = []" | a where "p = [a]" | a b where "p = [a, b]" | a b c p' where "p = a # b # c # p'"
proof (cases p)
  case (Cons a q)
  then show thesis using that by (cases q; cases "tl q") auto
qed (use that in auto)

lemma new_addrs_closed:
  assumes "new_addrs v0 v1 n n1 n2 f q p = None"
  shows "new_addrs v0 v1 n n1 n2 f q (p @ [i]) = None"
proof -
  consider "p = []" | a where "p = [a]" | a b where "p = [a, b]" | a b c p' where "p = a # b # c # p'"
    by (rule list_cases_3)
  then show ?thesis
    using assms by cases (auto simp: new_addrs.simps data_path_def stamp_path_def split: if_splits)
qed

lemma new_addrs_meta:
  assumes "new_addrs v0 v1 n n1 n2 f q p = Some m" and "length p \<le> 2"
  obtains "p = []" "m = n" | "p = [idx2 v0]" "m = fst n1" | "p = [idx2 v1]" "m = snd n1"
    | "p = [idx2 v0, idx3 v0]" "m = fst n2" | "p = [idx2 v1, idx3 v1]" "m = snd n2"
proof -
  consider "p = []" | a where "p = [a]" | a b where "p = [a, b]"
    using assms(2) by (cases p rule: list_cases_3) auto
  then show thesis
    using assms that by cases (auto simp: new_addrs.simps split: if_splits)
qed

lemma copy_paths:
  fixes d d' r v0 v1 n n1 n2 f q
  assumes W_def: "W = new_addrs v0 v1 n n1 n2 f q"
    and nonzero: "n \<noteq> 0" "fst n1 \<noteq> 0" "snd n1 \<noteq> 0" "fst n2 \<noteq> 0" "snd n2 \<noteq> 0"
    and shares: "shares v0 v1 n1 n2 f"
    and frame: "\<And>m. m \<in> live d r \<Longrightarrow> d' m = d m"
    and root: "\<And>i. i < 512 \<Longrightarrow> get_i64 (d' n) i =
      (case W [i] of Some v \<Rightarrow> v | None \<Rightarrow> addr d r [i])"
    and level1: "\<And>i. i < 512 \<Longrightarrow> get_i64 (d' (fst n1)) i =
      (case W [idx2 v0, i] of Some v \<Rightarrow> v | None \<Rightarrow> addr d r [idx2 v0, i])"
      "\<And>i. i < 512 \<Longrightarrow> get_i64 (d' (snd n1)) i =
      (case W [idx2 v1, i] of Some v \<Rightarrow> v | None \<Rightarrow> addr d r [idx2 v1, i])"
    and level2: "\<And>i. i < 512 \<Longrightarrow> get_i64 (d' (fst n2)) i =
      (case W [idx2 v0, idx3 v0, i] of Some v \<Rightarrow> v | None \<Rightarrow> addr d r [idx2 v0, idx3 v0, i])"
      "\<And>i. i < 512 \<Longrightarrow> get_i64 (d' (snd n2)) i =
      (case W [idx2 v1, idx3 v1, i] of Some v \<Rightarrow> v | None \<Rightarrow> addr d r [idx2 v1, idx3 v1, i])"
    and path: "raw_path p"
  shows "addr d' n p = (case W p of Some v \<Rightarrow> v | None \<Rightarrow> addr d r p)"
proof -
  have a: "W [] = Some n" unfolding W_def by (rule new_addrs.simps)
  have b: "m \<noteq> 0" if "W p = Some m" "length p \<le> 2" for p m
    using that unfolding W_def by (cases rule: new_addrs_meta) (simp_all add: nonzero)
  have c: "get_i64 (d' m) i = (case W (p @ [i]) of Some v \<Rightarrow> v | None \<Rightarrow> addr d r (p @ [i]))"
    if "W p = Some m" "raw_path p" "length p \<le> 2" "i < 512" for p m i
  proof (cases rule: new_addrs_meta [OF that(1) [unfolded W_def] that(3)])
    case 1 then show ?thesis using root [OF that(4)] by (simp only: W_def append.simps)
  next
    case 2 then show ?thesis using level1(1) [OF that(4)] by (simp only: W_def append.simps)
  next
    case 3 then show ?thesis using level1(2) [OF that(4)] by (simp only: W_def append.simps)
  next
    case 4 then show ?thesis using level2(1) [OF that(4)] by (simp only: W_def append.simps)
  next
    case 5 then show ?thesis using level2(2) [OF that(4)] by (simp only: W_def append.simps)
  qed
  have k: "d' (addr d r p) = d (addr d r p)" if "raw_path p" "length p \<le> 2" "addr d r p \<noteq> 0" for p
    by (rule frame [OF meta_live [OF that]])
  have e: "W (p @ [i]) = None" if "W p = None" for p i
    using new_addrs_closed [of v0 v1 n n1 n2 f q p i] that by (simp only: W_def)
  show ?thesis by (rule path_copy [OF a b c k e path])
qed

section \<open>Sequences of block writes\<close>

definition do_writes :: "(int \<times> block) list \<Rightarrow> storage \<Rightarrow> storage" where
  "do_writes ws s = s\<lparr>disk := (\<lambda>n. case map_of (rev ws) n of Some b \<Rightarrow> b | None \<Rightarrow> disk s n),
     file_blocks := fold (\<lambda>w. max (fst w + 1)) ws (file_blocks s), unsynced := unsynced s @ ws\<rparr>"

lemma do_writes_nil [simp]: "do_writes [] s = s"
  by (simp add: do_writes_def)

lemma do_writes_append [simp]: "do_writes ws (do_writes us s) = do_writes (us @ ws) s"
  by (auto simp: do_writes_def map_add_def fun_eq_iff split: option.splits)

lemma do_writes_fields [simp]:
  "unalloc (do_writes ws s) = unalloc s" "wf_free (do_writes ws s) = wf_free s"
  "durable (do_writes ws s) = durable s" "durable_blocks (do_writes ws s) = durable_blocks s"
  "first_block (do_writes ws s) = first_block s" "pending_blocks (do_writes ws s) = pending_blocks s"
  "uncommitted_writes (do_writes ws s) = uncommitted_writes s"
  "unsynced (do_writes ws s) = unsynced s @ ws" "free_blocks (do_writes ws s) = free_blocks s"
  "num_total_blocks (do_writes ws s) = num_total_blocks s"
  by (simp_all add: do_writes_def)

lemma disk_do_writes: "n \<notin> fst ` set ws \<Longrightarrow> disk (do_writes ws s) n = disk s n"
  by (auto simp: do_writes_def map_of_eq_None_iff split: option.splits)
     (metis image_set map_of_eq_None_iff option.distinct(1) set_rev)

lemma fold_max_bounds:
  "(x::int) \<le> fold (\<lambda>w. max (fst w + 1)) ws x"
  "w \<in> set ws \<Longrightarrow> fst w < fold (\<lambda>w. max (fst w + 1)) ws x"
proof (induction ws arbitrary: x)
  case (Cons a ws)
  { case 1 show ?case using Cons.IH(1) [of "max (fst a + 1) x"] by simp
  next
    case 2 then show ?case
      using Cons.IH(2) [of "max (fst a + 1) x"] Cons.IH(1) [of "max (fst a + 1) x"] by auto }
qed simp_all

lemma file_blocks_do_writes:
  "file_blocks s \<le> file_blocks (do_writes ws s)"
  "n \<in> fst ` set ws \<Longrightarrow> n < file_blocks (do_writes ws s)"
  using fold_max_bounds [where ws = ws] by (auto simp: do_writes_def)

lemma is_block_do_writes:
  "(\<And>n. is_block (disk s n)) \<Longrightarrow> \<forall>w \<in> set ws. is_block (snd w) \<Longrightarrow> is_block (disk (do_writes ws s) n)"
  by (force simp: do_writes_def split: option.splits dest!: map_of_SomeD)

lemma write_block_do: "0 \<le> n \<Longrightarrow> write_block b n s = Some (do_writes [(n, b)] s)"
  by (auto simp: write_block_def do_writes_def fun_upd_def fun_eq_iff max.commute
      intro!: arg_cong [where f = "\<lambda>d. s\<lparr>disk := d, file_blocks := _, unsynced := _\<rparr>"])

definition level_writes :: "int \<Rightarrow> int \<Rightarrow> block \<Rightarrow> block \<Rightarrow> int \<times> int \<Rightarrow> (int \<times> block) list" where
  "level_writes o0 o1 b0 b1 n = (fst n, b0) # (if o0 \<noteq> o1 then [(snd n, b1)] else [])"

lemma write_level_do:
  "0 \<le> fst n \<Longrightarrow> (o0 \<noteq> o1 \<Longrightarrow> 0 \<le> snd n) \<Longrightarrow>
   write_level o0 o1 b0 b1 n s = Some (do_writes (level_writes o0 o1 b0 b1 n) s)"
  by (simp add: write_level_def write_block_do level_writes_def)

section \<open>New block numbers\<close>

lemma new_level_two:
  assumes "wf_free s" and "num_total_blocks s + 2 < 2 ^ 31" and "rem \<noteq> 0"
  obtains n fb k where "new_level rem o0 o1 junk s = Some (n, s\<lparr>free_blocks := fb, num_total_blocks := k\<rparr>)"
    and "fst n \<in> unalloc s" "snd n \<in> unalloc s" "fst n = snd n \<longleftrightarrow> o0 = o1"
    and "fst n < 2 ^ 31" "snd n < 2 ^ 31"
    and "unalloc (s\<lparr>free_blocks := fb, num_total_blocks := k\<rparr>) = unalloc s - {fst n, snd n}"
    and "wf_free (s\<lparr>free_blocks := fb, num_total_blocks := k\<rparr>)"
    and "num_total_blocks s \<le> k" and "k \<le> num_total_blocks s + 2"
proof -
  have room: "num_total_blocks s + 1 < 2 ^ 31" using assms(2) by simp
  obtain n fb k where a: "get_free_block_num s = Some (n, s\<lparr>free_blocks := fb, num_total_blocks := k\<rparr>)"
    "n \<in> unalloc s" "0 < n" "n < 2 ^ 31"
    "unalloc (s\<lparr>free_blocks := fb, num_total_blocks := k\<rparr>) = unalloc s - {n}"
    "wf_free (s\<lparr>free_blocks := fb, num_total_blocks := k\<rparr>)"
    "num_total_blocks s \<le> k" "k \<le> num_total_blocks s + 1"
    using alloc [OF assms(1) room] .
  show thesis
  proof (cases "o0 = o1")
    case True
    with a show thesis by (intro that [where n = "(n, n)" and fb = fb and k = k]) (simp_all add: new_level_def)
  next
    case False
    let ?s = "s\<lparr>free_blocks := fb, num_total_blocks := k\<rparr>"
    have room': "num_total_blocks ?s + 1 < 2 ^ 31" using a(8) assms(2) by simp
    obtain m gb l where b: "get_free_block_num ?s = Some (m, ?s\<lparr>free_blocks := gb, num_total_blocks := l\<rparr>)"
      "m \<in> unalloc ?s" "0 < m" "m < 2 ^ 31"
      "unalloc (?s\<lparr>free_blocks := gb, num_total_blocks := l\<rparr>) = unalloc ?s - {m}"
      "wf_free (?s\<lparr>free_blocks := gb, num_total_blocks := l\<rparr>)"
      "num_total_blocks ?s \<le> l" "l \<le> num_total_blocks ?s + 1"
      using alloc [OF a(6) room'] .
    show thesis
      using False a b assms(3)
      by (intro that [where n = "(n, m)" and fb = gb and k = l]) (auto simp: new_level_def)
  qed
qed

lemma new_level_one:
  assumes "wf_free s" and "num_total_blocks s + 1 < 2 ^ 31"
  obtains n fb k where "new_level 0 o0 o1 junk s =
      Some ((n, if o0 = o1 then n else junk), s\<lparr>free_blocks := fb, num_total_blocks := k\<rparr>)"
    and "n \<in> unalloc s" "n < 2 ^ 31"
    and "unalloc (s\<lparr>free_blocks := fb, num_total_blocks := k\<rparr>) = unalloc s - {n}"
    and "wf_free (s\<lparr>free_blocks := fb, num_total_blocks := k\<rparr>)"
    and "num_total_blocks s \<le> k" and "k \<le> num_total_blocks s + 1"
proof -
  obtain n fb k where a: "get_free_block_num s = Some (n, s\<lparr>free_blocks := fb, num_total_blocks := k\<rparr>)"
    "n \<in> unalloc s" "0 < n" "n < 2 ^ 31"
    "unalloc (s\<lparr>free_blocks := fb, num_total_blocks := k\<rparr>) = unalloc s - {n}"
    "wf_free (s\<lparr>free_blocks := fb, num_total_blocks := k\<rparr>)"
    "num_total_blocks s \<le> k" "k \<le> num_total_blocks s + 1"
    using alloc [OF assms] .
  show thesis using a by (intro that [where n = n and fb = fb and k = k]) (simp_all add: new_level_def)
qed

section \<open>The effect of \<^verbatim>\<open>write_metadata\<close>\<close>

text \<open>
  Allocation of the metadata blocks of both paths: one root, and one or two blocks on each of
  the levels below it.
\<close>

definition allocated :: "storage \<Rightarrow> int \<Rightarrow> int \<times> int \<Rightarrow> int \<times> int \<Rightarrow> storage \<Rightarrow> bool" where
  "allocated s n n1 n2 s' \<longleftrightarrow>
     (let A = {n, fst n1, snd n1, fst n2, snd n2} in
      (\<exists>fb k. s' = s\<lparr>free_blocks := fb, num_total_blocks := k\<rparr> \<and>
        num_total_blocks s \<le> k \<and> k \<le> num_total_blocks s + 5) \<and>
      A \<subseteq> unalloc s \<and> (\<forall>m \<in> A. 0 < m \<and> m < 2 ^ 31) \<and>
      unalloc s' = unalloc s - A \<and> wf_free s' \<and>
      n \<notin> {fst n1, snd n1, fst n2, snd n2} \<and> {fst n1, snd n1} \<inter> {fst n2, snd n2} = {})"

lemma allocatedI:
  assumes "s' = s\<lparr>free_blocks := fb, num_total_blocks := k\<rparr>"
    and "num_total_blocks s \<le> k" and "k \<le> num_total_blocks s + 5"
    and "n \<in> unalloc s" and "{fst n1, snd n1} \<subseteq> unalloc s - {n}"
    and "{fst n2, snd n2} \<subseteq> unalloc s - {n} - {fst n1, snd n1}"
    and "n < 2 ^ 31" "fst n1 < 2 ^ 31" "snd n1 < 2 ^ 31" "fst n2 < 2 ^ 31" "snd n2 < 2 ^ 31"
    and "unalloc s' = unalloc s - {n} - {fst n1, snd n1} - {fst n2, snd n2}"
    and "wf_free s'" and "wf_free s"
  shows "allocated s n n1 n2 s'"
proof -
  let ?A = "{n, fst n1, snd n1, fst n2, snd n2}"
  have sub: "?A \<subseteq> unalloc s" and un: "unalloc s' = unalloc s - ?A"
    and sep: "n \<notin> {fst n1, snd n1, fst n2, snd n2}" "{fst n1, snd n1} \<inter> {fst n2, snd n2} = {}"
    using assms(4-6,12) by blast+
  moreover have "\<forall>m \<in> ?A. 0 < m \<and> m < 2 ^ 31"
    using sub unalloc_pos [OF assms(14)] assms(7-11) by (metis empty_iff insert_iff subsetD)
  ultimately show ?thesis
    unfolding allocated_def Let_def using assms(1-3,13) by blast
qed

lemma new_levels_two:
  assumes wf: "wf_free s" and room: "num_total_blocks s + 5 < 2 ^ 31" and rem: "rem \<noteq> 0"
  obtains n n1 n2 s1 s2 s3
  where "new_level rem 0 0 (junk 0) s = Some ((n, n), s1)"
    and "new_level rem o01 o11 (junk 1) s1 = Some (n1, s2)"
    and "new_level rem o02 o12 (junk 2) s2 = Some (n2, s3)"
    and "allocated s n n1 n2 s3"
    and "fst n1 = snd n1 \<longleftrightarrow> o01 = o11" and "fst n2 = snd n2 \<longleftrightarrow> o02 = o12"
proof -
  have room1: "num_total_blocks s + 1 < 2 ^ 31" using room by simp
  obtain n fb1 k1 where "get_free_block_num s = Some (n, s\<lparr>free_blocks := fb1, num_total_blocks := k1\<rparr>)"
    and n: "n \<in> unalloc s" "0 < n" "n < 2 ^ 31"
    and u1: "unalloc (s\<lparr>free_blocks := fb1, num_total_blocks := k1\<rparr>) = unalloc s - {n}"
    and w1: "wf_free (s\<lparr>free_blocks := fb1, num_total_blocks := k1\<rparr>)"
    and k1: "num_total_blocks s \<le> k1" "k1 \<le> num_total_blocks s + 1"
    using alloc [OF wf room1] .
  then have a: "new_level rem 0 0 (junk 0) s = Some ((n, n), s\<lparr>free_blocks := fb1, num_total_blocks := k1\<rparr>)"
    by (simp add: new_level_def)
  let ?s1 = "s\<lparr>free_blocks := fb1, num_total_blocks := k1\<rparr>"
  have room2: "num_total_blocks ?s1 + 2 < 2 ^ 31" using room k1 by simp
  obtain n1 fb2 k2 where b: "new_level rem o01 o11 (junk 1) ?s1 = Some (n1, ?s1\<lparr>free_blocks := fb2, num_total_blocks := k2\<rparr>)"
    and n1: "fst n1 \<in> unalloc ?s1" "snd n1 \<in> unalloc ?s1" "fst n1 = snd n1 \<longleftrightarrow> o01 = o11"
      "fst n1 < 2 ^ 31" "snd n1 < 2 ^ 31"
    and u2: "unalloc (?s1\<lparr>free_blocks := fb2, num_total_blocks := k2\<rparr>) = unalloc ?s1 - {fst n1, snd n1}"
    and w2: "wf_free (?s1\<lparr>free_blocks := fb2, num_total_blocks := k2\<rparr>)"
    and k2: "num_total_blocks ?s1 \<le> k2" "k2 \<le> num_total_blocks ?s1 + 2"
    using new_level_two [OF w1 room2 rem] .
  let ?s2 = "?s1\<lparr>free_blocks := fb2, num_total_blocks := k2\<rparr>"
  have room3: "num_total_blocks ?s2 + 2 < 2 ^ 31" using room k1 k2 by simp
  obtain n2 fb3 k3 where c: "new_level rem o02 o12 (junk 2) ?s2 = Some (n2, ?s2\<lparr>free_blocks := fb3, num_total_blocks := k3\<rparr>)"
    and n2: "fst n2 \<in> unalloc ?s2" "snd n2 \<in> unalloc ?s2" "fst n2 = snd n2 \<longleftrightarrow> o02 = o12"
      "fst n2 < 2 ^ 31" "snd n2 < 2 ^ 31"
    and u3: "unalloc (?s2\<lparr>free_blocks := fb3, num_total_blocks := k3\<rparr>) = unalloc ?s2 - {fst n2, snd n2}"
    and w3: "wf_free (?s2\<lparr>free_blocks := fb3, num_total_blocks := k3\<rparr>)"
    and k3: "num_total_blocks ?s2 \<le> k3" "k3 \<le> num_total_blocks ?s2 + 2"
    using new_level_two [OF w2 room3 rem] .
  let ?s3 = "?s2\<lparr>free_blocks := fb3, num_total_blocks := k3\<rparr>"
  have "allocated s n n1 n2 ?s3"
  proof (rule allocatedI [where fb = fb3 and k = k3])
    show "?s3 = s\<lparr>free_blocks := fb3, num_total_blocks := k3\<rparr>" by simp
    show "num_total_blocks s \<le> k3" "k3 \<le> num_total_blocks s + 5" using k1 k2 k3 by simp_all
  qed (use n n1 n2 u1 u2 u3 w3 wf in simp_all)
  then show thesis by (rule that [OF a b c _ n1(3) n2(3)])
qed

text \<open>
  The stray second write of an aligned write is harmless if it falls outside the blocks in use
  and those this write allocates. Below the first 1 MiB of the volume there is none.
\<close>

definition stray_ok :: "(nat \<Rightarrow> int) \<Rightarrow> int \<Rightarrow> storage \<Rightarrow> bool" where
  "stray_ok junk off s \<longleftrightarrow> (aligned off \<longrightarrow>
     (get_second_level off \<noteq> 0 \<longrightarrow> num_total_blocks s + 8 < junk 1) \<and>
     (get_third_level off \<noteq> 0 \<longrightarrow> num_total_blocks s + 8 < junk 2))"

lemma new_levels_one:
  assumes wf: "wf_free s" and room: "num_total_blocks s + 5 < 2 ^ 31"
  obtains n n1 n2 s1 s2 s3
  where "new_level 0 0 0 (junk 0) s = Some ((n, n), s1)"
    and "new_level 0 o01 0 (junk 1) s1 = Some ((n1, if o01 = 0 then n1 else junk 1), s2)"
    and "new_level 0 o02 0 (junk 2) s2 = Some ((n2, if o02 = 0 then n2 else junk 2), s3)"
    and "allocated s n (n1, n1) (n2, n2) s3"
proof -
  have room1: "num_total_blocks s + 1 < 2 ^ 31" using room by simp
  obtain n fb1 k1 where a: "new_level 0 0 0 (junk 0) s =
      Some ((n, if (0::int) = 0 then n else junk 0), s\<lparr>free_blocks := fb1, num_total_blocks := k1\<rparr>)"
    and n: "n \<in> unalloc s" "n < 2 ^ 31"
    and u1: "unalloc (s\<lparr>free_blocks := fb1, num_total_blocks := k1\<rparr>) = unalloc s - {n}"
    and w1: "wf_free (s\<lparr>free_blocks := fb1, num_total_blocks := k1\<rparr>)"
    and k1: "num_total_blocks s \<le> k1" "k1 \<le> num_total_blocks s + 1"
    using new_level_one [OF wf room1] .
  let ?s1 = "s\<lparr>free_blocks := fb1, num_total_blocks := k1\<rparr>"
  have room2: "num_total_blocks ?s1 + 1 < 2 ^ 31" using room k1 by simp
  obtain n1 fb2 k2 where b: "new_level 0 o01 0 (junk 1) ?s1 =
      Some ((n1, if o01 = 0 then n1 else junk 1), ?s1\<lparr>free_blocks := fb2, num_total_blocks := k2\<rparr>)"
    and n1: "n1 \<in> unalloc ?s1" "n1 < 2 ^ 31"
    and u2: "unalloc (?s1\<lparr>free_blocks := fb2, num_total_blocks := k2\<rparr>) = unalloc ?s1 - {n1}"
    and w2: "wf_free (?s1\<lparr>free_blocks := fb2, num_total_blocks := k2\<rparr>)"
    and k2: "num_total_blocks ?s1 \<le> k2" "k2 \<le> num_total_blocks ?s1 + 1"
    using new_level_one [OF w1 room2] .
  let ?s2 = "?s1\<lparr>free_blocks := fb2, num_total_blocks := k2\<rparr>"
  have room3: "num_total_blocks ?s2 + 1 < 2 ^ 31" using room k1 k2 by simp
  obtain n2 fb3 k3 where c: "new_level 0 o02 0 (junk 2) ?s2 =
      Some ((n2, if o02 = 0 then n2 else junk 2), ?s2\<lparr>free_blocks := fb3, num_total_blocks := k3\<rparr>)"
    and n2: "n2 \<in> unalloc ?s2" "n2 < 2 ^ 31"
    and u3: "unalloc (?s2\<lparr>free_blocks := fb3, num_total_blocks := k3\<rparr>) = unalloc ?s2 - {n2}"
    and w3: "wf_free (?s2\<lparr>free_blocks := fb3, num_total_blocks := k3\<rparr>)"
    and k3: "num_total_blocks ?s2 \<le> k3" "k3 \<le> num_total_blocks ?s2 + 1"
    using new_level_one [OF w2 room3] .
  let ?s3 = "?s2\<lparr>free_blocks := fb3, num_total_blocks := k3\<rparr>"
  have "allocated s n (n1, n1) (n2, n2) ?s3"
  proof (rule allocatedI [where fb = fb3 and k = k3])
    show "?s3 = s\<lparr>free_blocks := fb3, num_total_blocks := k3\<rparr>" by simp
    show "num_total_blocks s \<le> k3" "k3 \<le> num_total_blocks s + 5" using k1 k2 k3 by simp_all
  qed (use n n1 n2 u1 u2 u3 w3 wf in simp_all)
  then show thesis using that [OF _ b c] a by simp
qed

lemma disk_do_writes_in:
  assumes "(n, b) \<in> set ws" and "\<And>b'. (n, b') \<in> set ws \<Longrightarrow> b' = b"
  shows "disk (do_writes ws s) n = b"
proof (cases "map_of (rev ws) n")
  case None
  then show ?thesis using assms(1) by (auto simp: map_of_eq_None_iff image_iff)
next
  case (Some b')
  then have "(n, b') \<in> set ws" using map_of_SomeD by fastforce
  with Some assms(2) show ?thesis by (simp add: do_writes_def)
qed

lemma level_idx:
  "get_second_level v = int (idx2 v)" "get_third_level v = int (idx3 v)"
  "get_last_level v = int (idx4 v)"
  using level_bounds [of v] by (simp_all add: idx2_def idx3_def idx4_def)

lemma get_set_entry:
  assumes "is_block b" and "l < 256" and "i < 512" and "int64_range fb" and "int64_range q"
  shows "get_i64 (set_entry (int l) fb q b) i =
    (if i = 2 * l then q else if i = 2 * l + 1 then fb else get_i64 b i)"
  using assms by (simp add: set_entry_def codec_simps i64.get_put)

lemma is_block_set_entry: "is_block b \<Longrightarrow> l < 256 \<Longrightarrow> is_block (set_entry (int l) fb q b)"
  by (simp add: set_entry_def codec_simps)

text \<open>
  The relation between the state before and after, for the paths of \<open>v0\<close> and \<open>v1\<close>: some fresh
  blocks are allocated and written, nothing else on disk changes, and the tree below the new
  root differs from the one below \<open>r\<close> in the new addresses only.
\<close>

definition copied ::
  "storage \<Rightarrow> int \<Rightarrow> int \<Rightarrow> int \<Rightarrow> int \<times> int \<Rightarrow> int \<Rightarrow> uncommitted_write \<Rightarrow> storage \<Rightarrow> bool" where
  "copied s r v0 v1 f q uw s' \<longleftrightarrow>
     (\<exists>n n1 n2 ws s1. allocated s n n1 n2 s1 \<and> s' = do_writes ws s1 \<and>
        {n, fst n1, snd n1, fst n2, snd n2} \<subseteq> fst ` set ws \<and> fst ` set ws \<subseteq> unalloc s \<and>
        (\<forall>w \<in> set ws. is_block (snd w)) \<and> shares v0 v1 n1 n2 f \<and>
        uw = \<lparr>to_free = to_free_list (path_nums_of (disk s) r v0)
               (if v0 = v1 then (0, 0, 0, 0) else path_nums_of (disk s) r v1),
              new_metadata_offset = [n, n]\<rparr> \<and>
        (\<forall>p. raw_path p \<longrightarrow> addr (disk s') n p =
           (case new_addrs v0 v1 n n1 n2 f q p of Some v \<Rightarrow> v | None \<Rightarrow> addr (disk s) r p)))"

text \<open>The copied blocks, as \<^verbatim>\<open>write_metadata\<close> fills them.\<close>

definition root_blk where
  "root_blk d r v0 v1 n1 = put_i64 (idx2 v1) (snd n1) (put_i64 (idx2 v0) (fst n1) (node d r []))"

definition mid_blks where
  "mid_blks d r v0 v1 n2 =
     (let b = put_i64 (idx3 v0) (fst n2) (node d r [idx2 v0]) in
      if idx2 v0 = idx2 v1 then (put_i64 (idx3 v1) (snd n2) b, node d r [idx2 v1])
      else (b, put_i64 (idx3 v1) (snd n2) (node d r [idx2 v1])))"

definition leaf_blks where
  "leaf_blks d r v0 v1 f q =
     (let b = set_entry (int (idx4 v0)) (fst f) q (node d r [idx2 v0, idx3 v0]) in
      if idx3 v0 = idx3 v1 then (set_entry (int (idx4 v1)) (snd f) q b, node d r [idx2 v1, idx3 v1])
      else (b, set_entry (int (idx4 v1)) (snd f) q (node d r [idx2 v1, idx3 v1])))"

lemma is_block_blks:
  assumes "\<And>n. is_block (d n)"
  shows "is_block (root_blk d r v0 v1 n1)" "is_block (fst (mid_blks d r v0 v1 n2))"
    "is_block (snd (mid_blks d r v0 v1 n2))" "is_block (fst (leaf_blks d r v0 v1 f q))"
    "is_block (snd (leaf_blks d r v0 v1 f q))"
  using assms
  by (simp_all add: root_blk_def mid_blks_def leaf_blks_def Let_def is_block_node is_block_set_entry)

lemma get_blks:
  assumes b: "\<And>n. is_block (d n)"
    and r: "int64_range (fst n1)" "int64_range (snd n1)" "int64_range (fst n2)" "int64_range (snd n2)"
      "int64_range (fst f)" "int64_range (snd f)" "int64_range q"
    and tree: "idx3 v0 = idx3 v1 \<Longrightarrow> idx2 v0 = idx2 v1"
    and i: "i < 512"
    and W_def: "W = new_addrs v0 v1 n n1 n2 f q"
  shows "get_i64 (root_blk d r v0 v1 n1) i = (case W [i] of Some v \<Rightarrow> v | None \<Rightarrow> addr d r [i])"
    and "get_i64 (fst (mid_blks d r v0 v1 n2)) i =
      (case W [idx2 v0, i] of Some v \<Rightarrow> v | None \<Rightarrow> addr d r [idx2 v0, i])"
    and "idx2 v0 \<noteq> idx2 v1 \<Longrightarrow> get_i64 (snd (mid_blks d r v0 v1 n2)) i =
      (case W [idx2 v1, i] of Some v \<Rightarrow> v | None \<Rightarrow> addr d r [idx2 v1, i])"
    and "get_i64 (fst (leaf_blks d r v0 v1 f q)) i =
      (case W [idx2 v0, idx3 v0, i] of Some v \<Rightarrow> v | None \<Rightarrow> addr d r [idx2 v0, idx3 v0, i])"
    and "idx3 v0 \<noteq> idx3 v1 \<Longrightarrow> get_i64 (snd (leaf_blks d r v0 v1 f q)) i =
      (case W [idx2 v1, idx3 v1, i] of Some v \<Rightarrow> v | None \<Rightarrow> addr d r [idx2 v1, idx3 v1, i])"
proof -
  note nb = is_block_node [of d, OF b]
  show "get_i64 (root_blk d r v0 v1 n1) i = (case W [i] of Some v \<Rightarrow> v | None \<Rightarrow> addr d r [i])"
    using r i by (simp add: root_blk_def W_def new_addrs.simps i64.get_put nb get_node_path)
  show "get_i64 (fst (mid_blks d r v0 v1 n2)) i =
      (case W [idx2 v0, i] of Some v \<Rightarrow> v | None \<Rightarrow> addr d r [idx2 v0, i])"
    and "idx2 v0 \<noteq> idx2 v1 \<Longrightarrow> get_i64 (snd (mid_blks d r v0 v1 n2)) i =
      (case W [idx2 v1, i] of Some v \<Rightarrow> v | None \<Rightarrow> addr d r [idx2 v1, i])"
    using r i by (auto simp: mid_blks_def Let_def W_def new_addrs.simps i64.get_put nb get_node_path)
  show "get_i64 (fst (leaf_blks d r v0 v1 f q)) i =
      (case W [idx2 v0, idx3 v0, i] of Some v \<Rightarrow> v | None \<Rightarrow> addr d r [idx2 v0, idx3 v0, i])"
    using r i tree
    by (cases "idx3 v0 = idx3 v1")
       (simp_all add: leaf_blks_def Let_def W_def new_addrs.simps get_set_entry nb get_node_path
         is_block_set_entry stamp_path_def data_path_def)
  show "get_i64 (snd (leaf_blks d r v0 v1 f q)) i =
      (case W [idx2 v1, idx3 v1, i] of Some v \<Rightarrow> v | None \<Rightarrow> addr d r [idx2 v1, idx3 v1, i])"
    if "idx3 v0 \<noteq> idx3 v1"
    using r i that
    by (simp add: leaf_blks_def Let_def W_def new_addrs.simps get_set_entry nb get_node_path
         stamp_path_def data_path_def)
qed

end
