(* ===== verification/Storage_Effect.thy ===== *)
theory Storage_Effect
  imports Storage_Write
begin

text \<open>
  The effect of \<^verbatim>\<open>write_metadata\<close> and of \<^verbatim>\<open>write\<close>: both return, and the new tree is the old
  one with the addresses on one or two paths replaced (relation \<open>copied\<close>).
\<close>

section \<open>Storing the same value twice\<close>

lemma put_put_same: "is_block b \<Longrightarrow> i < 512 \<Longrightarrow> put_i64 i v (put_i64 i w b) = put_i64 i v b"
  by (simp add: put_i64_def is_block_def)

lemma put_put_swap:
  assumes "is_block b" "i < 512" "j < 512" "i \<noteq> j"
  shows "put_i64 i v (put_i64 j w b) = put_i64 j w (put_i64 i v b)"
proof (rule nth_equalityI)
  show "length (put_i64 i v (put_i64 j w b)) = length (put_i64 j w (put_i64 i v b))"
    using assms is_block_put by (simp add: is_block_def)
  fix k assume "k < length (put_i64 i v (put_i64 j w b))"
  then have "k < 4096" using assms is_block_put by (simp add: is_block_def)
  then show "put_i64 i v (put_i64 j w b) ! k = put_i64 j w (put_i64 i v b) ! k"
    using assms by (auto simp: nth_put_i64 is_block_put)
qed

lemma set_entry_twice:
  assumes "is_block b" and "l < 256"
  shows "set_entry (int l) v q (set_entry (int l) v q b) = set_entry (int l) v q b"
  using assms put_put_swap [of "put_i64 (2 * l + 1) v b" "2 * l + 1" "2 * l" v q]
  by (simp add: set_entry_def codec_simps put_put_same)

section \<open>\<^verbatim>\<open>write_metadata\<close>\<close>

lemma node_frame: "disk s1 = disk s \<Longrightarrow> node (disk s1) r p = node (disk s) r p"
  by simp

lemma int64_range_block: "0 < n \<Longrightarrow> n < 2 ^ 31 \<Longrightarrow> int64_range n"
  by (simp add: int64_range_def)

lemma allocatedD:
  assumes "allocated s n n1 n2 s'"
  shows "{n, fst n1, snd n1, fst n2, snd n2} \<subseteq> unalloc s"
    and "m \<in> {n, fst n1, snd n1, fst n2, snd n2} \<Longrightarrow> 0 < m \<and> m < 2 ^ 31"
    and "unalloc s' = unalloc s - {n, fst n1, snd n1, fst n2, snd n2}" and "wf_free s'"
    and "n \<notin> {fst n1, snd n1, fst n2, snd n2}" and "{fst n1, snd n1} \<inter> {fst n2, snd n2} = {}"
    and "num_total_blocks s \<le> num_total_blocks s'" "num_total_blocks s' \<le> num_total_blocks s + 5"
    and "disk s' = disk s" "file_blocks s' = file_blocks s" "durable s' = durable s"
      "durable_blocks s' = durable_blocks s" "unsynced s' = unsynced s" "first_block s' = first_block s"
      "uncommitted_writes s' = uncommitted_writes s" "pending_blocks s' = pending_blocks s"
proof -
  obtain fb k where s': "s' = s\<lparr>free_blocks := fb, num_total_blocks := k\<rparr>"
    and k: "num_total_blocks s \<le> k" "k \<le> num_total_blocks s + 5"
    using assms unfolding allocated_def Let_def by (elim conjE exE)
  show "0 < m \<and> m < 2 ^ 31" if "m \<in> {n, fst n1, snd n1, fst n2, snd n2}"
    using assms that unfolding allocated_def Let_def by (elim conjE) (rule bspec)
  show "{n, fst n1, snd n1, fst n2, snd n2} \<subseteq> unalloc s"
    and "unalloc s' = unalloc s - {n, fst n1, snd n1, fst n2, snd n2}" and "wf_free s'"
    and "n \<notin> {fst n1, snd n1, fst n2, snd n2}" and "{fst n1, snd n1} \<inter> {fst n2, snd n2} = {}"
    using assms unfolding allocated_def Let_def by - (elim conjE, assumption)+
  show "num_total_blocks s \<le> num_total_blocks s'" "num_total_blocks s' \<le> num_total_blocks s + 5"
    "disk s' = disk s" "file_blocks s' = file_blocks s" "durable s' = durable s"
    "durable_blocks s' = durable_blocks s" "unsynced s' = unsynced s" "first_block s' = first_block s"
    "uncommitted_writes s' = uncommitted_writes s" "pending_blocks s' = pending_blocks s"
    by (simp_all add: s' k)
qed

lemma allocated_range:
  assumes "allocated s n n1 n2 s'"
  shows "int64_range (fst n1)" "int64_range (snd n1)" "int64_range (fst n2)" "int64_range (snd n2)"
  using allocatedD(2) [OF assms] by (simp_all add: int64_range_block)

lemma allocated_bound:
  assumes "allocated s n n1 n2 s'" and "m \<in> {n, fst n1, snd n1, fst n2, snd n2}"
  shows "m \<le> num_total_blocks s + 5"
proof -
  have "m \<notin> unalloc s'" using allocatedD(3) [OF assms(1)] assms(2) by simp
  then show ?thesis using allocatedD(8) [OF assms(1)] by (simp add: unalloc_def)
qed

text \<open>
  Any sequence of writes to unallocated blocks that puts the copied blocks at their new numbers
  gives the copied tree.
\<close>

lemma copied_of_writes:
  fixes s r v0 v1 n n1 n2 f q ws s1
  defines "s' \<equiv> do_writes ws s1"
  assumes al: "allocated s n n1 n2 s1"
    and keys: "fst ` set ws \<subseteq> unalloc s" and blocks: "\<forall>w \<in> set ws. is_block (snd w)"
    and sh: "shares v0 v1 n1 n2 f"
    and root: "disk s' n = root_blk (disk s) r v0 v1 n1" "n \<in> fst ` set ws"
    and mid: "disk s' (fst n1) = fst (mid_blks (disk s) r v0 v1 n2)" "fst n1 \<in> fst ` set ws"
      "idx2 v0 \<noteq> idx2 v1 \<Longrightarrow> disk s' (snd n1) = snd (mid_blks (disk s) r v0 v1 n2)" "snd n1 \<in> fst ` set ws"
    and leaf: "disk s' (fst n2) = fst (leaf_blks (disk s) r v0 v1 f q)" "fst n2 \<in> fst ` set ws"
      "idx3 v0 \<noteq> idx3 v1 \<Longrightarrow> disk s' (snd n2) = snd (leaf_blks (disk s) r v0 v1 f q)" "snd n2 \<in> fst ` set ws"
    and b: "\<And>n. is_block (disk s n)"
    and rng: "int64_range (fst f)" "int64_range (snd f)" "int64_range q"
    and tree: "idx3 v0 = idx3 v1 \<Longrightarrow> idx2 v0 = idx2 v1"
    and fresh: "live (disk s) r \<inter> unalloc s = {}"
    and uw: "uw = \<lparr>to_free = to_free_list (path_nums_of (disk s) r v0)
               (if v0 = v1 then (0, 0, 0, 0) else path_nums_of (disk s) r v1),
              new_metadata_offset = [n, n]\<rparr>"
  shows "copied s r v0 v1 f q uw s'"
proof -
  define W where "W = new_addrs v0 v1 n n1 n2 f q"
  have sh1: "fst n1 = snd n1 \<longleftrightarrow> idx2 v0 = idx2 v1"
    and sh2: "fst n2 = snd n2 \<longleftrightarrow> idx2 v0 = idx2 v1 \<and> idx3 v0 = idx3 v1"
    using sh by (simp_all add: shares_def)
  have pos: "m \<in> {n, fst n1, snd n1, fst n2, snd n2} \<Longrightarrow> m \<noteq> 0" for m
    using allocatedD(2) [OF al] by force
  have frame: "disk s' m = disk s m" if "m \<in> live (disk s) r" for m
    using that fresh keys disk_do_writes [of m ws s1] allocatedD(9) [OF al] by (auto simp: s'_def)
  note g = get_blks [OF b allocated_range [OF al] rng tree _ W_def]
  have "addr (disk s') n p = (case W p of Some v \<Rightarrow> v | None \<Rightarrow> addr (disk s) r p)"
    if "raw_path p" for p
  proof (rule copy_paths [OF W_def _ _ _ _ _ sh frame _ _ _ _ _ that])
    fix i :: nat assume i: "i < 512"
    show "get_i64 (disk s' n) i = (case W [i] of Some v \<Rightarrow> v | None \<Rightarrow> addr (disk s) r [i])"
      unfolding root(1) by (rule g(1) [OF _ i])
    show m: "get_i64 (disk s' (fst n1)) i =
        (case W [idx2 v0, i] of Some v \<Rightarrow> v | None \<Rightarrow> addr (disk s) r [idx2 v0, i])"
      unfolding mid(1) by (rule g(2) [OF _ i])
    show "get_i64 (disk s' (snd n1)) i =
        (case W [idx2 v1, i] of Some v \<Rightarrow> v | None \<Rightarrow> addr (disk s) r [idx2 v1, i])"
    proof (cases "idx2 v0 = idx2 v1")
      case True
      then have "snd n1 = fst n1" "idx2 v1 = idx2 v0" using sh1 by simp_all
      then show ?thesis using m by (simp only:)
    qed (simp add: g(3) [OF _ i] mid(3))
    show l: "get_i64 (disk s' (fst n2)) i =
        (case W [idx2 v0, idx3 v0, i] of Some v \<Rightarrow> v | None \<Rightarrow> addr (disk s) r [idx2 v0, idx3 v0, i])"
      unfolding leaf(1) by (rule g(4) [OF _ i])
    show "get_i64 (disk s' (snd n2)) i =
        (case W [idx2 v1, idx3 v1, i] of Some v \<Rightarrow> v | None \<Rightarrow> addr (disk s) r [idx2 v1, idx3 v1, i])"
    proof (cases "idx3 v0 = idx3 v1")
      case True
      then have "snd n2 = fst n2" "idx3 v1 = idx3 v0" "idx2 v1 = idx2 v0" using sh2 tree by simp_all
      then show ?thesis using l by (simp only:)
    qed (simp add: g(5) [OF _ i] leaf(3))
  qed (use pos in simp_all)
  then show ?thesis
    unfolding copied_def W_def s'_def
    by (intro exI [of _ n] exI [of _ n1] exI [of _ n2] exI [of _ ws] exI [of _ s1])
       (simp add: al keys blocks sh uw root(2) mid(2,4) leaf(2,4))
qed

definition meta_writes where
  "meta_writes d r v0 v1 n n1 n2 f q =
     level_writes 0 0 (root_blk d r v0 v1 n1) zero_block (n, n)
     @ level_writes (int (idx2 v0)) (int (idx2 v1)) (fst (mid_blks d r v0 v1 n2)) (snd (mid_blks d r v0 v1 n2)) n1
     @ level_writes (int (idx3 v0)) (int (idx3 v1)) (fst (leaf_blks d r v0 v1 f q)) (snd (leaf_blks d r v0 v1 f q)) n2"

lemma level_writes_simps:
  "level_writes o0 o0 b0 b1 n = [(fst n, b0)]"
  "o0 \<noteq> o1 \<Longrightarrow> level_writes o0 o1 b0 b1 n = [(fst n, b0), (snd n, b1)]"
  by (simp_all add: level_writes_def)

lemma meta_writes_blocks:
  assumes "\<And>n. is_block (d n)"
  shows "\<forall>w \<in> set (meta_writes d r v0 v1 n n1 n2 f q). is_block (snd w)"
  by (auto simp: meta_writes_def level_writes_def is_block_blks assms split: if_splits)

text \<open>What the writes leave at each new number, if no other write of the list goes there.\<close>

lemma copied_meta_writes:
  assumes al: "allocated s n n1 n2 s1"
    and ws: "set ws = set (meta_writes (disk s) r v0 v1 n n1 n2 f q) \<union> set us"
    and us: "fst ` set us \<subseteq> unalloc s" "fst ` set us \<inter> {n, fst n1, snd n1, fst n2, snd n2} = {}"
      "\<forall>w \<in> set us. is_block (snd w)"
    and sh: "fst n1 = snd n1 \<longleftrightarrow> idx2 v0 = idx2 v1" "fst n2 = snd n2 \<longleftrightarrow> idx3 v0 = idx3 v1"
      "fst f = snd f \<longleftrightarrow> data_path v0 = data_path v1"
    and b: "\<And>n. is_block (disk s n)"
    and rng: "int64_range (fst f)" "int64_range (snd f)" "int64_range q"
    and tree: "idx3 v0 = idx3 v1 \<Longrightarrow> idx2 v0 = idx2 v1"
    and fresh: "live (disk s) r \<inter> unalloc s = {}"
    and uw: "uw = \<lparr>to_free = to_free_list (path_nums_of (disk s) r v0)
               (if v0 = v1 then (0, 0, 0, 0) else path_nums_of (disk s) r v1),
              new_metadata_offset = [n, n]\<rparr>"
  shows "copied s r v0 v1 f q uw (do_writes ws s1)"
proof (rule copied_of_writes [OF al])
  let ?M = "mid_blks (disk s) r v0 v1 n2" and ?L = "leaf_blks (disk s) r v0 v1 f q"
  note sep = allocatedD(5,6) [OF al]
  have set_ws: "set ws = {(n, root_blk (disk s) r v0 v1 n1), (fst n1, fst ?M), (fst n2, fst ?L)}
      \<union> (if idx2 v0 \<noteq> idx2 v1 then {(snd n1, snd ?M)} else {})
      \<union> (if idx3 v0 \<noteq> idx3 v1 then {(snd n2, snd ?L)} else {}) \<union> set us"
    by (auto simp: ws meta_writes_def level_writes_def)
  have us': "(m, c) \<notin> set us" if "m \<in> {n, fst n1, snd n1, fst n2, snd n2}" for m c
    using us(2) that by force
  show "fst ` set ws \<subseteq> unalloc s"
    using allocatedD(1) [OF al] us(1) unfolding set_ws by auto
  show "\<forall>w \<in> set ws. is_block (snd w)"
    using us(3) meta_writes_blocks [of "disk s" r v0 v1 n n1 n2 f q, OF b] unfolding ws by blast
  show "shares v0 v1 n1 n2 f" using sh tree by (auto simp: shares_def)
  show "n \<in> fst ` set ws" "fst n1 \<in> fst ` set ws" "fst n2 \<in> fst ` set ws" unfolding set_ws by auto
  show "snd n1 \<in> fst ` set ws" "snd n2 \<in> fst ` set ws"
    using sh(1,2) unfolding set_ws by (auto simp: image_iff split: if_splits)
  show "disk (do_writes ws s1) n = root_blk (disk s) r v0 v1 n1"
    by (rule disk_do_writes_in) (use sep us' in \<open>auto simp: set_ws split: if_splits\<close>)
  show "disk (do_writes ws s1) (fst n1) = fst ?M"
    by (rule disk_do_writes_in) (use sep us' sh in \<open>auto simp: set_ws split: if_splits\<close>)
  show "disk (do_writes ws s1) (fst n2) = fst ?L"
    by (rule disk_do_writes_in) (use sep us' sh in \<open>auto simp: set_ws split: if_splits\<close>)
  show "disk (do_writes ws s1) (snd n1) = snd ?M" if "idx2 v0 \<noteq> idx2 v1"
    by (rule disk_do_writes_in) (use sep us' sh that in \<open>auto simp: set_ws split: if_splits\<close>)
  show "disk (do_writes ws s1) (snd n2) = snd ?L" if "idx3 v0 \<noteq> idx3 v1"
    by (rule disk_do_writes_in) (use sep us' sh that in \<open>auto simp: set_ws split: if_splits\<close>)
qed (use b rng tree fresh uw in auto)

lemma write_metadata_unaligned:
  assumes v0_def: "v0 = off - off mod 4096" and v1_def: "v1 = v0 + 4096"
    and wf: "wf_free s" and room: "num_total_blocks s + 5 < 2 ^ 31"
    and b: "\<And>n. is_block (disk s n)"
    and wt: "wf_tree (disk s) (file_blocks s) r" and fresh: "live (disk s) r \<inter> unalloc s = {}"
    and base: "base_root s q 0 v0 = r" "base_root s q 1 v1 = r"
    and rem: "off mod 4096 \<noteq> 0" and vol: "in_volume off" "in_volume v1"
    and rng: "int64_range f0" "int64_range f1" "int64_range q" and f: "f0 \<noteq> f1"
  obtains uw s' where "write_metadata junk q f0 f1 off s = Some (uw, s')"
    and "copied s r v0 v1 (f0, f1) q uw s'"
proof -
  have off: "0 \<le> off" "0 \<le> v0" "aligned v0" "in_volume v0"
    using vol zmod_le_nonneg_dividend [of off 4096]
    by (simp_all add: in_volume_def v0_def v1_def aligned_def mod_simps)
  have v: "v0 \<noteq> v1" "aligned v1" by (simp_all add: v0_def v1_def aligned_def mod_simps)
  have tree: "idx3 v0 = idx3 v1 \<Longrightarrow> idx2 v0 = idx2 v1"
    using next_block_levels(1) [of v0] off vol(2) by (simp add: level_idx v0_def v1_def)
  have smod: "off smod 4096 = off mod 4096" using off(1) by (simp add: smod_nonneg)
  obtain n n1 n2 s1 s2 s3
    where nl: "new_level (off mod 4096) 0 0 (junk 0) s = Some ((n, n), s1)"
      "new_level (off mod 4096) (int (idx2 v0)) (int (idx2 v1)) (junk 1) s1 = Some (n1, s2)"
      "new_level (off mod 4096) (int (idx3 v0)) (int (idx3 v1)) (junk 2) s2 = Some (n2, s3)"
    and al: "allocated s n n1 n2 s3"
    and sh: "fst n1 = snd n1 \<longleftrightarrow> int (idx2 v0) = int (idx2 v1)"
      "fst n2 = snd n2 \<longleftrightarrow> int (idx3 v0) = int (idx3 v1)"
    using new_levels_two [OF wf room rem] .
  define ws where "ws = meta_writes (disk s) r v0 v1 n n1 n2 (f0, f1) q"
  define uw where "uw = \<lparr>to_free = to_free_list (path_nums_of (disk s) r v0)
               (if v0 = v1 then (0, 0, 0, 0) else path_nums_of (disk s) r v1),
              new_metadata_offset = [n, n]\<rparr>"
  have nn: "0 \<le> n" "0 \<le> fst n1" "0 \<le> snd n1" "0 \<le> fst n2" "0 \<le> snd n2"
    using allocatedD(2) [OF al] by force+
  have eq: "write_metadata junk q f0 f1 off s = Some (uw, do_writes ws s3)"
    using nn nl v(1) rem base
    by (cases "idx2 v0 = idx2 v1"; cases "idx3 v0 = idx3 v1")
       (simp_all add: write_metadata_def Let_def smod v0_def [symmetric] v1_def [symmetric]
        level_idx read_path_wf [OF wt] path_blocks_of_def ws_def meta_writes_def uw_def
        write_level_do set_indirect_block_def root_blk_def mid_blks_def leaf_blks_def tree
        level_writes_simps)
  have "data_path v0 \<noteq> data_path v1"
    using data_path_inj(1) [OF off(4,3) vol(2) v(2)] v(1) by simp
  with f have sf: "fst (f0, f1) = snd (f0, f1) \<longleftrightarrow> data_path v0 = data_path v1" by simp
  have "copied s r v0 v1 (f0, f1) q uw (do_writes ws s3)"
    by (rule copied_meta_writes [OF al, where us = "[]"])
       (use sh sf rng b tree fresh in \<open>simp_all add: ws_def uw_def\<close>)
  with eq show thesis by (rule that)
qed

lemma write_metadata_aligned:
  assumes wf: "wf_free s" and room: "num_total_blocks s + 5 < 2 ^ 31"
    and b: "\<And>n. is_block (disk s n)"
    and wt: "wf_tree (disk s) (file_blocks s) r" and fresh: "live (disk s) r \<inter> unalloc s = {}"
    and base: "base_root s q 0 v = r"
    and vol: "in_volume v" "aligned v"
    and rng: "int64_range f0" "int64_range q"
    and stray: "get_second_level v \<noteq> 0 \<Longrightarrow> num_total_blocks s + 5 < junk 1"
      "get_third_level v \<noteq> 0 \<Longrightarrow> num_total_blocks s + 5 < junk 2"
  obtains uw s' where "write_metadata junk q f0 f1 v s = Some (uw, s')"
    and "copied s r v v (f0, f0) q uw s'"
proof -
  have smod: "v smod 4096 = 0" using vol by (simp add: smod_nonneg in_volume_def aligned_def)
  obtain n n1 n2 s1 s2 s3
    where nl: "new_level 0 0 0 (junk 0) s = Some ((n, n), s1)"
      "new_level 0 (int (idx2 v)) 0 (junk 1) s1 = Some ((n1, if int (idx2 v) = 0 then n1 else junk 1), s2)"
      "new_level 0 (int (idx3 v)) 0 (junk 2) s2 = Some ((n2, if int (idx3 v) = 0 then n2 else junk 2), s3)"
    and al: "allocated s n (n1, n1) (n2, n2) s3"
    using new_levels_one [OF wf room] .
  define us where "us = (if idx2 v \<noteq> 0 then [(junk 1, zero_block)] else []) @
    (if idx3 v \<noteq> 0 then [(junk 2, zero_block)] else [])"
  let ?M = "put_i64 (idx3 v) n2 (node (disk s) r [idx2 v])"
    and ?L = "set_entry (int (idx4 v)) f0 q (node (disk s) r [idx2 v, idx3 v])"
  define ws where "ws = level_writes 0 0 (put_i64 (idx2 v) n1 (node (disk s) r [])) zero_block (n, n)
     @ level_writes (int (idx2 v)) 0 ?M zero_block (n1, junk 1)
     @ level_writes (int (idx3 v)) 0 ?L zero_block (n2, junk 2)"
  define uw where "uw = \<lparr>to_free = to_free_list (path_nums_of (disk s) r v) (0, 0, 0, 0),
              new_metadata_offset = [n, n]\<rparr>"
  have nn: "0 \<le> n" "0 \<le> n1" "0 \<le> n2"
    using allocatedD(2) [OF al] by force+
  have total: "0 < num_total_blocks s" using wf by (simp add: wf_free_def)
  have jn: "idx2 v \<noteq> 0 \<Longrightarrow> num_total_blocks s + 5 < junk 1" "idx3 v \<noteq> 0 \<Longrightarrow> num_total_blocks s + 5 < junk 2"
    using stray by (simp_all add: level_idx)
  have j0: "idx2 v \<noteq> 0 \<Longrightarrow> 0 \<le> junk 1" "idx3 v \<noteq> 0 \<Longrightarrow> 0 \<le> junk 2"
    using jn total by simp_all
  have eq: "write_metadata junk q f0 f1 v s = Some (uw, do_writes ws s3)"
    using nn nl base j0
    by (cases "idx2 v = 0"; cases "idx3 v = 0")
       (simp_all add: write_metadata_def Let_def smod level_idx read_path_wf [OF wt]
        path_blocks_of_def ws_def uw_def write_level_do set_indirect_block_def level_writes_simps)
  have "copied s r v v (f0, f0) q uw (do_writes ws s3)"
  proof (rule copied_meta_writes [OF al, where us = us])
    show "set ws = set (meta_writes (disk s) r v v n (n1, n1) (n2, n2) (f0, f0) q) \<union> set us"
      by (auto simp: ws_def us_def meta_writes_def level_writes_def root_blk_def mid_blks_def
          leaf_blks_def Let_def put_put_same set_entry_twice is_block_node b)
    show "fst ` set us \<subseteq> unalloc s"
      using jn unfolding us_def unalloc_def by (auto split: if_splits)
    show "fst ` set us \<inter> {n, fst (n1, n1), snd (n1, n1), fst (n2, n2), snd (n2, n2)} = {}"
      using jn allocated_bound [OF al, of n] allocated_bound [OF al, of n1]
        allocated_bound [OF al, of n2]
      unfolding us_def by (auto split: if_splits)
    show "\<forall>w \<in> set us. is_block (snd w)" unfolding us_def by auto
  qed (use rng b fresh in \<open>simp_all add: uw_def\<close>)
  with eq show thesis by (rule that)
qed

end
