(* ===== verification/Storage_Version.thy ===== *)
theory Storage_Version
  imports Storage_Effect
begin

text \<open>
  From one version of the volume to the next. \<open>grown\<close> says how the file and the allocation
  state develop during a write; \<open>next_version\<close> says how the tree of the new version relates to
  that of the previous one. \<open>storage_write_effect\<close> shows both for \<^verbatim>\<open>write\<close>.
\<close>

section \<open>The new tree\<close>

lemma new_addrs_tree:
  assumes "new_addrs v0 v1 n n1 n2 f q p = Some m" and "tree_path p"
  obtains "p = []" "m = n" | "p = [idx2 v0]" "m = fst n1" | "p = [idx2 v1]" "m = snd n1"
    | "p = [idx2 v0, idx3 v0]" "m = fst n2" | "p = [idx2 v1, idx3 v1]" "m = snd n2"
    | "p = data_path v0" "m = fst f" | "p = data_path v1" "m = snd f"
proof (cases "length p \<le> 2")
  case True
  with assms(1) show thesis by (cases rule: new_addrs_meta) (use that in auto)
next
  case False
  then obtain a b c where p: "p = [a, b, c]"
    using assms(2) by (cases p rule: list_cases_3) (auto simp: tree_path_def raw_path_def)
  have "p \<noteq> stamp_path v0" "p \<noteq> stamp_path v1" using assms(2) by auto
  with assms(1) have "p = data_path v1 \<and> m = snd f \<or> p = data_path v0 \<and> m = fst f"
    unfolding p by (simp add: new_addrs.simps split: if_splits)
  then show thesis using that by blast
qed

text \<open>All addresses on both paths that the new tree no longer uses.\<close>

lemma set_free_pair: "set (free_pair a b) = {a, b} - {0}"
  by (auto simp: free_pair_def)

lemma set_to_free_list:
  "set (to_free_list (a0, a1, a2, a3) (b0, b1, b2, b3)) = {a0, a1, a2, a3, b0, b1, b2, b3} - {0}"
  by (auto simp: set_free_pair)

lemma new_addrs_tree_paths:
  "{p. tree_path p \<and> new_addrs v0 v1 n n1 n2 f q p \<noteq> None} =
     {[], [idx2 v0], [idx2 v1], [idx2 v0, idx3 v0], [idx2 v1, idx3 v1], data_path v0, data_path v1}"
    (is "?L = ?R")
proof
  show "?L \<subseteq> ?R"
  proof
    fix p assume "p \<in> ?L"
    then obtain m where m: "new_addrs v0 v1 n n1 n2 f q p = Some m" "tree_path p" by auto
    then show "p \<in> ?R" by (cases rule: new_addrs_tree) auto
  qed
  show "?R \<subseteq> ?L"
    by (auto simp: new_addrs.simps) (simp_all add: data_path_def new_addrs.simps)
qed

lemma to_free_same:
  "to_free_list (path_nums_of d r v0) (if v0 = v1 then (0, 0, 0, 0) else path_nums_of d r v1) =
   to_free_list (path_nums_of d r v0) (path_nums_of d r v1)"
  by (auto simp: path_nums_of_def free_pair_def)

lemma to_free_paths:
  "set (to_free_list (path_nums_of d r v0) (path_nums_of d r v1)) =
     {addr d r p |p. tree_path p \<and> new_addrs v0 v1 n n1 n2 f q p \<noteq> None} - {0}"
proof -
  have "{addr d r p |p. tree_path p \<and> new_addrs v0 v1 n n1 n2 f q p \<noteq> None} =
      addr d r ` {p. tree_path p \<and> new_addrs v0 v1 n n1 n2 f q p \<noteq> None}" by auto
  then show ?thesis
    unfolding new_addrs_tree_paths path_nums_of_def set_to_free_list by auto
qed

lemma distinct_to_free:
  assumes wf: "wf_tree d bound r"
  shows "distinct (to_free_list (path_nums_of d r v0) (path_nums_of d r v1))"
proof -
  have sep: "addr d r p = 0 \<or> addr d r p \<noteq> addr d r q"
    if "tree_path p" "tree_path q" "length p \<noteq> length q" for p q
    using wf_treeD(1) [OF wf that(1,2)] that(3) by fastforce
  have dp: "distinct (free_pair a b)" for a b by (simp add: free_pair_def)
  have disj: "set (free_pair (addr d r p) (addr d r q)) \<inter> set (free_pair (addr d r p') (addr d r q')) = {}"
    if "tree_path p" "tree_path q" "length q = length p" "tree_path p'" "tree_path q'"
      "length q' = length p'" "length p \<noteq> length p'" for p q p' q'
    using sep [OF that(1,4)] sep [OF that(1,5)] sep [OF that(2,4)] sep [OF that(2,5)] that(3,6,7)
    unfolding set_free_pair by auto
  have "distinct (free_pair (addr d r []) (addr d r []) @
      free_pair (addr d r [idx2 v0]) (addr d r [idx2 v1]) @
      free_pair (addr d r [idx2 v0, idx3 v0]) (addr d r [idx2 v1, idx3 v1]) @
      free_pair (addr d r (data_path v0)) (addr d r (data_path v1)))"
    unfolding distinct_append set_append Int_Un_distrib Un_empty
    by (intro conjI dp disj) (simp_all add: data_path_def)
  then show ?thesis by (simp only: path_nums_of_def to_free_list.simps)
qed

section \<open>Growth of the file\<close>

definition grown :: "int \<Rightarrow> storage \<Rightarrow> storage \<Rightarrow> bool" where
  "grown k s s' \<longleftrightarrow> (\<forall>n. n \<notin> unalloc s \<longrightarrow> disk s' n = disk s n) \<and> unalloc s' \<subseteq> unalloc s \<and>
     wf_free s' \<and> (\<forall>n. is_block (disk s' n)) \<and> file_blocks s \<le> file_blocks s' \<and>
     durable s' = durable s \<and> durable_blocks s' = durable_blocks s \<and> first_block s' = first_block s \<and>
     (\<exists>ws. unsynced s' = unsynced s @ ws \<and> fst ` set ws \<subseteq> unalloc s \<and> (\<forall>w \<in> set ws. is_block (snd w))) \<and>
     num_total_blocks s \<le> num_total_blocks s' \<and> num_total_blocks s' \<le> num_total_blocks s + k"

lemma grownD:
  assumes "grown k s s'"
  shows "n \<notin> unalloc s \<Longrightarrow> disk s' n = disk s n" "unalloc s' \<subseteq> unalloc s" "wf_free s'"
    "is_block (disk s' n)" "file_blocks s \<le> file_blocks s'" "durable s' = durable s"
    "durable_blocks s' = durable_blocks s" "first_block s' = first_block s"
    "num_total_blocks s \<le> num_total_blocks s'" "num_total_blocks s' \<le> num_total_blocks s + k"
  using assms by (simp_all add: grown_def)

lemma grown_trans:
  assumes "grown k s t" and "grown l t u"
  shows "grown (k + l) s u"
proof -
  obtain ws us where "unsynced t = unsynced s @ ws" "fst ` set ws \<subseteq> unalloc s"
    "\<forall>w \<in> set ws. is_block (snd w)"
    "unsynced u = unsynced t @ us" "fst ` set us \<subseteq> unalloc t" "\<forall>w \<in> set us. is_block (snd w)"
    using assms unfolding grown_def by (elim conjE exE)
  then have "\<exists>ws. unsynced u = unsynced s @ ws \<and> fst ` set ws \<subseteq> unalloc s \<and>
      (\<forall>w \<in> set ws. is_block (snd w))"
    using grownD(2) [OF assms(1)] by (intro exI [of _ "ws @ us"]) auto
  moreover have "disk u n = disk s n" if "n \<notin> unalloc s" for n
  proof -
    have "n \<notin> unalloc t" using grownD(2) [OF assms(1)] that by blast
    then show ?thesis using grownD(1) [OF assms(1) that] grownD(1) [OF assms(2)] by simp
  qed
  moreover have "unalloc u \<subseteq> unalloc s"
    using grownD(2) [OF assms(1)] grownD(2) [OF assms(2)] by (rule order_trans [rotated])
  ultimately show ?thesis
    using grownD(5-10) [OF assms(1)] grownD(3-10) [OF assms(2)] by (simp add: grown_def)
qed

lemma grown_writes:
  assumes "s' = do_writes ws s1" and "fst ` set ws \<subseteq> unalloc s" and "\<forall>w \<in> set ws. is_block (snd w)"
    and "disk s1 = disk s" "file_blocks s1 = file_blocks s" "durable s1 = durable s"
      "durable_blocks s1 = durable_blocks s" "unsynced s1 = unsynced s" "first_block s1 = first_block s"
    and "unalloc s1 \<subseteq> unalloc s" "wf_free s1" "num_total_blocks s \<le> num_total_blocks s1"
      "num_total_blocks s1 \<le> num_total_blocks s + k" and "\<And>n. is_block (disk s n)"
  shows "grown k s s'"
proof -
  have "is_block (disk s' n)" for n
    using assms(3,4,14) unfolding assms(1) by (intro is_block_do_writes) simp_all
  moreover have "disk s' n = disk s n" if "n \<notin> unalloc s" for n
    using that assms(2) disk_do_writes [of n ws s1] unfolding assms(1,4) by blast
  ultimately show ?thesis
    using assms file_blocks_do_writes(1) [of s1 ws] by (simp add: grown_def)
qed

section \<open>The relation between two versions\<close>

definition next_version ::
  "storage \<Rightarrow> int \<Rightarrow> int \<Rightarrow> int \<Rightarrow> int \<times> int \<Rightarrow> int \<Rightarrow> uncommitted_write \<Rightarrow> int \<Rightarrow> storage \<Rightarrow> bool" where
  "next_version s r v0 v1 f q uw r' s' \<longleftrightarrow>
     new_metadata_offset uw = [r', r'] \<and> r' \<noteq> 0 \<and> distinct (to_free uw) \<and>
     set (to_free uw) \<subseteq> live (disk s) r \<and> set (to_free uw) \<inter> live (disk s') r' = {} \<and>
     live (disk s') r' \<subseteq> live (disk s) r \<union> unalloc s \<union> {fst f, snd f} \<and>
     live (disk s') r' \<inter> unalloc s' = {} \<and> wf_tree (disk s') (file_blocks s') r' \<and>
     (\<forall>v. in_volume v \<and> aligned v \<longrightarrow>
        addr (disk s') r' (data_path v) =
          (if v = v1 then snd f else if v = v0 then fst f else addr (disk s) r (data_path v)) \<and>
        addr (disk s') r' (stamp_path v) =
          (if v = v1 \<or> v = v0 then q else addr (disk s) r (stamp_path v)))"

lemma data_stamp_ne: "data_path v \<noteq> stamp_path u"
  by (auto simp: data_path_def stamp_path_def) presburger

lemma new_addrs_data:
  assumes "in_volume v0" "aligned v0" "in_volume v1" "aligned v1" "in_volume v" "aligned v"
  shows "new_addrs v0 v1 n n1 n2 f q (data_path v) =
      (if v = v1 then Some (snd f) else if v = v0 then Some (fst f) else None)"
    and "new_addrs v0 v1 n n1 n2 f q (stamp_path v) = (if v = v1 \<or> v = v0 then Some q else None)"
proof -
  have *: "new_addrs v0 v1 n n1 n2 f q p =
     (if p = stamp_path v1 then Some q else if p = data_path v1 then Some (snd f)
      else if p = stamp_path v0 then Some q else if p = data_path v0 then Some (fst f) else None)"
    if "length p = 3" for p
    using that by (cases p rule: list_cases_3) (simp_all add: new_addrs.simps)
  note inj = data_path_inj [OF assms(5,6,3,4)] data_path_inj [OF assms(5,6,1,2)]
  show "new_addrs v0 v1 n n1 n2 f q (data_path v) =
      (if v = v1 then Some (snd f) else if v = v0 then Some (fst f) else None)"
    by (subst *) (simp add: data_path_def, simp add: inj data_stamp_ne)
  show "new_addrs v0 v1 n n1 n2 f q (stamp_path v) = (if v = v1 \<or> v = v0 then Some q else None)"
    by (subst *) (simp add: stamp_path_def, simp add: inj data_stamp_ne [symmetric])
qed

lemma new_addrs_inj:
  assumes "allocated s n n1 n2 s1" and "shares v0 v1 n1 n2 f" and "{fst f, snd f} \<inter> unalloc s = {}"
    and p: "tree_path p" "new_addrs v0 v1 n n1 n2 f q p = Some m"
    and p': "tree_path p'" "new_addrs v0 v1 n n1 n2 f q p' = Some m"
  shows "p = p'"
proof -
  have sep: "n \<notin> {fst n1, snd n1, fst n2, snd n2, fst f, snd f}"
    "{fst n1, snd n1} \<inter> {fst n2, snd n2, fst f, snd f} = {}" "{fst n2, snd n2} \<inter> {fst f, snd f} = {}"
    using allocatedD(1,5,6) [OF assms(1)] assms(3) by blast+
  show ?thesis
    using p(2,1)
  proof (cases rule: new_addrs_tree)
  qed (use p'(2,1) in \<open>cases rule: new_addrs_tree; use sep assms(2) in \<open>auto simp: shares_def\<close>\<close>)+
qed

lemma copied_next:
  assumes c: "copied s r v0 v1 f q uw s'"
    and wf: "wf_tree (disk s) (file_blocks s) r" and fresh: "live (disk s) r \<inter> unalloc s = {}"
    and f: "{fst f, snd f} \<inter> (unalloc s \<union> live (disk s) r) = {}"
      "0 < fst f" "0 < snd f" "fst f < file_blocks s" "snd f < file_blocks s"
    and b: "\<And>n. is_block (disk s n)" and wff: "wf_free s"
    and v: "in_volume v0" "aligned v0" "in_volume v1" "aligned v1"
  shows "grown 5 s s'" and "next_version s r v0 v1 f q uw (new_metadata_offset uw ! 0) s'"
proof -
  obtain n n1 n2 ws s1 where al: "allocated s n n1 n2 s1" and s': "s' = do_writes ws s1"
    and A: "{n, fst n1, snd n1, fst n2, snd n2} \<subseteq> fst ` set ws" and ws: "fst ` set ws \<subseteq> unalloc s"
    and bs: "\<forall>w \<in> set ws. is_block (snd w)" and sh: "shares v0 v1 n1 n2 f"
    and uw: "uw = \<lparr>to_free = to_free_list (path_nums_of (disk s) r v0) (path_nums_of (disk s) r v1),
              new_metadata_offset = [n, n]\<rparr>"
    and copy: "\<And>p. raw_path p \<Longrightarrow> addr (disk s') n p =
           (case new_addrs v0 v1 n n1 n2 f q p of Some v \<Rightarrow> v | None \<Rightarrow> addr (disk s) r p)"
    using c unfolding copied_def to_free_same by metis
  let ?W = "new_addrs v0 v1 n n1 n2 f q" and ?A = "{n, fst n1, snd n1, fst n2, snd n2}"
  have un: "unalloc s' = unalloc s - ?A" unfolding s' do_writes_fields by (rule allocatedD(3) [OF al])
  show "grown 5 s s'"
    by (rule grown_writes [OF s' ws bs]) (use allocatedD [OF al] b in auto)
  have fb: "file_blocks s \<le> file_blocks s'"
    using file_blocks_do_writes(1) [of s1 ws] allocatedD(10) [OF al] by (simp add: s')
  have val: "m \<in> ?A \<union> {fst f, snd f}" if "?W p = Some m" "tree_path p" for p m
    using that by (cases rule: new_addrs_tree) auto
  have inA: "m \<notin> live (disk s) r \<and> 0 < m \<and> m < file_blocks s'" if "m \<in> ?A" for m
  proof -
    have "m \<in> unalloc s" "m \<in> fst ` set ws" using that allocatedD(1) [OF al] A by blast+
    then show ?thesis
      using fresh unalloc_pos [OF wff] file_blocks_do_writes(2) [of m ws s1] by (auto simp: s')
  qed
  have new: "m \<notin> live (disk s) r \<and> 0 < m \<and> m < file_blocks s'" if "tree_path p" "?W p = Some m" for p m
    using val [OF that(2,1)] inA [of m] f fb by auto
  have inj: "p = p'" if "tree_path p" "tree_path p'" "?W p = Some m" "?W p' = Some m" for p p' m
    using new_addrs_inj [OF al sh _ that(1,3,2,4)] f(1) by blast
  have t: "wf_tree (disk s') (file_blocks s') n"
    "live (disk s') n = (live (disk s) r - {addr (disk s) r p |p. tree_path p \<and> ?W p \<noteq> None})
       \<union> {m. \<exists>p. tree_path p \<and> ?W p = Some m}"
    by (rule wf_tree_copy [where W = ?W, OF wf copy inj new fb]; assumption)+
  have tf: "set (to_free uw) = {addr (disk s) r p |p. tree_path p \<and> ?W p \<noteq> None} - {0}"
    unfolding uw uncommitted_write.simps by (rule to_free_paths)
  have wv: "{m. \<exists>p. tree_path p \<and> ?W p = Some m} \<subseteq> ?A \<union> {fst f, snd f}" using val by blast
  have "set (to_free uw) \<subseteq> live (disk s) r" unfolding tf live_def by blast
  moreover have "set (to_free uw) \<inter> live (disk s') n = {}"
    unfolding tf t(2) using new live_I [of _ "disk s" r] by fastforce
  moreover have "live (disk s') n \<subseteq> live (disk s) r \<union> unalloc s \<union> {fst f, snd f}"
    unfolding t(2) using wv allocatedD(1) [OF al] by blast
  moreover have "live (disk s') n \<inter> unalloc s' = {}"
    unfolding t(2) un using wv fresh f(1) by blast
  moreover have "distinct (to_free uw)" by (simp add: uw distinct_to_free [OF wf])
  moreover have "n \<noteq> 0" using inA [of n] by simp
  moreover have "addr (disk s') n (data_path u) =
          (if u = v1 then snd f else if u = v0 then fst f else addr (disk s) r (data_path u))"
    "addr (disk s') n (stamp_path u) = (if u = v1 \<or> u = v0 then q else addr (disk s) r (stamp_path u))"
    if "in_volume u" "aligned u" for u
    using new_addrs_data [OF v that] by (simp_all add: copy)
  ultimately show "next_version s r v0 v1 f q uw (new_metadata_offset uw ! 0) s'"
    using t(1) unfolding next_version_def by (simp add: uw)
qed

end
