(* ===== verification/Storage_Data.thy ===== *)
theory Storage_Data
  imports Storage_Version Byte_Volume
begin

text \<open>
  The data blocks of a write, and reading. \<open>block_at d r v\<close> is the content of the block at
  offset \<open>v\<close> in the version with root \<open>r\<close>; \<open>reads_at\<close> is the condition under which
  \<^verbatim>\<open>read_aligned\<close> returns it: the table of pending blocks covers every difference from the
  committed version.
\<close>

section \<open>Reading\<close>

definition block_at :: "(int \<Rightarrow> block) \<Rightarrow> int \<Rightarrow> int \<Rightarrow> block" where
  "block_at d r v = (if addr d r (data_path v) = 0 then zero_block else d (addr d r (data_path v)))"

lemma is_block_at: "(\<And>n. is_block (d n)) \<Longrightarrow> is_block (block_at d r v)"
  by (simp add: block_at_def)

definition committed_root :: "storage \<Rightarrow> int" where
  "committed_root s = first_level_block s 0"

definition reads_at :: "storage \<Rightarrow> int \<Rightarrow> int \<Rightarrow> bool" where
  "reads_at s r v \<longleftrightarrow>
     (case pending_blocks s v of
        Some b \<Rightarrow> b \<noteq> 0 \<and> b = addr (disk s) r (data_path v)
      | None \<Rightarrow> addr (disk s) (committed_root s) (data_path v) = addr (disk s) r (data_path v))"

lemma read_aligned_committed:
  assumes "wf_tree (disk s) (file_blocks s) (committed_root s)" and "pending_blocks s v = None"
  shows "read_aligned s v = Some (block_at (disk s) (committed_root s) v)"
proof -
  let ?r = "committed_root s"
  note rb = read_block_live [OF assms(1)]
  have "?r \<noteq> 0 \<Longrightarrow> read_block_fresh s ?r = Some (disk s ?r)" using rb(2) [of "[]"] by simp
  then show ?thesis
    using rb(1) [of "[idx2 v]" "disk s ?r"]
      rb(1) [of "[idx2 v, idx3 v]" "disk s (addr (disk s) ?r [idx2 v])"] rb(2) [of "data_path v"]
    by (auto simp: read_aligned_def assms(2) block_at_def data_path_def Let_def
        indirect_block_def entry_file_block_num_def committed_root_def [symmetric]
        idx2_def [symmetric] idx3_def [symmetric] idx4_def [symmetric])
qed

lemma read_aligned_at:
  assumes "reads_at s r v" and wf: "wf_tree (disk s) (file_blocks s) r"
    and "wf_tree (disk s) (file_blocks s) (committed_root s)"
  shows "read_aligned s v = Some (block_at (disk s) r v)"
proof (cases "pending_blocks s v")
  case None
  then show ?thesis
    using assms read_aligned_committed [OF assms(3) None] by (simp add: reads_at_def block_at_def)
next
  case (Some b)
  then have b: "b \<noteq> 0" "b = addr (disk s) r (data_path v)"
    using assms(1) by (simp_all add: reads_at_def)
  then have "read_block_fresh s b = Some (disk s b)"
    using read_block_live(2) [OF wf, of "data_path v"] by simp
  with Some b show ?thesis by (simp add: read_aligned_def block_at_def)
qed

text \<open>A block with an offset on the boundary is read as it is; other reads join two blocks.\<close>

abbreviation joined :: "(int \<Rightarrow> block) \<Rightarrow> int \<Rightarrow> int \<Rightarrow> block" where
  "joined d r \<equiv> join_blocks (block_at d r)"

lemma storage_read_at:
  assumes "0 \<le> off" and "reads_at s r (off - off mod 4096)"
    and "off mod 4096 \<noteq> 0 \<Longrightarrow> reads_at s r (off - off mod 4096 + 4096)"
    and "wf_tree (disk s) (file_blocks s) r" "wf_tree (disk s) (file_blocks s) (committed_root s)"
  shows "storage_read s off = Some (joined (disk s) r off)"
proof -
  have "off smod 4096 = off mod 4096" using assms(1) by (simp add: smod_nonneg)
  moreover have "nat (off mod 4096) = 0 \<longleftrightarrow> off mod 4096 = 0" "\<not> off mod 4096 < 0"
    using pos_mod_sign [of 4096 off] by linarith+
  ultimately show ?thesis
    using read_aligned_at [OF assms(2,4,5)] read_aligned_at [OF assms(3-5)]
    by (cases "off mod 4096 = 0") (simp_all add: storage_read_def join_blocks_def Let_def)
qed

lemma storage_read_aligned:
  "0 \<le> v \<Longrightarrow> aligned v \<Longrightarrow> storage_read s v = read_aligned s v"
  by (simp add: storage_read_def smod_nonneg aligned_def)

section \<open>Frames\<close>

lemma grown_tree:
  assumes g: "grown k s s'" and fresh: "live (disk s) r \<inter> unalloc s = {}"
  shows "raw_path p \<Longrightarrow> addr (disk s') r p = addr (disk s) r p"
    and "live (disk s') r = live (disk s) r"
    and "wf_tree (disk s) (file_blocks s) r \<Longrightarrow> wf_tree (disk s') (file_blocks s') r"
    and "block_at (disk s') r v = block_at (disk s) r v"
proof -
  have fr: "disk s' n = disk s n" if "n \<in> live (disk s) r" for n
    using grownD(1) [OF g] that fresh by blast
  show a: "addr (disk s') r p = addr (disk s) r p" if "raw_path p" for p
    by (rule addr_frame [OF fr that])
  show "live (disk s') r = live (disk s) r" by (rule live_frame [OF fr])
  show "wf_tree (disk s') (file_blocks s') r" if "wf_tree (disk s) (file_blocks s) r"
    by (rule wf_tree_frame [OF fr grownD(5) [OF g] that])
  show "block_at (disk s') r v = block_at (disk s) r v"
    using a [of "data_path v"] fr live_I [of "data_path v" "disk s" r] by (simp add: block_at_def)
qed

lemma grown_committed: "grown k s s' \<Longrightarrow> committed_root s' = committed_root s"
  by (simp add: committed_root_def first_level_block_def grownD(8))

lemma reads_at_grown:
  assumes "grown k s s'" and "live (disk s) r \<inter> unalloc s = {}"
    and "live (disk s) (committed_root s) \<inter> unalloc s = {}" and "pending_blocks s' v = pending_blocks s v"
  shows "reads_at s' r v = reads_at s r v"
  using grown_tree(1) [OF assms(1,2), of "data_path v"] grown_tree(1) [OF assms(1,3), of "data_path v"]
  by (simp add: reads_at_def assms(4) grown_committed [OF assms(1)] split: option.splits)

lemma next_version_rebase:
  assumes "grown k s s1" and "live (disk s) r \<inter> unalloc s = {}" and "{fst f, snd f} \<subseteq> unalloc s"
    and "next_version s1 r v0 v1 f q uw r' s'"
  shows "next_version s r v0 v1 f q uw r' s'"
proof -
  note t = grown_tree [OF assms(1,2)]
  have "unalloc s1 \<subseteq> unalloc s" by (rule grownD(2) [OF assms(1)])
  moreover have "live (disk s') r' \<subseteq> live (disk s) r \<union> unalloc s1 \<union> {fst f, snd f}"
    using assms(4) unfolding next_version_def t(2) by (elim conjE)
  ultimately have "live (disk s') r' \<subseteq> live (disk s) r \<union> unalloc s \<union> {fst f, snd f}" by blast
  then show ?thesis
    using assms(4) unfolding next_version_def t(2) by (simp add: t(1))
qed

section \<open>Data blocks\<close>

definition data_put :: "int \<Rightarrow> block \<Rightarrow> int \<Rightarrow> storage \<Rightarrow> storage \<Rightarrow> bool" where
  "data_put v b f s s1 \<longleftrightarrow> grown 1 s s1 \<and> f \<in> unalloc s \<and> unalloc s1 = unalloc s - {f} \<and> 0 < f \<and>
     f < 2 ^ 31 \<and> f < file_blocks s1 \<and> disk s1 f = b \<and>
     pending_blocks s1 = (pending_blocks s)(v \<mapsto> f) \<and> uncommitted_writes s1 = uncommitted_writes s"

lemma data_put_alloc:
  assumes "wf_free s" and "num_total_blocks s + 1 < 2 ^ 31" and "\<And>n. is_block (disk s n)"
  obtains f fb k where "get_free_block_num s = Some (f, s\<lparr>free_blocks := fb, num_total_blocks := k\<rparr>)" "0 \<le> f"
    and "\<forall>v b. is_block b \<longrightarrow> data_put v b f s
      (do_writes [(f, b)] (s\<lparr>free_blocks := fb, num_total_blocks := k\<rparr>)
         \<lparr>pending_blocks := (pending_blocks s)(v \<mapsto> f)\<rparr>)"
proof -
  obtain f fb k where a: "get_free_block_num s = Some (f, s\<lparr>free_blocks := fb, num_total_blocks := k\<rparr>)"
    and f: "f \<in> unalloc s" "0 < f" "f < 2 ^ 31"
    and u: "unalloc (s\<lparr>free_blocks := fb, num_total_blocks := k\<rparr>) = unalloc s - {f}"
    and w: "wf_free (s\<lparr>free_blocks := fb, num_total_blocks := k\<rparr>)"
    and k: "num_total_blocks s \<le> k" "k \<le> num_total_blocks s + 1"
    using alloc [OF assms(1,2)] .
  have "data_put v b f s (do_writes [(f, b)] (s\<lparr>free_blocks := fb, num_total_blocks := k\<rparr>)
         \<lparr>pending_blocks := (pending_blocks s)(v \<mapsto> f)\<rparr>)" if "is_block b" for v b
  proof -
    let ?t = "do_writes [(f, b)] (s\<lparr>free_blocks := fb, num_total_blocks := k\<rparr>)"
    have "grown 1 s ?t"
      by (rule grown_writes [OF refl]) (use f u w k assms(3) that in auto)
    then have "grown 1 s (?t\<lparr>pending_blocks := (pending_blocks s)(v \<mapsto> f)\<rparr>)" by (simp add: grown_def)
    moreover have "disk ?t f = b" by (rule disk_do_writes_in) simp_all
    moreover have "f < file_blocks ?t" by (rule file_blocks_do_writes(2)) simp
    ultimately show ?thesis using f u by (simp add: data_put_def)
  qed
  with that a f(2) show thesis by simp
qed

lemma storage_read_alloc:
  "storage_read (s\<lparr>free_blocks := fb, num_total_blocks := k\<rparr>) v = storage_read s v"
proof -
  let ?t = "s\<lparr>free_blocks := fb, num_total_blocks := k\<rparr>"
  have rb: "read_block ?t = read_block s" "read_block_fresh ?t = read_block_fresh s"
    "first_level_block ?t = first_level_block s" "pending_blocks ?t = pending_blocks s"
    by (simp_all add: fun_eq_iff read_block_def read_block_fresh_def first_level_block_def)
  have "read_aligned ?t v = read_aligned s v" for v unfolding read_aligned_def rb by (rule refl)
  then show ?thesis by (simp add: storage_read_def Let_def)
qed

section \<open>\<^verbatim>\<open>write\<close>\<close>

definition write_pre :: "storage \<Rightarrow> int \<Rightarrow> int \<Rightarrow> bool" where
  "write_pre s r q \<longleftrightarrow> wf_free s \<and> num_total_blocks s + 7 < 2 ^ 31 \<and> (\<forall>n. is_block (disk s n)) \<and>
     wf_tree (disk s) (file_blocks s) r \<and> live (disk s) r \<inter> unalloc s = {} \<and>
     wf_tree (disk s) (file_blocks s) (committed_root s) \<and>
     live (disk s) (committed_root s) \<inter> unalloc s = {} \<and> int64_range q \<and>
     (case uncommitted_writes s (q - 1) of
        Some uw \<Rightarrow> new_metadata_offset uw = [r, r] | None \<Rightarrow> r = committed_root s)"

definition written ::
  "storage \<Rightarrow> int \<Rightarrow> int \<Rightarrow> int \<Rightarrow> block \<times> block \<Rightarrow> int \<Rightarrow> int \<times> int \<Rightarrow> uncommitted_write \<Rightarrow> int \<Rightarrow> storage \<Rightarrow> bool" where
  "written s r v0 v1 b q f uw r' s' \<longleftrightarrow> grown 7 s s' \<and> {fst f, snd f} \<subseteq> unalloc s \<and>
     fst f \<noteq> 0 \<and> snd f \<noteq> 0 \<and>
     next_version s r v0 v1 f q uw r' s' \<and> disk s' (fst f) = fst b \<and> disk s' (snd f) = snd b \<and>
     pending_blocks s' = (pending_blocks s)(v0 \<mapsto> fst f, v1 \<mapsto> snd f) \<and>
     uncommitted_writes s' = (uncommitted_writes s)(q \<mapsto> uw)"

lemma base_root_pre:
  "write_pre s r q \<Longrightarrow> uncommitted_writes t = uncommitted_writes s \<Longrightarrow> first_block t = first_block s \<Longrightarrow>
   i < 2 \<Longrightarrow> base_root t q i v = r"
  by (auto simp: write_pre_def base_root_def committed_root_def first_level_block_def nth_Cons'
      split: option.splits)

lemma copied_fields:
  assumes "copied s r v0 v1 f q uw s'"
  shows "pending_blocks s' = pending_blocks s" "uncommitted_writes s' = uncommitted_writes s"
proof -
  obtain n n1 n2 ws s1 where "allocated s n n1 n2 s1" "s' = do_writes ws s1"
    using assms unfolding copied_def by metis
  then show "pending_blocks s' = pending_blocks s" "uncommitted_writes s' = uncommitted_writes s"
    using allocatedD(15,16) by simp_all
qed

lemma written_of_copied:
  assumes pre: "write_pre s r q"
    and g: "grown j s s1" "j \<le> 2" and f: "{fst f, snd f} \<subseteq> unalloc s" "{fst f, snd f} \<inter> unalloc s1 = {}"
      "fst f < file_blocks s1" "snd f < file_blocks s1"
    and d: "disk s1 (fst f) = fst b" "disk s1 (snd f) = snd b"
    and p: "pending_blocks s1 = (pending_blocks s)(v0 \<mapsto> fst f, v1 \<mapsto> snd f)"
      "uncommitted_writes s1 = uncommitted_writes s"
    and c: "copied s1 r v0 v1 f q uw s2"
    and v: "in_volume v0" "aligned v0" "in_volume v1" "aligned v1"
    and s': "s' = s2\<lparr>uncommitted_writes := (uncommitted_writes s2)(q \<mapsto> uw)\<rparr>"
  shows "written s r v0 v1 b q f uw (new_metadata_offset uw ! 0) s'"
proof -
  have wf: "wf_free s" and live: "live (disk s) r \<inter> unalloc s = {}"
    and tree: "wf_tree (disk s) (file_blocks s) r"
    using pre by (simp_all add: write_pre_def)
  note t = grown_tree [OF g(1) live]
  have pos: "0 < fst f" "0 < snd f" using f(1) unalloc_pos [OF wf] by blast+
  have live1: "live (disk s1) r \<inter> unalloc s1 = {}"
    using t(2) live grownD(2) [OF g(1)] by blast
  have f1: "{fst f, snd f} \<inter> (unalloc s1 \<union> live (disk s1) r) = {}"
    using f(1,2) live t(2) by blast
  note n = copied_next [OF c t(3) [OF tree] live1 f1 pos f(3,4) grownD(4) [OF g(1)] grownD(3) [OF g(1)] v]
  have "grown (j + 5) s s2" by (rule grown_trans [OF g(1) n(1)])
  then have "grown 7 s s'" using g(2) by (simp add: s' grown_def)
  moreover have "next_version s r v0 v1 f q uw (new_metadata_offset uw ! 0) s2"
    by (rule next_version_rebase [OF g(1) live f(1) n(2)])
  then have "next_version s r v0 v1 f q uw (new_metadata_offset uw ! 0) s'"
    by (simp add: next_version_def s')
  moreover have "disk s2 (fst f) = fst b" "disk s2 (snd f) = snd b"
    using grownD(1) [OF n(1)] f(2) d by auto
  ultimately show ?thesis
    using f(1) pos p copied_fields [OF c] by (simp add: written_def s')
qed

lemma write_aligned:
  assumes pre: "write_pre s r q" and off: "in_volume off" "aligned off" and len: "BLOCK_SIZE \<le> length buf"
    and stray: "stray_ok junk off s"
  obtains f uw s' where "storage_write junk buf off q s = Some s'"
    and "written s r off off (take BLOCK_SIZE buf, take BLOCK_SIZE buf) q (f, f) uw (new_metadata_offset uw ! 0) s'"
proof -
  have wf: "wf_free s" "num_total_blocks s + 7 < 2 ^ 31" "\<And>n. is_block (disk s n)"
    and live: "live (disk s) r \<inter> unalloc s = {}" and tree: "wf_tree (disk s) (file_blocks s) r"
    and q: "int64_range q"
    using pre by (simp_all add: write_pre_def)
  have room: "num_total_blocks s + 1 < 2 ^ 31" using wf(2) by simp
  let ?b = "take BLOCK_SIZE buf"
  have b: "is_block ?b" using len by (simp add: is_block_def)
  obtain f fb k where a: "get_free_block_num s = Some (f, s\<lparr>free_blocks := fb, num_total_blocks := k\<rparr>)" "0 \<le> f"
    and dp: "\<forall>v b. is_block b \<longrightarrow> data_put v b f s
      (do_writes [(f, b)] (s\<lparr>free_blocks := fb, num_total_blocks := k\<rparr>)
         \<lparr>pending_blocks := (pending_blocks s)(v \<mapsto> f)\<rparr>)"
    using data_put_alloc [OF wf(1) room wf(3)] .
  define s1 where "s1 = do_writes [(f, ?b)] (s\<lparr>free_blocks := fb, num_total_blocks := k\<rparr>)
         \<lparr>pending_blocks := (pending_blocks s)(off \<mapsto> f)\<rparr>"
  have d: "data_put off ?b f s s1" unfolding s1_def using dp b by blast
  then have g: "grown 1 s s1" and f: "f \<in> unalloc s" "unalloc s1 = unalloc s - {f}" "0 < f" "f < 2 ^ 31"
      "f < file_blocks s1" "disk s1 f = ?b" "pending_blocks s1 = (pending_blocks s)(off \<mapsto> f)"
      "uncommitted_writes s1 = uncommitted_writes s"
    by (simp_all add: data_put_def)
  note t = grown_tree [OF g live]
  have live1: "live (disk s1) r \<inter> unalloc s1 = {}" using t(2) live f(2) by blast
  have room1: "num_total_blocks s1 + 5 < 2 ^ 31" using wf(2) grownD(10) [OF g] by simp
  have base: "base_root s1 q 0 off = r" by (rule base_root_pre [OF pre f(8) grownD(8) [OF g]]) simp
  have st: "get_second_level off \<noteq> 0 \<Longrightarrow> num_total_blocks s1 + 5 < junk 1"
      "get_third_level off \<noteq> 0 \<Longrightarrow> num_total_blocks s1 + 5 < junk 2"
    using stray off(2) grownD(10) [OF g] by (auto simp: stray_ok_def)
  obtain uw s2 where wm: "write_metadata junk q f (- 1) off s1 = Some (uw, s2)"
    and c: "copied s1 r off off (f, f) q uw s2"
    by (rule write_metadata_aligned [OF grownD(3) [OF g] room1 grownD(4) [OF g] t(3) [OF tree] live1 base off
          int64_range_block [OF f(3,4)] q st])
  have "off smod 4096 = 0" using off by (simp add: in_volume_def aligned_def smod_nonneg)
  then have "storage_write junk buf off q s =
      Some (s2\<lparr>uncommitted_writes := (uncommitted_writes s2)(q \<mapsto> uw)\<rparr>)"
    using a wm by (simp add: storage_write_def Let_def write_block_do s1_def)
  moreover have "written s r off off (?b, ?b) q (f, f) uw (new_metadata_offset uw ! 0)
      (s2\<lparr>uncommitted_writes := (uncommitted_writes s2)(q \<mapsto> uw)\<rparr>)"
    by (rule written_of_copied [OF pre g _ _ _ _ _ _ _ _ _ c off off refl]) (use f in simp_all)
  ultimately show thesis by (rule that)
qed

text \<open>The two blocks an unaligned write puts, from the old ones and the buffer.\<close>

abbreviation spliced :: "(int \<Rightarrow> block) \<Rightarrow> int \<Rightarrow> int \<Rightarrow> block \<Rightarrow> block \<times> block" where
  "spliced d r \<equiv> splice_blocks (block_at d r)"

lemma write_unaligned:
  assumes pre: "write_pre s r q" and rem: "off mod 4096 \<noteq> 0"
    and v0: "v0 = off - off mod 4096" and v1: "v1 = v0 + 4096"
    and off: "in_volume off" "in_volume v1" and len: "BLOCK_SIZE \<le> length buf"
    and reads: "reads_at s r v0" "reads_at s r v1"
  obtains f uw s' where "storage_write junk buf off q s = Some s'" "fst f \<noteq> snd f"
    and "written s r v0 v1 (spliced (disk s) r off buf) q f uw (new_metadata_offset uw ! 0) s'"
proof -
  have wf: "wf_free s" "num_total_blocks s + 7 < 2 ^ 31" "\<And>n. is_block (disk s n)"
    and live: "live (disk s) r \<inter> unalloc s = {}" "live (disk s) (committed_root s) \<inter> unalloc s = {}"
    and tree: "wf_tree (disk s) (file_blocks s) r" "wf_tree (disk s) (file_blocks s) (committed_root s)"
    and q: "int64_range q"
    using pre by (simp_all add: write_pre_def)
  have al: "0 \<le> off" "0 \<le> v0" "aligned v0" "in_volume v0" "aligned v1" "0 \<le> v1" "v0 \<noteq> v1"
    using off zmod_le_nonneg_dividend [of off 4096]
    by (simp_all add: v0 v1 in_volume_def aligned_def mod_simps)
  define k where "k = nat (off mod 4096)"
  have k: "k < 4096" "int k = off mod 4096" "0 < off mod 4096"
    using rem pos_mod_bound [of 4096 off] pos_mod_sign [of 4096 off] unfolding k_def by linarith+
  let ?B0 = "take k (block_at (disk s) r v0) @ take (BLOCK_SIZE - k) buf"
  let ?B1 = "take k (drop (BLOCK_SIZE - k) buf) @ drop k (block_at (disk s) r v1)"
  have sp: "spliced (disk s) r off buf = (?B0, ?B1)"
    by (simp add: splice_blocks_def Let_def v0 v1 k_def)
  have isb: "is_block (block_at (disk s) r v)" for v using is_block_at [of "disk s"] wf(3) .
  have b: "is_block ?B0" "is_block ?B1"
    using isb [of v0] isb [of v1] len k(1) by (simp_all add: is_block_def)
  have room: "num_total_blocks s + 1 < 2 ^ 31" using wf(2) by simp
  obtain f0 fb k0 where a: "get_free_block_num s = Some (f0, s\<lparr>free_blocks := fb, num_total_blocks := k0\<rparr>)" "0 \<le> f0"
    and dp: "\<forall>v b. is_block b \<longrightarrow> data_put v b f0 s
      (do_writes [(f0, b)] (s\<lparr>free_blocks := fb, num_total_blocks := k0\<rparr>)
         \<lparr>pending_blocks := (pending_blocks s)(v \<mapsto> f0)\<rparr>)"
    using data_put_alloc [OF wf(1) room wf(3)] .
  define s1 where "s1 = do_writes [(f0, ?B0)] (s\<lparr>free_blocks := fb, num_total_blocks := k0\<rparr>)
         \<lparr>pending_blocks := (pending_blocks s)(v0 \<mapsto> f0)\<rparr>"
  have "data_put v0 ?B0 f0 s s1" unfolding s1_def using dp b(1) by blast
  then have g1: "grown 1 s s1" and f0: "f0 \<in> unalloc s" "unalloc s1 = unalloc s - {f0}" "0 < f0" "f0 < 2 ^ 31"
      "f0 < file_blocks s1" "disk s1 f0 = ?B0" "pending_blocks s1 = (pending_blocks s)(v0 \<mapsto> f0)"
      "uncommitted_writes s1 = uncommitted_writes s"
    by (simp_all add: data_put_def)
  note t1 = grown_tree [OF g1 live(1)]
  have r0: "storage_read s v0 = Some (block_at (disk s) r v0)"
    using storage_read_aligned [OF al(2,3)] read_aligned_at [OF reads(1) tree] by simp
  have "reads_at s1 r v1"
    using reads_at_grown [OF g1 live, of v1] reads(2) f0(7) al(7) by simp
  then have r1: "storage_read s1 v1 = Some (block_at (disk s) r v1)"
    using storage_read_aligned [OF al(6,5)] read_aligned_at [of s1 r v1] t1(3) [OF tree(1)]
      grown_tree(3) [OF g1 live(2) tree(2)] grown_committed [OF g1] t1(4) by simp
  have room1: "num_total_blocks s1 + 1 < 2 ^ 31" using wf(2) grownD(10) [OF g1] by simp
  obtain f1 gb k1 where a1: "get_free_block_num s1 = Some (f1, s1\<lparr>free_blocks := gb, num_total_blocks := k1\<rparr>)" "0 \<le> f1"
    and dp1: "\<forall>v b. is_block b \<longrightarrow> data_put v b f1 s1
      (do_writes [(f1, b)] (s1\<lparr>free_blocks := gb, num_total_blocks := k1\<rparr>)
         \<lparr>pending_blocks := (pending_blocks s1)(v \<mapsto> f1)\<rparr>)"
    using data_put_alloc [OF grownD(3) [OF g1] room1 grownD(4) [OF g1]] .
  define s2 where "s2 = do_writes [(f1, ?B1)] (s1\<lparr>free_blocks := gb, num_total_blocks := k1\<rparr>)
         \<lparr>pending_blocks := (pending_blocks s1)(v1 \<mapsto> f1)\<rparr>"
  have "data_put v1 ?B1 f1 s1 s2" unfolding s2_def using dp1 b(2) by blast
  then have g2: "grown 1 s1 s2" and f1: "f1 \<in> unalloc s1" "unalloc s2 = unalloc s1 - {f1}" "0 < f1" "f1 < 2 ^ 31"
      "f1 < file_blocks s2" "disk s2 f1 = ?B1" "pending_blocks s2 = (pending_blocks s1)(v1 \<mapsto> f1)"
      "uncommitted_writes s2 = uncommitted_writes s1"
    by (simp_all add: data_put_def)
  have g: "grown 2 s s2" using grown_trans [OF g1 g2] by simp
  note t = grown_tree [OF g live(1)]
  have live2: "live (disk s2) r \<inter> unalloc s2 = {}" using t(2) live(1) f0(2) f1(2) by blast
  have room2: "num_total_blocks s2 + 5 < 2 ^ 31" using wf(2) grownD(10) [OF g] by simp
  have uc: "uncommitted_writes s2 = uncommitted_writes s" using f0(8) f1(8) by simp
  have base: "base_root s2 q 0 v0 = r" "base_root s2 q 1 v1 = r"
    using base_root_pre [OF pre uc grownD(8) [OF g]] by simp_all
  have ne: "f0 \<noteq> f1" using f0(2) f1(1) by blast
  obtain uw s3 where wm: "write_metadata junk q f0 f1 off s2 = Some (uw, s3)"
    and c: "copied s2 r v0 v1 (f0, f1) q uw s3"
    by (rule write_metadata_unaligned [OF v0 v1 grownD(3) [OF g] room2 grownD(4) [OF g] t(3) [OF tree(1)] live2
          base rem off int64_range_block [OF f0(3,4)] int64_range_block [OF f1(3,4)] q ne])
  have sm: "off smod 4096 = off mod 4096" using al(1) by (simp add: smod_nonneg)
  have "storage_write junk buf off q s =
      Some (s3\<lparr>uncommitted_writes := (uncommitted_writes s3)(q \<mapsto> uw)\<rparr>)"
    using a a1 wm k(3) r0 r1
    by (simp add: storage_write_def Let_def sm v0 [symmetric] v1 [symmetric] k_def [symmetric]
        storage_read_alloc write_block_do s1_def [symmetric] s2_def [symmetric])
  moreover have "written s r v0 v1 (spliced (disk s) r off buf) q (f0, f1) uw (new_metadata_offset uw ! 0)
      (s3\<lparr>uncommitted_writes := (uncommitted_writes s3)(q \<mapsto> uw)\<rparr>)"
    by (rule written_of_copied [OF pre g _ _ _ _ _ _ _ _ _ c al(4,3) off(2) al(5) refl])
       (use f0 f1 sp grownD(1) [OF g2, of f0] grownD(5) [OF g2] in auto)
  ultimately show thesis using that [where f = "(f0, f1)"] ne by simp
qed

end
