(* ===== verification/Storage_Inv.thy ===== *)
theory Storage_Inv
  imports Storage_Data
begin

text \<open>
  The invariant of the volume between operations, and the volume as its clients see it: a
  sequence of versions, one per sequence number from the last committed to the last written,
  each a function from byte offsets to bytes. The theory shows that writes and commits keep the
  invariant and what they do to the versions.
\<close>

section \<open>Versions\<close>

definition root_of :: "storage \<Rightarrow> int \<Rightarrow> int" where
  "root_of s n = (case uncommitted_writes s n of
     Some uw \<Rightarrow> new_metadata_offset uw ! 0 | None \<Rightarrow> committed_root s)"

definition live_at :: "storage \<Rightarrow> int \<Rightarrow> int set" where
  "live_at s n = live (disk s) (root_of s n)"

definition volume :: "storage \<Rightarrow> int \<Rightarrow> int \<Rightarrow> byte" where
  "volume s n = bytes_of (block_at (disk s) (root_of s n))"

section \<open>The invariant\<close>

text \<open>What a crash must find on the medium: the committed version and its root.\<close>

definition durable_inv :: "storage \<Rightarrow> bool" where
  "durable_inv s \<longleftrightarrow> disk s 0 = first_block s \<and> durable s 0 = first_block s \<and>
     (\<forall>b. (0, b) \<in> set (unsynced s) \<longrightarrow> b = first_block s) \<and>
     (\<forall>n \<in> live (disk s) (committed_root s).
        durable s n = disk s n \<and> n < durable_blocks s \<and> n \<notin> fst ` set (unsynced s)) \<and>
     durable_blocks s \<le> file_blocks s \<and> 0 < file_blocks s \<and>
     0 \<le> durable_blocks s \<and> (durable_blocks s = 0 \<longrightarrow> first_block s = zero_block) \<and>
     (\<forall>n. is_block (durable s n)) \<and> (\<forall>w \<in> set (unsynced s). is_block (snd w))"

definition storage_inv :: "int \<Rightarrow> storage \<Rightarrow> bool" where
  "storage_inv w s \<longleftrightarrow>
     last_committed s \<le> w \<and> dom (uncommitted_writes s) = {last_committed s<..w} \<and>
     (\<forall>n uw. uncommitted_writes s n = Some uw \<longrightarrow>
        new_metadata_offset uw = [root_of s n, root_of s n] \<and> root_of s n \<noteq> 0 \<and>
        distinct (to_free uw) \<and> set (to_free uw) \<subseteq> live_at s (n - 1) \<and>
        (\<forall>m. n \<le> m \<and> m \<le> w \<longrightarrow> set (to_free uw) \<inter> live_at s m = {})) \<and>
     (\<forall>n. last_committed s \<le> n \<and> n \<le> w \<longrightarrow>
        wf_tree (disk s) (file_blocks s) (root_of s n) \<and> live_at s n \<inter> unalloc s = {}) \<and>
     wf_free s \<and> (\<forall>n. is_block (disk s n)) \<and> is_block (first_block s) \<and>
     (\<forall>v b. pending_blocks s v = Some b \<longrightarrow>
        in_volume v \<and> aligned v \<and> b \<noteq> 0 \<and> b = addr (disk s) (root_of s w) (data_path v)) \<and>
     durable_inv s"

text \<open>Reads return the latest version.\<close>

definition reads_latest :: "int \<Rightarrow> storage \<Rightarrow> bool" where
  "reads_latest w s \<longleftrightarrow> (\<forall>v. in_volume v \<and> aligned v \<longrightarrow> reads_at s (root_of s w) v)"

lemma storage_invD:
  assumes "storage_inv w s"
  shows "last_committed s \<le> w" "dom (uncommitted_writes s) = {last_committed s<..w}"
    and "last_committed s \<le> n \<Longrightarrow> n \<le> w \<Longrightarrow> wf_tree (disk s) (file_blocks s) (root_of s n)"
      "last_committed s \<le> n \<Longrightarrow> n \<le> w \<Longrightarrow> live_at s n \<inter> unalloc s = {}"
    and "wf_free s" "is_block (disk s n)" "is_block (first_block s)" "durable_inv s"
    and "pending_blocks s v = Some b \<Longrightarrow>
        in_volume v \<and> aligned v \<and> b \<noteq> 0 \<and> b = addr (disk s) (root_of s w) (data_path v)"
  using assms unfolding storage_inv_def by simp_all

lemma storage_inv_uw:
  assumes "storage_inv w s" and "uncommitted_writes s n = Some uw"
  shows "new_metadata_offset uw = [root_of s n, root_of s n]" "root_of s n \<noteq> 0"
    and "distinct (to_free uw)" "set (to_free uw) \<subseteq> live_at s (n - 1)"
    and "n \<le> m \<Longrightarrow> m \<le> w \<Longrightarrow> set (to_free uw) \<inter> live_at s m = {}"
    and "last_committed s < n" "n \<le> w"
proof -
  have "n \<in> dom (uncommitted_writes s)" using assms(2) by blast
  then show "last_committed s < n" "n \<le> w" using storage_invD(2) [OF assms(1)] by auto
qed (use assms in \<open>simp_all add: storage_inv_def\<close>)

lemma root_of_committed:
  assumes "storage_inv w s"
  shows "uncommitted_writes s (last_committed s) = None" "root_of s (last_committed s) = committed_root s"
proof -
  have "last_committed s \<notin> dom (uncommitted_writes s)" using storage_invD(2) [OF assms] by simp
  then show "uncommitted_writes s (last_committed s) = None" by auto
  then show "root_of s (last_committed s) = committed_root s" by (simp add: root_of_def)
qed

lemma write_pre_of_inv:
  assumes "storage_inv w s" and "num_total_blocks s + 7 < 2 ^ 31" and "int64_range (w + 1)"
  shows "write_pre s (root_of s w) (w + 1)"
proof -
  note c = root_of_committed [OF assms(1)]
  have "case uncommitted_writes s w of
        Some uw \<Rightarrow> new_metadata_offset uw = [root_of s w, root_of s w] | None \<Rightarrow> root_of s w = committed_root s"
    using storage_inv_uw(1) [OF assms(1), of w] by (auto simp: root_of_def split: option.splits)
  then show ?thesis
    using storage_invD(1,5,6) [OF assms(1)] storage_invD(3,4) [OF assms(1), of "last_committed s"]
      storage_invD(3,4) [OF assms(1), of w] assms(2,3) c
    by (simp add: write_pre_def live_at_def)
qed

section \<open>Writes\<close>

lemma written_roots:
  assumes w: "written s r v0 v1 b q f uw r' s'"
  shows "root_of s' q = r'" "n \<noteq> q \<Longrightarrow> root_of s' n = root_of s n" "committed_root s' = committed_root s"
    "last_committed s' = last_committed s"
proof -
  have g: "grown 7 s s'" and u: "uncommitted_writes s' = (uncommitted_writes s)(q \<mapsto> uw)"
    and m: "new_metadata_offset uw = [r', r']"
    using w by (simp_all add: written_def next_version_def)
  show c: "committed_root s' = committed_root s" by (rule grown_committed [OF g])
  show "root_of s' q = r'" "n \<noteq> q \<Longrightarrow> root_of s' n = root_of s n"
    using u m c by (simp_all add: root_of_def split: option.splits)
  show "last_committed s' = last_committed s"
    using grownD(8) [OF g] by (simp add: last_committed_def)
qed

lemma durable_inv_grown:
  assumes "durable_inv s" and "grown k s s'" and "wf_free s" "live (disk s) (committed_root s) \<inter> unalloc s = {}"
  shows "durable_inv s'"
proof -
  obtain ws where ws: "unsynced s' = unsynced s @ ws" "fst ` set ws \<subseteq> unalloc s" "\<forall>w \<in> set ws. is_block (snd w)"
    using assms(2) unfolding grown_def by (elim conjE exE)
  have zero: "0 \<notin> unalloc s" using unalloc_pos [OF assms(3)] by blast
  note g = grownD [OF assms(2)] and t = grown_tree [OF assms(2,4)]
  have "(0, b) \<notin> set ws" for b using zero ws(2) by force
  moreover have "n \<notin> fst ` set ws" "disk s' n = disk s n" if "n \<in> live (disk s) (committed_root s)" for n
    using that assms(4) ws(2) g(1) by blast+
  moreover have "disk s' 0 = disk s 0" using g(1) zero by blast
  ultimately show ?thesis
    using assms(1) ws(3) g(5-8) unfolding durable_inv_def ws(1) grown_committed [OF assms(2)] t(2)
    by (auto simp: image_Un)
qed

lemma written_live:
  assumes inv: "storage_inv w s" and wr: "written s (root_of s w) v0 v1 b (w + 1) f uw r' s'"
    and n: "last_committed s \<le> n" "n \<le> w"
  shows "live_at s' n = live_at s n" and "wf_tree (disk s') (file_blocks s') (root_of s' n)"
    and "raw_path p \<Longrightarrow> addr (disk s') (root_of s' n) p = addr (disk s) (root_of s n) p"
    and "block_at (disk s') (root_of s' n) v = block_at (disk s) (root_of s n) v"
proof -
  have g: "grown 7 s s'" using wr by (simp add: written_def)
  have r: "root_of s' n = root_of s n" using written_roots(2) [OF wr] n(2) by simp
  note t = grown_tree [OF g storage_invD(4) [OF inv n, unfolded live_at_def]]
  show "live_at s' n = live_at s n" using t(2) by (simp add: live_at_def r)
  show "wf_tree (disk s') (file_blocks s') (root_of s' n)"
    unfolding r by (rule t(3) [OF storage_invD(3) [OF inv n]])
  show "addr (disk s') (root_of s' n) p = addr (disk s) (root_of s n) p" if "raw_path p"
    unfolding r by (rule t(1) [OF that])
  show "block_at (disk s') (root_of s' n) v = block_at (disk s) (root_of s n) v"
    unfolding r by (rule t(4))
qed

lemma written_inv:
  assumes inv: "storage_inv w s" and wr: "written s (root_of s w) v0 v1 b (w + 1) f uw r' s'"
    and v: "in_volume v0" "aligned v0" "in_volume v1" "aligned v1"
  shows "storage_inv (w + 1) s'"
proof -
  have g: "grown 7 s s'" and u: "uncommitted_writes s' = (uncommitted_writes s)(w + 1 \<mapsto> uw)"
    and f: "{fst f, snd f} \<subseteq> unalloc s" "fst f \<noteq> 0" "snd f \<noteq> 0"
    and p: "pending_blocks s' = (pending_blocks s)(v0 \<mapsto> fst f, v1 \<mapsto> snd f)"
    and nv: "next_version s (root_of s w) v0 v1 f (w + 1) uw r' s'"
    using wr by (simp_all add: written_def)
  note gd = grownD [OF g] and rt = written_roots [OF wr]
  have lc: "last_committed s \<le> w" by (rule storage_invD(1) [OF inv])
  have uw: "new_metadata_offset uw = [r', r']" "r' \<noteq> 0" "distinct (to_free uw)"
    "set (to_free uw) \<subseteq> live_at s w" "set (to_free uw) \<inter> live_at s' (w + 1) = {}"
    "live_at s' (w + 1) \<subseteq> live_at s w \<union> unalloc s \<union> {fst f, snd f}"
    "live_at s' (w + 1) \<inter> unalloc s' = {}" "wf_tree (disk s') (file_blocks s') r'"
    using nv by (simp_all add: next_version_def live_at_def rt)
  have newlive: "live_at s' (w + 1) \<subseteq> live_at s w \<union> unalloc s" using uw(6) f(1) by blast
  have dom: "dom (uncommitted_writes s') = {last_committed s'<..w + 1}"
    using storage_invD(2) [OF inv] lc by (auto simp: u rt(4))
  have each: "new_metadata_offset x = [root_of s' n, root_of s' n] \<and> root_of s' n \<noteq> 0 \<and>
        distinct (to_free x) \<and> set (to_free x) \<subseteq> live_at s' (n - 1) \<and>
        (\<forall>m. n \<le> m \<and> m \<le> w + 1 \<longrightarrow> set (to_free x) \<inter> live_at s' m = {})"
    if "uncommitted_writes s' n = Some x" for n x
  proof (cases "n = w + 1")
    case True
    then have x: "x = uw" using that u by simp
    have "set (to_free uw) \<subseteq> live_at s' (n - 1)"
      using uw(4) written_live(1) [OF inv wr lc] True by simp
    then show ?thesis using uw True x rt(1) by auto
  next
    case False
    then have x: "uncommitted_writes s n = Some x" using that u by simp
    note i = storage_inv_uw [OF inv x]
    have l: "live_at s' m = live_at s m" if "last_committed s \<le> m" "m \<le> w" for m
      by (rule written_live(1) [OF inv wr that])
    have prev: "set (to_free x) \<subseteq> live_at s' (n - 1)" using i(4,6,7) l [of "n - 1"] by simp
    have "set (to_free x) \<inter> unalloc s = {}"
      using i(4,6,7) storage_invD(4) [OF inv, of "n - 1"] by auto
    then have "set (to_free x) \<inter> live_at s' (w + 1) = {}"
      using newlive i(5) [of w] i(7) by blast
    moreover have "set (to_free x) \<inter> live_at s' m = {}" if "n \<le> m" "m \<le> w" for m
      using i(5) [OF that] i(6) l [of m] that by simp
    ultimately have "\<forall>m. n \<le> m \<and> m \<le> w + 1 \<longrightarrow> set (to_free x) \<inter> live_at s' m = {}"
      by (metis zle_add1_eq_le order_le_less)
    then show ?thesis using i(1-3) prev rt(2) [OF False] by simp
  qed
  have trees: "wf_tree (disk s') (file_blocks s') (root_of s' n) \<and> live_at s' n \<inter> unalloc s' = {}"
    if "last_committed s' \<le> n" "n \<le> w + 1" for n
  proof (cases "n = w + 1")
    case True
    then show ?thesis using uw(7,8) rt(1) by simp
  next
    case False
    then have n: "last_committed s \<le> n" "n \<le> w" using that rt(4) by auto
    show ?thesis
      using written_live(1,2) [OF inv wr n] storage_invD(4) [OF inv n] gd(2) by blast
  qed
  have pend: "in_volume v \<and> aligned v \<and> c \<noteq> 0 \<and> c = addr (disk s') (root_of s' (w + 1)) (data_path v)"
    if "pending_blocks s' v = Some c" for v c
  proof -
    have "in_volume v \<and> aligned v"
      using that p v storage_invD(9) [OF inv, of v c] by (auto split: if_splits)
    moreover from this have "addr (disk s') r' (data_path v) =
          (if v = v1 then snd f else if v = v0 then fst f else addr (disk s) (root_of s w) (data_path v))"
      using nv by (simp add: next_version_def)
    ultimately show ?thesis
      using that p f(2,3) storage_invD(9) [OF inv, of v c] rt(1) by (auto split: if_splits)
  qed
  have "live (disk s) (committed_root s) \<inter> unalloc s = {}"
    using storage_invD(4) [OF inv order_refl lc] root_of_committed(2) [OF inv] by (simp add: live_at_def)
  then have dur: "durable_inv s'"
    by (rule durable_inv_grown [OF storage_invD(8) [OF inv] g storage_invD(5) [OF inv]])
  show ?thesis
    unfolding storage_inv_def
    using dom each trees pend dur gd(3,4,8) storage_invD(7) [OF inv] lc rt(4) by simp
qed

lemma written_reads_latest:
  assumes inv: "storage_inv w s" and wr: "written s (root_of s w) v0 v1 b (w + 1) f uw r' s'"
    and rl: "reads_latest w s"
  shows "reads_latest (w + 1) s'"
  unfolding reads_latest_def
proof (intro allI impI)
  fix v assume v: "in_volume v \<and> aligned v"
  have g: "grown 7 s s'" and f: "fst f \<noteq> 0" "snd f \<noteq> 0"
    and p: "pending_blocks s' = (pending_blocks s)(v0 \<mapsto> fst f, v1 \<mapsto> snd f)"
    and nv: "next_version s (root_of s w) v0 v1 f (w + 1) uw r' s'"
    using wr by (simp_all add: written_def)
  have a: "addr (disk s') r' (data_path v) =
          (if v = v1 then snd f else if v = v0 then fst f else addr (disk s) (root_of s w) (data_path v))"
    using nv v by (simp add: next_version_def)
  have "live (disk s) (committed_root s) \<inter> unalloc s = {}"
    using storage_invD(4) [OF inv order_refl storage_invD(1) [OF inv]] root_of_committed(2) [OF inv]
    by (simp add: live_at_def)
  then have "addr (disk s') (committed_root s) (data_path v) = addr (disk s) (committed_root s) (data_path v)"
    by (intro grown_tree(1) [OF g]) simp_all
  moreover have "reads_at s (root_of s w) v" using rl v by (simp add: reads_latest_def)
  ultimately show "reads_at s' (root_of s' (w + 1)) v"
    using a f unfolding reads_at_def p written_roots(1,3) [OF wr] by (auto split: option.splits if_splits)
qed

end
