(* ===== verification/Storage_Refine.thy ===== *)
theory Storage_Refine
  imports Storage_Inv
begin

text \<open>
  The volume operations refine the abstract versions: a write adds a version that differs from
  the previous one in the 4096 bytes written, a read returns 4096 bytes of the latest version,
  a commit makes the next version the durable one.
\<close>

section \<open>Bytes of a version\<close>

lemma written_volume_old:
  assumes "storage_inv w s" and "written s (root_of s w) v0 v1 b (w + 1) f uw r' s'"
    and "last_committed s \<le> n" "n \<le> w"
  shows "volume s' n = volume s n"
  using written_live(4) [OF assms] by (simp add: volume_def bytes_of_def fun_eq_iff)

lemma written_block:
  assumes "storage_inv w s" and wr: "written s (root_of s w) v0 v1 b (w + 1) f uw r' s'"
    and "in_volume v" "aligned v"
  shows "block_at (disk s') (root_of s' (w + 1)) v =
    (if v = v1 then snd b else if v = v0 then fst b else block_at (disk s) (root_of s w) v)"
proof -
  have g: "grown 7 s s'" and f: "fst f \<noteq> 0" "snd f \<noteq> 0" "disk s' (fst f) = fst b" "disk s' (snd f) = snd b"
    and nv: "next_version s (root_of s w) v0 v1 f (w + 1) uw r' s'"
    using wr by (simp_all add: written_def)
  have a: "addr (disk s') r' (data_path v) =
          (if v = v1 then snd f else if v = v0 then fst f else addr (disk s) (root_of s w) (data_path v))"
    using nv assms(3,4) by (simp add: next_version_def)
  have "disk s' (addr (disk s) (root_of s w) (data_path v)) = disk s (addr (disk s) (root_of s w) (data_path v))"
    if "addr (disk s) (root_of s w) (data_path v) \<noteq> 0"
  proof (rule grownD(1) [OF g])
    show "addr (disk s) (root_of s w) (data_path v) \<notin> unalloc s"
      using live_I [OF _ that] storage_invD(1,4) [OF assms(1)] unfolding live_at_def by auto
  qed
  then show ?thesis
    using a f by (cases "v = v1"; cases "v = v0") (simp_all add: block_at_def written_roots(1) [OF wr])
qed

lemma written_volume_new:
  assumes inv: "storage_inv w s" and len: "BLOCK_SIZE \<le> length buf" and ok: "access_ok off"
    and wr: "written s (root_of s w) v0 v1 b (w + 1) f uw r' s'"
    and v0: "v0 = off - off mod 4096"
    and b: "if off mod 4096 = 0 then v1 = v0 \<and> b = (take BLOCK_SIZE buf, take BLOCK_SIZE buf)
      else v1 = v0 + 4096 \<and> b = spliced (disk s) (root_of s w) off buf"
  shows "volume s' (w + 1) = spec_write off buf (volume s w)"
  unfolding volume_def
proof (rule write_blocks_spec [OF ok len])
  show "is_block (block_at (disk s) (root_of s w) v)" for v using is_block_at [of "disk s"] storage_invD(6) [OF inv] .
  show "block_at (disk s') (root_of s' (w + 1)) v = write_blocks off buf (block_at (disk s) (root_of s w)) v"
    if "in_volume v" "aligned v" for v
    using written_block [OF inv wr that] v0 b by (cases "off mod 4096 = 0") (simp_all add: write_blocks_def Let_def)
qed

section \<open>Write, read and commit\<close>

lemma storage_write_inv:
  assumes inv: "storage_inv w s" and rl: "off mod 4096 \<noteq> 0 \<Longrightarrow> reads_latest w s"
    and room: "num_total_blocks s + 7 < 2 ^ 31" and q: "int64_range (w + 1)"
    and ok: "access_ok off" and len: "BLOCK_SIZE \<le> length buf" and st: "stray_ok junk off s"
  obtains s' v0 v1 b f uw r'
  where "storage_write junk buf off (w + 1) s = Some s'"
    and "written s (root_of s w) v0 v1 b (w + 1) f uw r' s'"
    and "storage_inv (w + 1) s'" and "volume s' (w + 1) = spec_write off buf (volume s w)"
    and "in_volume v0" "aligned v0" "in_volume v1" "aligned v1"
    and "v0 = off - off mod 4096" "v1 = (if off mod 4096 = 0 then v0 else v0 + 4096)"
proof -
  let ?v0 = "off - off mod 4096"
  note pre = write_pre_of_inv [OF inv room q]
  have off: "in_volume off" using ok by (auto simp: access_ok_def in_volume_def)
  have v0: "in_volume ?v0" "aligned ?v0" using block_start off by simp_all
  show thesis
  proof (cases "off mod 4096 = 0")
    case True
    then have al: "aligned off" by (simp add: aligned_def)
    obtain f uw s' where 1: "storage_write junk buf off (w + 1) s = Some s'"
      and 2: "written s (root_of s w) off off (take BLOCK_SIZE buf, take BLOCK_SIZE buf) (w + 1) (f, f) uw
        (new_metadata_offset uw ! 0) s'"
      using write_aligned [OF pre off al len st] .
    from 1 2 written_inv [OF inv 2 off al off al] show thesis
      by (rule that) (use written_volume_new [OF inv len ok 2] True off al in simp_all)
  next
    case False
    note n = next_start [OF ok False]
    have v1: "aligned (?v0 + 4096)" by (simp add: aligned_def mod_simps)
    have "reads_at s (root_of s w) ?v0" "reads_at s (root_of s w) (?v0 + 4096)"
      using rl [OF False] v0 n(1) v1 unfolding reads_latest_def by blast+
    then obtain f uw s' where 1: "storage_write junk buf off (w + 1) s = Some s'"
      and 2: "written s (root_of s w) ?v0 (?v0 + 4096) (spliced (disk s) (root_of s w) off buf) (w + 1) f uw
        (new_metadata_offset uw ! 0) s'"
      using write_unaligned [OF pre False refl refl n(2,1) len] by metis
    from 1 2 written_inv [OF inv 2 v0 n(1) v1] show thesis
      by (rule that) (use written_volume_new [OF inv len ok 2] False v0 n v1 in simp_all)
  qed
qed

lemma joined_volume:
  assumes "access_ok off" and "\<And>n. is_block (disk s n)"
  shows "joined (disk s) (root_of s n) off = spec_read off (volume s n)"
  unfolding volume_def by (rule join_blocks_read [OF assms(1)]) (rule is_block_at [of "disk s", OF assms(2)])

lemma storage_read_latest:
  assumes inv: "storage_inv w s" and rl: "reads_latest w s" and ok: "access_ok off"
  shows "storage_read s off = Some (spec_read off (volume s w))"
proof -
  have off: "0 \<le> off" "in_volume off" using ok by (auto simp: access_ok_def in_volume_def)
  have "storage_read s off = Some (joined (disk s) (root_of s w) off)"
  proof (rule storage_read_at [OF off(1)])
    show "reads_at s (root_of s w) (off - off mod 4096)"
      using rl block_start(1) [OF off(2)] block_start(2) unfolding reads_latest_def by blast
    show "reads_at s (root_of s w) (off - off mod 4096 + 4096)" if "off mod 4096 \<noteq> 0"
      using rl next_start(1) [OF ok that] unfolding reads_latest_def by (simp add: aligned_def mod_simps)
    show "wf_tree (disk s) (file_blocks s) (root_of s w)"
      using storage_invD(1,3) [OF inv] by simp
    show "wf_tree (disk s) (file_blocks s) (committed_root s)"
      using storage_invD(1) [OF inv] storage_invD(3) [OF inv, of "last_committed s"] root_of_committed [OF inv]
      by simp
  qed
  then show ?thesis using joined_volume [OF ok storage_invD(6) [OF inv]] by simp
qed

text \<open>
  What reads return in general: a block with an entry in the pending table is read from the latest
  version, any other block from the committed one.
\<close>

definition readable :: "int \<Rightarrow> storage \<Rightarrow> int \<Rightarrow> byte" where
  "readable w s x = volume s (if pending_blocks s (x - x mod 4096) = None then last_committed s else w) x"

lemma storage_read_readable:
  assumes inv: "storage_inv w s" and ok: "access_ok off"
  shows "storage_read s off = Some (spec_read off (readable w s))"
proof -
  let ?n = "\<lambda>v. if pending_blocks s v = None then last_committed s else w"
  define B where "B v = block_at (disk s) (root_of s (?n v)) v" for v
  have lc: "last_committed s \<le> w" "root_of s (last_committed s) = committed_root s"
    using storage_invD(1) [OF inv] root_of_committed(2) [OF inv] by simp_all
  have wf: "wf_tree (disk s) (file_blocks s) (committed_root s)" "wf_tree (disk s) (file_blocks s) (root_of s w)"
    using storage_invD(3) [OF inv, of "last_committed s"] storage_invD(3) [OF inv, of w] lc by simp_all
  have r: "read_aligned s v = Some (B v)" for v
  proof (cases "pending_blocks s v")
    case None
    then show ?thesis using read_aligned_committed [OF wf(1) None] lc(2) by (simp add: B_def)
  next
    case (Some b)
    then have "reads_at s (root_of s w) v" using inv by (simp add: storage_inv_def reads_at_def)
    then show ?thesis using read_aligned_at [OF _ wf(2,1)] Some by (simp add: B_def)
  qed
  have "0 \<le> off" using ok by (simp add: access_ok_def)
  then have "off smod 4096 = off mod 4096" by (simp add: smod_nonneg)
  moreover have "nat (off mod 4096) = 0 \<longleftrightarrow> off mod 4096 = 0" "\<not> off mod 4096 < 0"
    using pos_mod_sign [of 4096 off] by linarith+
  ultimately have "storage_read s off = Some (join_blocks B off)"
    using r by (cases "off mod 4096 = 0") (simp_all add: storage_read_def join_blocks_def Let_def)
  moreover have "join_blocks B off = spec_read off (bytes_of B)"
    by (rule join_blocks_read [OF ok]) (simp add: B_def is_block_at storage_invD(6) [OF inv])
  moreover have "bytes_of B = readable w s" by (simp add: fun_eq_iff bytes_of_def readable_def volume_def B_def)
  ultimately show ?thesis by simp
qed

section \<open>Commit\<close>

text \<open>The state after each stage of a commit, written out.\<close>

definition tables_state :: "int \<Rightarrow> int \<Rightarrow> storage \<Rightarrow> storage" where
  "tables_state n v s = s\<lparr>first_block := put_i64 0 n (put_i64 1 (root_of s n) (first_block s)),
     uncommitted_writes := (uncommitted_writes s)(n := None), pending_blocks := (pending_blocks s)(v := None)\<rparr>"

definition synced_state :: "storage \<Rightarrow> storage" where
  "synced_state t = t\<lparr>disk := (disk t)(0 := first_block t), durable := (disk t)(0 := first_block t),
     durable_blocks := file_blocks t, unsynced := []\<rparr>"

lemma commit_tables_eq:
  assumes inv: "storage_inv w s" and uw: "uncommitted_writes s n = Some uw"
  shows "commit_tables n off s = Some (uw, tables_state n (off - off smod 4096) s)"
  using storage_inv_uw(1) [OF inv uw] uw
  by (simp add: commit_tables_def Let_def tables_state_def set_first_level_block_def set_last_committed_def)

lemma commit_write_eq:
  assumes "0 < file_blocks t"
  shows "commit_write t = Some (t\<lparr>disk := (disk t)(0 := first_block t), durable := disk t,
     durable_blocks := file_blocks t, unsynced := [(0, first_block t)]\<rparr>)"
  using assms by (simp add: commit_write_def fdatasync_def write_block_def max_absorb1)

lemma storage_commit_eq:
  assumes inv: "storage_inv w s" and uw: "uncommitted_writes s n = Some uw"
  shows "storage_commit n off s = Some ((synced_state (tables_state n (off - off smod 4096) s))
     \<lparr>free_blocks := free_blocks s @ to_free uw\<rparr>)"
proof -
  have "0 < file_blocks (tables_state n (off - off smod 4096) s)"
    using storage_invD(8) [OF inv] by (simp add: tables_state_def durable_inv_def)
  then show ?thesis
    by (simp add: storage_commit_def commit_tables_eq [OF inv uw] commit_write_eq fdatasync_def
        synced_state_def tables_state_def)
qed

lemma first_block_fields:
  assumes "is_block b" and "int64_range n" and "int64_range r"
  shows "get_i64 (put_i64 0 n (put_i64 1 r b)) 0 = n" "get_i64 (put_i64 0 n (put_i64 1 r b)) 1 = r"
  using assms by (simp_all add: i64.get_put)

lemma committed_state:
  assumes inv: "storage_inv w s" and n: "n = last_committed s + 1" "n \<le> w" and rng: "int64_range n"
    and blk: "int64_range (root_of s n)"
    and uw: "uncommitted_writes s n = Some uw"
    and s': "s' = (synced_state (tables_state n v s))\<lparr>free_blocks := free_blocks s @ to_free uw\<rparr>"
  shows "last_committed s' = n" "committed_root s' = root_of s n"
    and "n \<le> m \<Longrightarrow> m \<le> w \<Longrightarrow> root_of s' m = root_of s m"
    and "n \<le> m \<Longrightarrow> m \<le> w \<Longrightarrow> raw_path p \<Longrightarrow> addr (disk s') (root_of s' m) p = addr (disk s) (root_of s m) p"
    and "n \<le> m \<Longrightarrow> m \<le> w \<Longrightarrow> live_at s' m = live_at s m"
    and "n \<le> m \<Longrightarrow> m \<le> w \<Longrightarrow> wf_tree (disk s') (file_blocks s') (root_of s' m)"
    and "n \<le> m \<Longrightarrow> m \<le> w \<Longrightarrow> block_at (disk s') (root_of s' m) u = block_at (disk s) (root_of s m) u"
proof -
  have fb: "first_block s' = put_i64 0 n (put_i64 1 (root_of s n) (first_block s))"
    and d: "disk s' = (disk s)(0 := first_block s')"
    by (simp_all add: s' synced_state_def tables_state_def)
  show "last_committed s' = n" "committed_root s' = root_of s n"
    using first_block_fields [OF storage_invD(7) [OF inv] rng blk]
    by (simp_all add: last_committed_def committed_root_def first_level_block_def fb)
  have root: "root_of s' m = root_of s m" if "n \<le> m" "m \<le> w" for m
  proof (cases "m = n")
    case True
    then show ?thesis
      using \<open>committed_root s' = root_of s n\<close> by (simp add: root_of_def s' synced_state_def tables_state_def)
  next
    case False
    then have "m \<in> dom (uncommitted_writes s)" using that n storage_invD(2) [OF inv] by auto
    then show ?thesis
      using False by (auto simp: root_of_def s' synced_state_def tables_state_def)
  qed
  then show "n \<le> m \<Longrightarrow> m \<le> w \<Longrightarrow> root_of s' m = root_of s m" .
  assume m: "n \<le> m" "m \<le> w"
  then have lm: "last_committed s \<le> m" using n by simp
  have fr: "disk s' x = disk s x" if "x \<in> live (disk s) (root_of s m)" for x
    using wf_treeD(2) [OF storage_invD(3) [OF inv lm m(2)] that] by (simp add: d)
  have ad: "addr (disk s') (root_of s m) p = addr (disk s) (root_of s m) p" if "raw_path p" for p
    by (rule addr_frame [OF fr that])
  then show "raw_path p \<Longrightarrow> addr (disk s') (root_of s' m) p = addr (disk s) (root_of s m) p"
    unfolding root [OF m] .
  show "live_at s' m = live_at s m"
    unfolding live_at_def root [OF m] by (rule live_frame [OF fr])
  show "wf_tree (disk s') (file_blocks s') (root_of s' m)"
    unfolding root [OF m]
    by (rule wf_tree_frame [OF fr _ storage_invD(3) [OF inv lm m(2)]]) (simp_all add: s' synced_state_def tables_state_def)
  show "block_at (disk s') (root_of s' m) u = block_at (disk s) (root_of s m) u"
    using ad [of "data_path u"] fr live_I [of "data_path u" "disk s" "root_of s m"]
    by (simp add: block_at_def root [OF m])
qed

lemma root_range:
  assumes "storage_inv w s" and "last_committed s \<le> n" "n \<le> w" and "num_total_blocks s < 2 ^ 31"
  shows "int64_range (root_of s n)"
proof (cases "root_of s n = 0")
  case False
  then have "root_of s n \<in> live_at s n" using live_I [of "[]" "disk s" "root_of s n"] by (simp add: live_at_def)
  then have "root_of s n \<notin> unalloc s" "0 < root_of s n"
    using storage_invD(4) [OF assms(1-3)] wf_treeD(2) [OF storage_invD(3) [OF assms(1-3)]]
    by (auto simp: live_at_def)
  then show ?thesis using assms(4) by (simp add: unalloc_def int64_range_def)
qed (simp add: int64_range_def)

lemma storage_commit_inv:
  assumes inv: "storage_inv w s" and n: "n = last_committed s + 1" "n \<le> w" and rng: "int64_range n"
    and total: "num_total_blocks s < 2 ^ 31"
  obtains s' uw where "storage_commit n off s = Some s'" and "storage_inv w s'" and "last_committed s' = n"
    and "\<forall>m. n \<le> m \<and> m \<le> w \<longrightarrow> volume s' m = volume s m"
    and "uncommitted_writes s n = Some uw"
    and "s' = (synced_state (tables_state n (off - off smod 4096) s))\<lparr>free_blocks := free_blocks s @ to_free uw\<rparr>"
proof -
  have "n \<in> dom (uncommitted_writes s)" using n storage_invD(2) [OF inv] by simp
  then obtain uw where uw: "uncommitted_writes s n = Some uw" by blast
  define v where "v = off - off smod 4096"
  define s' where "s' = (synced_state (tables_state n v s))\<lparr>free_blocks := free_blocks s @ to_free uw\<rparr>"
  have lcn: "last_committed s \<le> n" using n by simp
  note c = committed_state [OF inv n rng root_range [OF inv lcn n(2) total] uw s'_def]
  note i = storage_inv_uw [OF inv uw]
  have tf: "set (to_free uw) \<subseteq> live_at s (last_committed s)" using i(4) n(1) by simp
  have lc: "last_committed s \<le> w" by (rule storage_invD(1) [OF inv])
  have sep: "live_at s (last_committed s) \<inter> unalloc s = {}" by (rule storage_invD(4) [OF inv order_refl lc])
  have pos: "0 < x \<and> x < file_blocks s" if "x \<in> live_at s m" "last_committed s \<le> m" "m \<le> w" for x m
    using that wf_treeD(2) [OF storage_invD(3) [OF inv that(2,3)]] by (simp add: live_at_def)
  have un: "unalloc s' = unalloc s \<union> set (to_free uw)"
    by (auto simp: s'_def synced_state_def tables_state_def unalloc_def)
  have wf: "wf_free s'"
  proof -
    have "set (free_blocks s) \<inter> set (to_free uw) = {}" using tf sep by (auto simp: unalloc_def)
    moreover have "0 < x \<and> x \<le> num_total_blocks s" if "x \<in> set (to_free uw)" for x
      using that tf sep pos [of x "last_committed s"] lc by (force simp: unalloc_def)
    ultimately show ?thesis
      using storage_invD(5) [OF inv] i(3) by (auto simp: wf_free_def s'_def synced_state_def tables_state_def)
  qed
  have dom: "dom (uncommitted_writes s') = {last_committed s'<..w}"
    using storage_invD(2) [OF inv] n c(1) by (auto simp: s'_def synced_state_def tables_state_def)
  have each: "new_metadata_offset x = [root_of s' m, root_of s' m] \<and> root_of s' m \<noteq> 0 \<and>
        distinct (to_free x) \<and> set (to_free x) \<subseteq> live_at s' (m - 1) \<and>
        (\<forall>k. m \<le> k \<and> k \<le> w \<longrightarrow> set (to_free x) \<inter> live_at s' k = {})"
    if "uncommitted_writes s' m = Some x" for m x
  proof -
    have x: "uncommitted_writes s m = Some x" "m \<noteq> n"
      using that by (auto simp: s'_def synced_state_def tables_state_def split: if_splits)
    note j = storage_inv_uw [OF inv x(1)]
    have m: "n \<le> m - 1" "m \<le> w" using j(6,7) x(2) n(1) by simp_all
    then show ?thesis using j(1-5) c(3) [of m] c(5) by simp
  qed
  have trees: "wf_tree (disk s') (file_blocks s') (root_of s' m) \<and> live_at s' m \<inter> unalloc s' = {}"
    if "last_committed s' \<le> m" "m \<le> w" for m
  proof -
    have m: "n \<le> m" "last_committed s \<le> m" using that c(1) n by simp_all
    then show ?thesis
      using c(5,6) [OF m(1) that(2)] storage_invD(4) [OF inv m(2) that(2)] i(5) [OF m(1) that(2)] un by blast
  qed
  have b: "is_block (first_block s')" "is_block (disk s' m)" for m
    using storage_invD(6,7) [OF inv] by (simp_all add: s'_def synced_state_def tables_state_def)
  have pend: "in_volume u \<and> aligned u \<and> x \<noteq> 0 \<and> x = addr (disk s') (root_of s' w) (data_path u)"
    if "pending_blocks s' u = Some x" for u x
  proof -
    have "pending_blocks s u = Some x"
      using that by (auto simp: s'_def synced_state_def tables_state_def split: if_splits)
    then show ?thesis using storage_invD(9) [OF inv, of u x] c(4) [OF n(2) order_refl, of "data_path u"] by simp
  qed
  have "durable_inv s'"
  proof -
    have "x < file_blocks s'" if "x \<in> live (disk s') (committed_root s')" for x
      using that wf_treeD(2) [OF c(6) [OF order_refl n(2)]] c(2) c(3) [OF order_refl n(2)] by simp
    then show ?thesis
      using b storage_invD(8) [OF inv]
      by (auto simp: durable_inv_def s'_def synced_state_def tables_state_def)
  qed
  then have "storage_inv w s'"
    unfolding storage_inv_def using dom each trees wf b pend c(1) n(2) by simp
  moreover have "volume s' m = volume s m" if "n \<le> m" "m \<le> w" for m
    using c(7) [OF that] by (simp add: volume_def bytes_of_def fun_eq_iff)
  ultimately show thesis
    using storage_commit_eq [OF inv uw, of off] c(1) uw
    by (intro that [of s' uw]) (simp_all add: s'_def v_def)
qed

section \<open>Which blocks the uncommitted writes changed\<close>

text \<open>
  The caller knows the offset \<open>H n\<close> of each uncommitted write \<open>n\<close> (the server keeps it in its
  sent list). Version \<open>n\<close> differs from version \<open>n - 1\<close> in the blocks at that offset only, and
  these blocks are pending.
\<close>

definition tracked :: "(int \<Rightarrow> int) \<Rightarrow> int \<Rightarrow> storage \<Rightarrow> bool" where
  "tracked H w s \<longleftrightarrow> (\<forall>n. last_committed s < n \<and> n \<le> w \<longrightarrow>
     (\<forall>u \<in> blocks_of (H n). pending_blocks s u \<noteq> None) \<and>
     (\<forall>u. in_volume u \<and> aligned u \<and> u \<notin> blocks_of (H n) \<longrightarrow>
        addr (disk s) (root_of s n) (data_path u) = addr (disk s) (root_of s (n - 1)) (data_path u)))"

lemma tracked_chain:
  assumes tr: "tracked H w s" and u: "in_volume u" "aligned u"
    and a: "last_committed s \<le> a" and no: "\<And>n. a < n \<Longrightarrow> n \<le> a + int k \<Longrightarrow> u \<notin> blocks_of (H n)"
    and k: "a + int k \<le> w"
  shows "addr (disk s) (root_of s (a + int k)) (data_path u) = addr (disk s) (root_of s a) (data_path u)"
  using no k
proof (induction k)
  case (Suc k)
  let ?n = "a + int (Suc k)"
  have "addr (disk s) (root_of s ?n) (data_path u) = addr (disk s) (root_of s (?n - 1)) (data_path u)"
    using tr u a Suc.prems(1) [of ?n] Suc.prems(2) unfolding tracked_def by auto
  also have "?n - 1 = a + int k" by simp
  also have "addr (disk s) (root_of s (a + int k)) (data_path u) = addr (disk s) (root_of s a) (data_path u)"
    using Suc.prems by (intro Suc.IH) auto
  finally show ?case .
qed simp

lemma tracked_unchanged:
  assumes "tracked H w s" and "in_volume u" "aligned u" and "last_committed s \<le> a" "a \<le> b" "b \<le> w"
    and "\<And>n. a < n \<Longrightarrow> n \<le> b \<Longrightarrow> u \<notin> blocks_of (H n)"
  shows "addr (disk s) (root_of s b) (data_path u) = addr (disk s) (root_of s a) (data_path u)"
  using tracked_chain [OF assms(1-4), of "nat (b - a)"] assms(5-7) by simp

lemma tracked_reads_latest:
  assumes inv: "storage_inv w s" and tr: "tracked H w s"
  shows "reads_latest w s"
  unfolding reads_latest_def reads_at_def
proof (intro allI impI)
  fix u assume u: "in_volume u \<and> aligned u"
  have lc: "last_committed s \<le> w" by (rule storage_invD(1) [OF inv])
  show "case pending_blocks s u of
        Some b \<Rightarrow> b \<noteq> 0 \<and> b = addr (disk s) (root_of s w) (data_path u)
      | None \<Rightarrow> addr (disk s) (committed_root s) (data_path u) = addr (disk s) (root_of s w) (data_path u)"
  proof (cases "pending_blocks s u")
    case None
    then have "u \<notin> blocks_of (H n)" if "last_committed s < n" "n \<le> w" for n
      using tr that unfolding tracked_def by blast
    then have "addr (disk s) (root_of s w) (data_path u) =
        addr (disk s) (root_of s (last_committed s)) (data_path u)"
      using u lc by (intro tracked_unchanged [OF tr]) auto
    then show ?thesis using None root_of_committed(2) [OF inv] by simp
  qed (use storage_invD(9) [OF inv] in force)
qed

lemma tracked_write:
  assumes inv: "storage_inv w s" and tr: "tracked H w s"
    and wr: "written s (root_of s w) v0 v1 b (w + 1) f uw r' s'"
    and v: "v0 = off - off mod 4096" "v1 = (if off mod 4096 = 0 then v0 else v0 + 4096)"
  shows "tracked (H(w + 1 := off)) (w + 1) s'"
  unfolding tracked_def
proof (intro allI impI conjI ballI)
  fix n u assume n: "last_committed s' < n \<and> n \<le> w + 1"
  have p: "pending_blocks s' = (pending_blocks s)(v0 \<mapsto> fst f, v1 \<mapsto> snd f)"
    and nv: "next_version s (root_of s w) v0 v1 f (w + 1) uw r' s'"
    using wr by (simp_all add: written_def)
  have bl: "blocks_of off = {v0, v1}" using v by (auto simp: blocks_of_def)
  have lc: "last_committed s' = last_committed s" by (rule written_roots(4) [OF wr])
  { assume "u \<in> blocks_of ((H(w + 1 := off)) n)"
    then show "pending_blocks s' u \<noteq> None"
      using tr n lc p bl unfolding tracked_def by (auto split: if_splits) }
  assume u: "in_volume u \<and> aligned u \<and> u \<notin> blocks_of ((H(w + 1 := off)) n)"
  show "addr (disk s') (root_of s' n) (data_path u) = addr (disk s') (root_of s' (n - 1)) (data_path u)"
  proof (cases "n = w + 1")
    case True
    have "addr (disk s') (root_of s' w) (data_path u) = addr (disk s) (root_of s w) (data_path u)"
      by (rule written_live(3) [OF inv wr storage_invD(1) [OF inv]]) simp_all
    then show ?thesis
      using u nv bl written_roots(1) [OF wr] True by (auto simp: next_version_def)
  next
    case False
    then have m: "last_committed s \<le> n" "n \<le> w" "last_committed s \<le> n - 1" "n - 1 \<le> w" using n lc by simp_all
    show ?thesis
      using written_live(3) [OF inv wr m(1,2), of "data_path u"] written_live(3) [OF inv wr m(3,4), of "data_path u"]
        tr u n lc False unfolding tracked_def by simp
  qed
qed

lemma tracked_commit:
  assumes inv: "storage_inv w s" and tr: "tracked H w s" and n: "n = last_committed s + 1" "n \<le> w"
    and rng: "int64_range n" and total: "num_total_blocks s < 2 ^ 31"
    and later: "\<And>m. n < m \<Longrightarrow> m \<le> w \<Longrightarrow> v \<notin> blocks_of (H m)"
    and uw: "uncommitted_writes s n = Some uw"
    and s': "s' = (synced_state (tables_state n v s))\<lparr>free_blocks := free_blocks s @ to_free uw\<rparr>"
  shows "tracked H w s'"
proof -
  have lcn: "last_committed s \<le> n" using n by simp
  note c = committed_state [OF inv n rng root_range [OF inv lcn n(2) total] uw s']
  have p: "pending_blocks s' = (pending_blocks s)(v := None)"
    by (simp add: s' synced_state_def tables_state_def)
  show ?thesis
    unfolding tracked_def
  proof (intro allI impI conjI ballI)
    fix m u assume m: "last_committed s' < m \<and> m \<le> w"
    then have m': "n < m" "m \<le> w" "n \<le> m - 1" "n \<le> m" "m - 1 \<le> w" "last_committed s < m"
      using c(1) n(1) by simp_all
    { assume u: "u \<in> blocks_of (H m)"
      then have "pending_blocks s u \<noteq> None" using tr m'(2,6) unfolding tracked_def by blast
      then show "pending_blocks s' u \<noteq> None" using later [OF m'(1,2)] u p by auto }
    assume "in_volume u \<and> aligned u \<and> u \<notin> blocks_of (H m)"
    then show "addr (disk s') (root_of s' m) (data_path u) = addr (disk s') (root_of s' (m - 1)) (data_path u)"
      using tr m' n c(4) [OF m'(4,2), of "data_path u"] c(4) [OF m'(3,5), of "data_path u"]
      unfolding tracked_def by simp
  qed
qed

section \<open>A new volume\<close>

text \<open>The state after \<^verbatim>\<open>open_volume\<close> has created the file.\<close>

definition new_volume :: storage where
  "new_volume = (new_process (\<lambda>_. zero_block) 0)\<lparr>file_blocks := 1, unsynced := [(0, zero_block)],
     num_total_blocks := 1\<rparr>"

lemma new_process_zero: "new_process b 0 = new_process (\<lambda>_. zero_block) 0"
  by (auto simp: new_process_def fun_eq_iff)

lemma used_blocks_empty: "first_level_block s 0 = 0 \<Longrightarrow> used_blocks s = Some []"
  by (simp add: used_blocks_def)

lemma open_new: "open_volume (new_process b 0) = Some new_volume"
proof -
  have d: "(\<lambda>i. zero_block)(0 := zero_block) = (\<lambda>i :: int. zero_block)" by auto
  show ?thesis
    unfolding new_process_zero [of b]
    by (simp add: open_volume_def new_process_def new_volume_def write_block_def used_blocks_empty
        first_level_block_def to_int32_def free_scan.simps Let_def d)
qed

lemma new_volume_inv: "storage_inv 0 new_volume" and new_volume_tracked: "tracked H 0 new_volume"
  and new_volume_committed: "last_committed new_volume = 0" and new_volume_zero: "volume new_volume 0 x = 0"
proof -
  show lc: "last_committed new_volume = 0"
    by (simp add: last_committed_def new_volume_def new_process_def)
  have r: "root_of new_volume n = 0" "committed_root new_volume = 0" for n
    by (simp_all add: root_of_def committed_root_def first_level_block_def new_volume_def new_process_def)
  show "storage_inv 0 new_volume"
    unfolding storage_inv_def durable_inv_def r live_at_def lc
    by (auto simp: new_volume_def new_process_def wf_free_def)
  show "tracked H 0 new_volume" by (auto simp: tracked_def lc)
  show "volume new_volume 0 x = 0" by (simp add: volume_def bytes_of_def r block_at_def zero_block_def nat_less_iff)
qed

lemma new_volume_total: "num_total_blocks new_volume = 1"
  by (simp add: new_volume_def)

text \<open>One write to a new volume, the starting point of the examples.\<close>

lemma first_write:
  assumes "access_ok off" and "stray_ok junk off new_volume" and "BLOCK_SIZE \<le> length buf"
  obtains s1 where "storage_write junk buf off 1 new_volume = Some s1" "storage_inv 1 s1"
    "tracked (\<lambda>_. off) 1 s1" "last_committed s1 = 0" "num_total_blocks s1 + 7 < 2 ^ 31" "num_total_blocks s1 < 2 ^ 31"
    "volume s1 1 = spec_write off buf (\<lambda>x. 0)" "durable_blocks s1 = 0"
proof -
  note rl = tracked_reads_latest [OF new_volume_inv new_volume_tracked]
  have room: "num_total_blocks new_volume + 7 < 2 ^ 31" by (simp add: new_volume_total)
  have q: "int64_range (0 + 1)" by (simp add: int64_range_def)
  obtain s1 v0 v1 b f uw r' where w: "storage_write junk buf off (0 + 1) new_volume = Some s1"
    and wr: "written new_volume (root_of new_volume 0) v0 v1 b (0 + 1) f uw r' s1" and inv: "storage_inv (0 + 1) s1"
    and vol: "volume s1 (0 + 1) = spec_write off buf (volume new_volume 0)"
    and iv: "in_volume v0" "aligned v0" "in_volume v1" "aligned v1"
    and v: "v0 = off - off mod 4096" "v1 = (if off mod 4096 = 0 then v0 else v0 + 4096)"
    using storage_write_inv [OF new_volume_inv rl room q assms(1,3,2)] .
  have "num_total_blocks s1 \<le> 8" "durable_blocks s1 = 0"
    using wr new_volume_total by (simp_all add: written_def grown_def new_volume_def new_process_def)
  moreover have "volume new_volume 0 = (\<lambda>x. 0)" by (rule ext) (rule new_volume_zero)
  moreover have "tracked (\<lambda>_. off) 1 s1"
    using tracked_write [OF new_volume_inv new_volume_tracked wr v, of "\<lambda>_. off"] by (simp add: fun_upd_def)
  ultimately show thesis
    using that [of s1] w inv vol written_roots(4) [OF wr] new_volume_committed by simp
qed

section \<open>The contract of the volume\<close>



text \<open>
  C12. A read of one block at any offset inside the volume returns, and says exactly what it returns: bytes
  of blocks that have an entry in the pending table come from the latest version, uncommitted writes
  included, and all other bytes from the committed version. As long as the table has all blocks of
  the uncommitted writes (\<open>tracked\<close>, which writes keep and which commits may break), that is the latest version.
\<close>

theorem storage_read_refines:
  assumes "storage_inv w s" and "access_ok off"
  shows "storage_read s off = Some (spec_read off (readable w s)) \<and>
    (tracked H w s \<longrightarrow> storage_read s off = Some (spec_read off (volume s w)))"
  using storage_read_readable [OF assms] storage_read_latest [OF assms(1) tracked_reads_latest [OF assms(1)] assms(2)] by blast

lemma spec_read_write: "BLOCK_SIZE \<le> length buf \<Longrightarrow> spec_read off (spec_write off buf V) = take BLOCK_SIZE buf"
  by (rule nth_equalityI) (simp_all add: spec_read_def spec_write_def)

theorem storage_read_refines_witness:
  "\<exists>s1. storage_write (\<lambda>_. 0) (replicate 4096 7) 100 1 new_volume = Some s1 \<and> last_committed s1 = 0 \<and>
    storage_read s1 100 = Some (replicate 4096 7) \<and> storage_read s1 100 = Some (spec_read 100 (readable 1 s1))"
proof -
  have ok: "access_ok 100" by (simp add: access_ok_def VOLUME_SIZE_def)
  obtain s1 where w: "storage_write (\<lambda>_. 0) (replicate 4096 7) 100 1 new_volume = Some s1"
    and s1: "storage_inv 1 s1" "tracked (\<lambda>_. 100) 1 s1" "last_committed s1 = 0"
      "num_total_blocks s1 + 7 < 2 ^ 31" "num_total_blocks s1 < 2 ^ 31"
      "volume s1 1 = spec_write 100 (replicate 4096 7) (\<lambda>x. 0)" "durable_blocks s1 = 0"
    by (rule first_write [of 100 "\<lambda>_. 0" "replicate 4096 7"])
       (simp_all add: access_ok_def VOLUME_SIZE_def stray_ok_def aligned_def)
  have v: "spec_read 100 (volume s1 1) = replicate 4096 7" unfolding s1(6) by (subst spec_read_write) simp_all
  note r = storage_read_refines [OF s1(1) ok, of "\<lambda>_. 100"]
  have "storage_read s1 100 = Some (replicate 4096 7)" using r s1(2) v by metis
  with r w s1(3) show ?thesis by blast
qed

text \<open>
  C11. Committing the oldest uncommitted write returns; that write's version becomes the
  committed one, all versions from it on keep their contents and the invariant is kept. Reads
  still return the latest version if no later uncommitted write touched the first block of the
  committed one.
\<close>

theorem storage_commit_refines:
  assumes "storage_inv w s" and "tracked H w s" and "n = last_committed s + 1" and "n \<le> w"
    and "int64_range n" and "num_total_blocks s < 2 ^ 31" and "0 \<le> H n"
    and "\<forall>m. n < m \<and> m \<le> w \<longrightarrow> H n - H n mod 4096 \<notin> blocks_of (H m)"
  shows "\<exists>s'. storage_commit n (H n) s = Some s' \<and> storage_inv w s' \<and> tracked H w s' \<and>
    last_committed s' = n \<and> (\<forall>m. n \<le> m \<and> m \<le> w \<longrightarrow> volume s' m = volume s m)"
proof -
  obtain s' uw where c: "storage_commit n (H n) s = Some s'" and inv: "storage_inv w s'" and lc: "last_committed s' = n"
    and vol: "\<forall>m. n \<le> m \<and> m \<le> w \<longrightarrow> volume s' m = volume s m"
    and uw: "uncommitted_writes s n = Some uw"
    and s': "s' = (synced_state (tables_state n (H n - H n smod 4096) s))\<lparr>free_blocks := free_blocks s @ to_free uw\<rparr>"
    using storage_commit_inv [OF assms(1,3-6), of "H n"] .
  have "tracked H w s'"
    by (rule tracked_commit [OF assms(1-6) _ uw s']) (use assms(7,8) in \<open>simp add: smod_nonneg\<close>)
  with c inv lc vol show ?thesis by blast
qed

theorem storage_commit_refines_witness:
  "\<exists>s1 s2. storage_write (\<lambda>_. 0) (replicate 4096 7) 100 1 new_volume = Some s1 \<and>
     storage_commit 1 100 s1 = Some s2 \<and> last_committed s2 = 1 \<and> volume s2 1 = volume s1 1"
proof -
  obtain s1 where w: "storage_write (\<lambda>_. 0) (replicate 4096 7) 100 1 new_volume = Some s1"
    and s1: "storage_inv 1 s1" "tracked (\<lambda>_. 100) 1 s1" "last_committed s1 = 0"
      "num_total_blocks s1 + 7 < 2 ^ 31" "num_total_blocks s1 < 2 ^ 31"
      "volume s1 1 = spec_write 100 (replicate 4096 7) (\<lambda>x. 0)" "durable_blocks s1 = 0"
    by (rule first_write [of 100 "\<lambda>_. 0" "replicate 4096 7"])
       (simp_all add: access_ok_def VOLUME_SIZE_def stray_ok_def aligned_def)
  have "\<exists>s2. storage_commit 1 100 s1 = Some s2 \<and> last_committed s2 = 1 \<and> volume s2 1 = volume s1 1"
    using storage_commit_refines [OF s1(1,2), of 1] s1(3,5) by (force simp: int64_range_def)
  with w show ?thesis by auto
qed

text \<open>
  C37. A commit drops the block at its offset from the pending table even when a later write to
  the same block is still uncommitted: a read of that block then returns the committed version
  and not the latest one, whatever the later writes stored there.
\<close>

theorem commit_hides_later_write:
  assumes "storage_inv w s" and "n = last_committed s + 1" and "n \<le> w" and "int64_range n"
    and "num_total_blocks s < 2 ^ 31" and "access_ok off" and "aligned off"
  shows "\<exists>s'. storage_commit n off s = Some s' \<and> storage_read s' off = Some (spec_read off (volume s n)) \<and>
    volume s' w = volume s w"
proof -
  obtain s' uw where c: "storage_commit n off s = Some s'" and inv: "storage_inv w s'" and lc: "last_committed s' = n"
    and vol: "\<forall>m. n \<le> m \<and> m \<le> w \<longrightarrow> volume s' m = volume s m"
    and uw: "uncommitted_writes s n = Some uw"
    and s': "s' = (synced_state (tables_state n (off - off smod 4096) s))\<lparr>free_blocks := free_blocks s @ to_free uw\<rparr>"
    using storage_commit_inv [OF assms(1-5), of off] .
  have off: "0 \<le> off" "off mod 4096 = 0" "off smod 4096 = 0"
    using assms(6,7) by (simp_all add: access_ok_def aligned_def smod_nonneg)
  have "pending_blocks s' off = None" by (simp add: s' synced_state_def tables_state_def off)
  moreover have wf: "wf_tree (disk s') (file_blocks s') (committed_root s')"
    using storage_invD(3) [OF inv, of n] assms(3) lc root_of_committed(2) [OF inv] by simp
  ultimately have "storage_read s' off = Some (joined (disk s') (root_of s' n) off)"
    using storage_read_aligned [OF off(1) assms(7), of s'] read_aligned_committed [OF wf] off
      root_of_committed(2) [OF inv] lc by (simp add: join_blocks_def)
  then show ?thesis
    using joined_volume [OF assms(6) storage_invD(6) [OF inv], of n] c vol assms(3) by auto
qed

theorem commit_hides_later_write_witness:
  "\<exists>s1 s2 s3. storage_write (\<lambda>_. 0) (replicate 4096 7) 0 1 new_volume = Some s1 \<and>
     storage_write (\<lambda>_. 0) (replicate 4096 8) 0 2 s1 = Some s2 \<and>
     volume s2 2 = spec_write 0 (replicate 4096 8) (volume s1 1) \<and>
     storage_commit 1 0 s2 = Some s3 \<and> storage_read s3 0 = Some (spec_read 0 (volume s2 1))"
proof -
  have ok: "access_ok 0" "stray_ok (\<lambda>_. 0) 0 s" "int64_range (1 + 1)" "int64_range 1" "aligned 0" for s
    by (simp_all add: access_ok_def VOLUME_SIZE_def stray_ok_def level_div int64_range_def aligned_def)
  obtain s1 where w: "storage_write (\<lambda>_. 0) (replicate 4096 7) 0 1 new_volume = Some s1"
    and s1: "storage_inv 1 s1" "tracked (\<lambda>_. 0) 1 s1" "last_committed s1 = 0" "num_total_blocks s1 + 7 < 2 ^ 31"
      "num_total_blocks s1 < 2 ^ 31" "volume s1 1 = spec_write 0 (replicate 4096 7) (\<lambda>x. 0)"
      "durable_blocks s1 = 0"
    by (rule first_write [OF ok(1,2), of "replicate 4096 7"]) simp_all
  obtain s2 v0 v1 b f uw r' where w2: "storage_write (\<lambda>_. 0) (replicate 4096 8) 0 (1 + 1) s1 = Some s2"
    and wr: "written s1 (root_of s1 1) v0 v1 b (1 + 1) f uw r' s2" and inv: "storage_inv (1 + 1) s2"
    and vol: "volume s2 (1 + 1) = spec_write 0 (replicate 4096 8) (volume s1 1)"
    and iv: "in_volume v0" "aligned v0" "in_volume v1" "aligned v1"
    and v: "v0 = 0 - 0 mod 4096" "v1 = (if 0 mod 4096 = (0 :: int) then v0 else v0 + 4096)"
    by (rule storage_write_inv [OF s1(1) tracked_reads_latest [OF s1(1,2)] s1(4) ok(3,1) _ ok(2), of "replicate 4096 8"])
       simp_all
  have "last_committed s2 = 0" using written_roots(4) [OF wr] s1(3) by simp
  moreover have "num_total_blocks s2 < 2 ^ 31" using wr s1(4) by (simp add: written_def grown_def)
  ultimately show ?thesis
    using commit_hides_later_write [OF inv _ _ ok(4) _ ok(1,5)] w w2 vol by force
qed

end
