(* ===== verification/Storage_Marks.thy ===== *)
theory Storage_Marks
  imports Storage_Refine
begin

text \<open>
  What a version records of its blocks besides their contents: the number of the write that changed a block
  last (\<^verbatim>\<open>last_updated\<close>), and whether it has been written at all. \<^verbatim>\<open>get_modified_offsets\<close> and \<^verbatim>\<open>checksum\<close> depend on them.
\<close>

definition marks :: "storage \<Rightarrow> int \<Rightarrow> int \<Rightarrow> int \<times> bool" where
  "marks s n v = (if cell v then (addr (disk s) (root_of s n) (stamp_path v), addr (disk s) (root_of s n) (data_path v) \<noteq> 0)
     else (0, False))"

lemma cell_of_access: "access_ok off \<Longrightarrow> off mod 4096 = 0 \<Longrightarrow> cell off"
  by (auto simp: cell_def access_ok_def in_volume_def aligned_def)

text \<open>A write to one block marks that block and no other; older versions keep their marks.\<close>

lemma written_marks_new:
  assumes wr: "written s (root_of s w) off off b q f uw r' s'" and "cell off"
  shows "marks s' q = (marks s w)(off := (q, True))"
proof
  fix v
  have nv: "next_version s (root_of s w) off off f q uw r' s'" and f: "snd f \<noteq> 0" using wr by (simp_all add: written_def)
  show "marks s' q v = ((marks s w)(off := (q, True))) v"
    using nv f assms(2) by (simp add: marks_def written_roots(1) [OF wr] next_version_def cell_def)
qed

lemma written_marks_old:
  assumes "storage_inv w s" and "written s (root_of s w) v0 v1 b (w + 1) f uw r' s'" and "last_committed s \<le> n" "n \<le> w"
  shows "marks s' n = marks s n"
  using written_live(3) [OF assms] by (simp add: marks_def fun_eq_iff)

lemma commit_marks:
  assumes inv: "storage_inv w s" and n: "n = last_committed s + 1" "n \<le> w" and rng: "int64_range n" and total: "num_total_blocks s < 2 ^ 31"
    and uw: "uncommitted_writes s n = Some uw"
    and s': "s' = (synced_state (tables_state n v s))\<lparr>free_blocks := free_blocks s @ to_free uw\<rparr>"
    and m: "last_committed s < m" "m \<le> w"
  shows "marks s' m = marks s m"
proof -
  have le: "last_committed s \<le> n" using n(1) by simp
  have "addr (disk s') (root_of s' m) p = addr (disk s) (root_of s m) p" if "raw_path p" for p
    using committed_state(4) [OF inv n rng root_range [OF inv le n(2) total] uw s' _ m(2) that] m(1) n(1) by simp
  then show ?thesis by (simp add: marks_def fun_eq_iff)
qed

end
