(* ===== verification/Replica.thy ===== *)
theory Replica
  imports Storage_Marks
begin

text \<open>
  What the server relies on when it stores and commits writes in order: a volume that keeps one
  version per uncommitted write. The interface is a locale, and its clients are proved to hold
  the versions of a given history; the volume of \<^verbatim>\<open>storage.cpp\<close> is an instance of it for
  block-aligned writes.
\<close>

section \<open>Volumes with versions\<close>

locale versioned_volume =
  fixes wr :: "'j \<Rightarrow> block \<Rightarrow> int \<Rightarrow> int \<Rightarrow> 's \<Rightarrow> 's option"
    and commit :: "int \<Rightarrow> int \<Rightarrow> 's \<Rightarrow> 's option"
    and inv :: "int \<Rightarrow> 's \<Rightarrow> bool"
    and version :: "'s \<Rightarrow> int \<Rightarrow> 'v"
    and upd :: "int \<Rightarrow> int \<Rightarrow> block \<Rightarrow> 'v \<Rightarrow> 'v"
    and committed :: "'s \<Rightarrow> int"
    and allowed :: "'j \<Rightarrow> int \<Rightarrow> 's \<Rightarrow> bool"
  assumes committed_le: "inv w s \<Longrightarrow> committed s \<le> w"
    and wr_law: "inv w s \<Longrightarrow> allowed j off s \<Longrightarrow> BLOCK_SIZE \<le> length buf \<Longrightarrow> int64_range (w + 1) \<Longrightarrow>
      \<exists>s'. wr j buf off (w + 1) s = Some s' \<and> inv (w + 1) s' \<and> committed s' = committed s \<and>
        version s' (w + 1) = upd (w + 1) off buf (version s w) \<and>
        (\<forall>n. committed s \<le> n \<and> n \<le> w \<longrightarrow> version s' n = version s n)"
    and commit_law: "inv w s \<Longrightarrow> committed s < w \<Longrightarrow> int64_range (committed s + 1) \<Longrightarrow>
      \<exists>s'. commit (committed s + 1) off s = Some s' \<and> inv w s' \<and> committed s' = committed s + 1 \<and>
        (\<forall>n. committed s < n \<and> n \<le> w \<longrightarrow> version s' n = version s n)"
begin

text \<open>The volume has stored the writes up to \<open>w\<close> of the history whose versions are \<open>V\<close>.\<close>

definition holds :: "(int \<Rightarrow> 'v) \<Rightarrow> int \<Rightarrow> 's \<Rightarrow> bool" where
  "holds V w s \<longleftrightarrow> inv w s \<and> (\<forall>n. committed s \<le> n \<and> n \<le> w \<longrightarrow> version s n = V n)"

lemma holds_committed_le: "holds V w s \<Longrightarrow> committed s \<le> w"
  by (simp add: holds_def committed_le)

lemma holds_write:
  assumes "holds V w s" and "allowed j off s" and "BLOCK_SIZE \<le> length buf" and "int64_range (w + 1)"
    and V: "V (w + 1) = upd (w + 1) off buf (V w)"
  obtains s' where "wr j buf off (w + 1) s = Some s'" "holds V (w + 1) s'" "committed s' = committed s"
proof -
  have i: "inv w s" and v: "\<forall>n. committed s \<le> n \<and> n \<le> w \<longrightarrow> version s n = V n"
    using assms(1) by (simp_all add: holds_def)
  obtain s' where s': "wr j buf off (w + 1) s = Some s'" "inv (w + 1) s'" "committed s' = committed s"
      "version s' (w + 1) = upd (w + 1) off buf (version s w)"
      "\<forall>n. committed s \<le> n \<and> n \<le> w \<longrightarrow> version s' n = version s n"
    using wr_law [OF i assms(2-4)] by blast
  have "version s' n = V n" if "committed s \<le> n" "n \<le> w + 1" for n
    using that s'(4,5) v V committed_le [OF i] by (cases "n = w + 1") auto
  then show ?thesis using that [of s'] s' by (simp add: holds_def)
qed

lemma holds_commit:
  assumes "holds V w s" and "committed s < w" and "int64_range (committed s + 1)"
  obtains s' where "commit (committed s + 1) off s = Some s'" "holds V w s'" "committed s' = committed s + 1"
  using commit_law [OF _ assms(2,3), of off] assms(1) that by (force simp: holds_def)

text \<open>Two volumes that hold the same history agree on every version both still have.\<close>

lemma holds_agree:
  assumes "holds V w s" "holds V w' s'" and "committed s \<le> n" "n \<le> w" and "committed s' \<le> n" "n \<le> w'"
  shows "version s n = version s' n"
  using assms by (simp add: holds_def)

lemma holds_cong: "holds V w s \<Longrightarrow> (\<And>n. n \<le> w \<Longrightarrow> V' n = V n) \<Longrightarrow> holds V' w s"
  by (simp add: holds_def)

end

section \<open>The volume of the server\<close>

definition volume_inv :: "int \<Rightarrow> storage \<Rightarrow> bool" where
  "volume_inv w s \<longleftrightarrow> storage_inv w s \<and> num_total_blocks s < 2 ^ 31"

text \<open>
  An aligned write with room for its blocks, whose stray block, if it writes one, lands past the
  blocks in use.
\<close>

definition store_ok :: "(nat \<Rightarrow> int) \<Rightarrow> int \<Rightarrow> storage \<Rightarrow> bool" where
  "store_ok junk off s \<longleftrightarrow> access_ok off \<and> off mod 4096 = 0 \<and> num_total_blocks s + 7 < 2 ^ 31 \<and> stray_ok junk off s"

lemma written_total: "written s r v0 v1 b q f uw r' s' \<Longrightarrow> num_total_blocks s' \<le> num_total_blocks s + 7"
  by (simp add: written_def grown_def)

text \<open>
  A version is the contents together with the marks of its blocks. The arguments of \<open>mark_write\<close> are
  those of a write: the number, the offset and the data.
\<close>

type_synonym version = "(int \<Rightarrow> byte) \<times> (int \<Rightarrow> int \<times> bool)"

definition version_at :: "storage \<Rightarrow> int \<Rightarrow> version" where
  "version_at s n = (volume s n, marks s n)"

definition mark_write :: "int \<Rightarrow> int \<Rightarrow> block \<Rightarrow> version \<Rightarrow> version" where
  "mark_write q off buf v = (spec_write off buf (fst v), (snd v)(off := (q, True)))"

definition blank :: version where
  "blank = (\<lambda>x. 0, \<lambda>v. (0, False))"

lemma new_volume_blank: "version_at new_volume 0 = blank"
proof -
  have "root_of new_volume 0 = 0"
    by (simp add: root_of_def committed_root_def new_volume_def new_process_def first_level_block_def)
  then show ?thesis using new_volume_zero by (auto simp: version_at_def blank_def marks_def fun_eq_iff)
qed

text \<open>
  The marks of a volume whose last write is \<open>c\<close>: no block is newer, the block of that write is as new, and
  a block with a number has been written.
\<close>

definition latest_marks :: "int \<Rightarrow> version \<Rightarrow> bool" where
  "latest_marks c v \<longleftrightarrow> (\<forall>u. cell u \<longrightarrow> fst (snd v u) \<le> c) \<and> (0 < c \<longrightarrow> (\<exists>u. cell u \<and> fst (snd v u) = c)) \<and>
     (\<forall>u. 0 < fst (snd v u) \<longrightarrow> snd (snd v u))"

lemma latest_marks_blank: "latest_marks 0 blank"
  by (simp add: latest_marks_def blank_def)

lemma latest_marks_write:
  assumes "latest_marks c v" and "0 \<le> c" and "cell off"
  shows "latest_marks (c + 1) (mark_write (c + 1) off buf v)"
  using assms by (auto simp: latest_marks_def mark_write_def)

lemma fst_mark_write [simp]: "fst (mark_write q off buf v) = spec_write off buf (fst v)"
  by (simp add: mark_write_def)

interpretation st: versioned_volume storage_write storage_commit volume_inv version_at mark_write last_committed store_ok
proof unfold_locales
  fix w s j off buf
  assume i: "volume_inv w s"
  then have inv: "storage_inv w s" and tot: "num_total_blocks s < 2 ^ 31" by (simp_all add: volume_inv_def)
  show "last_committed s \<le> w" by (rule storage_invD(1) [OF inv])
  show "\<exists>s'. storage_write j buf off (w + 1) s = Some s' \<and> volume_inv (w + 1) s' \<and>
      last_committed s' = last_committed s \<and> version_at s' (w + 1) = mark_write (w + 1) off buf (version_at s w) \<and>
      (\<forall>n. last_committed s \<le> n \<and> n \<le> w \<longrightarrow> version_at s' n = version_at s n)"
    if ok: "store_ok j off s" and len: "BLOCK_SIZE \<le> length buf" and rng: "int64_range (w + 1)"
  proof -
    have o: "access_ok off" "off mod 4096 = 0" "num_total_blocks s + 7 < 2 ^ 31" "stray_ok j off s"
      using ok by (simp_all add: store_ok_def)
    have rl: "off mod 4096 \<noteq> 0 \<Longrightarrow> reads_latest w s" using o(2) by simp
    obtain s' v0 v1 b f uw r' where s': "storage_write j buf off (w + 1) s = Some s'"
      and wr: "written s (root_of s w) v0 v1 b (w + 1) f uw r' s'" and inv': "storage_inv (w + 1) s'"
      and vol: "volume s' (w + 1) = spec_write off buf (volume s w)" and v: "v0 = off" "v1 = off"
      using storage_write_inv [OF inv rl o(3) rng o(1) len o(4)] o(2) by (metis diff_zero)
    have c: "cell off" using cell_of_access [OF o(1)] o(2) by simp
    have "num_total_blocks s' < 2 ^ 31" using written_total [OF wr] o(3) by linarith
    then show ?thesis
      using s' inv' vol written_roots(4) [OF wr] written_volume_old [OF inv wr] written_marks_old [OF inv wr]
        written_marks_new [OF wr [unfolded v] c] by (simp add: volume_inv_def version_at_def mark_write_def)
  qed
  show "\<exists>s'. storage_commit (last_committed s + 1) off s = Some s' \<and> volume_inv w s' \<and>
      last_committed s' = last_committed s + 1 \<and>
      (\<forall>n. last_committed s < n \<and> n \<le> w \<longrightarrow> version_at s' n = version_at s n)"
    if lt: "last_committed s < w" and rng: "int64_range (last_committed s + 1)"
  proof -
    have le: "last_committed s + 1 \<le> w" using lt by simp
    obtain s' uw where s': "storage_commit (last_committed s + 1) off s = Some s'" "storage_inv w s'"
        "last_committed s' = last_committed s + 1"
        "\<forall>m. last_committed s + 1 \<le> m \<and> m \<le> w \<longrightarrow> volume s' m = volume s m"
      and u: "uncommitted_writes s (last_committed s + 1) = Some uw"
      and e: "s' = (synced_state (tables_state (last_committed s + 1) (off - off smod 4096) s))
          \<lparr>free_blocks := free_blocks s @ to_free uw\<rparr>"
      using storage_commit_inv [OF inv refl le rng tot, of off] .
    have "num_total_blocks s' = num_total_blocks s" by (simp add: e synced_state_def tables_state_def)
    then show ?thesis using s' tot commit_marks [OF inv refl le rng tot u e] by (simp add: volume_inv_def version_at_def)
  qed
qed

end
