(* ===== verification/Volume_Choice.thy ===== *)
theory Volume_Choice
  imports Nonatomic_Limits Replica
begin

text \<open>
  The two implementations of \<^verbatim>\<open>storage.hpp\<close> side by side. Used one write at a time (each write is
  committed before the next one), they are the same array of bytes: the locale \<open>block_store\<close> is
  that contract, both implementations are instances of it, and two instances that start
  alike return the same blocks for ever.
\<close>

section \<open>One write at a time\<close>

type_synonym put_request = "(nat \<Rightarrow> int) \<times> block \<times> int"

text \<open>Numbered writes, one after the other; the first gets the number after \<open>w\<close>.\<close>

fun put_seq ::
  "((nat \<Rightarrow> int) \<Rightarrow> block \<Rightarrow> int \<Rightarrow> int \<Rightarrow> 's \<Rightarrow> 's option) \<Rightarrow> int \<Rightarrow> put_request list \<Rightarrow> 's \<Rightarrow> 's option" where
  "put_seq put w [] s = Some s"
| "put_seq put w ((j, buf, off) # ws) s = do { s \<leftarrow> put j buf off (w + 1) s; put_seq put (w + 1) ws s }"

definition spec_puts :: "put_request list \<Rightarrow> (int \<Rightarrow> byte) \<Rightarrow> int \<Rightarrow> byte" where
  "spec_puts ws vol = fold (\<lambda>(j, buf, off). spec_write off buf) ws vol"

text \<open>
  The contract: \<open>used\<close> counts the blocks taken so far, a write takes at most \<open>cost\<close> more, and
  \<open>safe\<close> says when a write is harmless if no more than \<open>k\<close> blocks are taken.
\<close>

locale block_store =
  fixes put :: "(nat \<Rightarrow> int) \<Rightarrow> block \<Rightarrow> int \<Rightarrow> int \<Rightarrow> 's \<Rightarrow> 's option"
    and get :: "'s \<Rightarrow> int \<Rightarrow> block option"
    and seqnum :: "'s \<Rightarrow> int option"
    and inv :: "int \<Rightarrow> 's \<Rightarrow> bool"
    and contents :: "'s \<Rightarrow> int \<Rightarrow> byte"
    and used :: "'s \<Rightarrow> int"
    and cost :: int
    and safe :: "(nat \<Rightarrow> int) \<Rightarrow> int \<Rightarrow> int \<Rightarrow> bool"
  assumes get_law: "inv w s \<Longrightarrow> access_ok off \<Longrightarrow> get s off = Some (spec_read off (contents s))"
    and seqnum_law: "inv w s \<Longrightarrow> seqnum s = Some w"
    and put_law: "inv w s \<Longrightarrow> access_ok off \<Longrightarrow> BLOCK_SIZE \<le> length buf \<Longrightarrow> int64_range (w + 1) \<Longrightarrow>
      used s \<le> k \<Longrightarrow> safe j off k \<Longrightarrow>
      \<exists>s'. put j buf off (w + 1) s = Some s' \<and> inv (w + 1) s' \<and> contents s' = spec_write off buf (contents s) \<and>
        used s' \<le> used s + cost"
    and cost_nonneg: "0 \<le> cost"
begin

definition harmless :: "int \<Rightarrow> put_request list \<Rightarrow> bool" where
  "harmless k ws \<longleftrightarrow> (\<forall>(j, buf, off) \<in> set ws. access_ok off \<and> BLOCK_SIZE \<le> length buf \<and> safe j off k)"

lemma put_seq_law:
  assumes "inv w s" and "harmless k ws" and "used s + cost * int (length ws) \<le> k"
    and "int64_range w" and "int64_range (w + int (length ws))"
  shows "\<exists>s'. put_seq put w ws s = Some s' \<and> inv (w + int (length ws)) s' \<and> contents s' = spec_puts ws (contents s)"
  using assms
proof (induction ws arbitrary: w s)
  case (Cons x ws)
  obtain j buf off where x: "x = (j, buf, off)" by (cases x)
  have h: "access_ok off" "BLOCK_SIZE \<le> length buf" "safe j off k" "harmless k ws"
    using Cons.prems(2) by (simp_all add: harmless_def x)
  have "0 \<le> cost * (1 + int (length ws))" "0 \<le> cost * int (length ws)" using cost_nonneg by simp_all
  then have u: "used s \<le> k" using Cons.prems(3) by simp
  have r: "int64_range (w + 1)" using Cons.prems(4,5) by (simp add: int64_range_def)
  obtain s1 where s1: "put j buf off (w + 1) s = Some s1" "inv (w + 1) s1" "contents s1 = spec_write off buf (contents s)"
      "used s1 \<le> used s + cost"
    using put_law [OF Cons.prems(1) h(1,2) r u h(3)] by blast
  have u1: "used s1 + cost * int (length ws) \<le> k" using s1(4) Cons.prems(3) by (simp add: distrib_left)
  have n: "w + 1 + int (length ws) = w + int (length (x # ws))" by simp
  obtain s' where "put_seq put (w + 1) ws s1 = Some s'" "inv (w + 1 + int (length ws)) s'" "contents s' = spec_puts ws (contents s1)"
    using Cons.IH [OF s1(2) h(4) u1 r] Cons.prems(5) n by auto
  then show ?case using s1 n by (simp add: x spec_puts_def)
qed (simp add: spec_puts_def)

end

locale store_pair =
  a: block_store put1 get1 seqnum1 inv1 contents1 used1 cost1 safe1 +
  b: block_store put2 get2 seqnum2 inv2 contents2 used2 cost2 safe2
  for put1 get1 seqnum1 inv1 contents1 used1 cost1 safe1 and put2 get2 seqnum2 inv2 contents2 used2 cost2 safe2
begin

lemma agree:
  assumes "inv1 w s" and "inv2 w t" and "contents1 s = contents2 t" and "int64_range w" and "int64_range (w + int (length ws))"
    and "a.harmless (used1 s + cost1 * int (length ws)) ws" and "b.harmless (used2 t + cost2 * int (length ws)) ws"
  shows "\<exists>s' t'. put_seq put1 w ws s = Some s' \<and> put_seq put2 w ws t = Some t' \<and>
    (\<forall>off. access_ok off \<longrightarrow> get1 s' off = get2 t' off) \<and> seqnum1 s' = seqnum2 t'"
proof -
  obtain s' where s': "put_seq put1 w ws s = Some s'" "inv1 (w + int (length ws)) s'" "contents1 s' = spec_puts ws (contents1 s)"
    using a.put_seq_law [OF assms(1,6) order_refl assms(4,5)] by blast
  obtain t' where t': "put_seq put2 w ws t = Some t'" "inv2 (w + int (length ws)) t'" "contents2 t' = spec_puts ws (contents2 t)"
    using b.put_seq_law [OF assms(2,7) order_refl assms(4,5)] by blast
  show ?thesis
    using s' t' assms(3) a.get_law [OF s'(2)] b.get_law [OF t'(2)] a.seqnum_law [OF s'(2)] b.seqnum_law [OF t'(2)] by auto
qed

end

section \<open>The atomic volume\<close>

definition atomic_put :: "(nat \<Rightarrow> int) \<Rightarrow> block \<Rightarrow> int \<Rightarrow> int \<Rightarrow> storage \<Rightarrow> storage option" where
  "atomic_put junk buf off q s = do { s \<leftarrow> storage_write junk buf off q s; storage_commit q off s }"

definition atomic_inv :: "int \<Rightarrow> storage \<Rightarrow> bool" where
  "atomic_inv w s \<longleftrightarrow> volume_inv w s \<and> last_committed s = w \<and> (\<exists>H. tracked H w s)"

definition atomic_safe :: "(nat \<Rightarrow> int) \<Rightarrow> int \<Rightarrow> int \<Rightarrow> bool" where
  "atomic_safe junk off k \<longleftrightarrow> k + 7 < 2 ^ 31 \<and> (aligned off \<longrightarrow>
     (get_second_level off \<noteq> 0 \<longrightarrow> k + 8 < junk 1) \<and> (get_third_level off \<noteq> 0 \<longrightarrow> k + 8 < junk 2))"

interpretation at: block_store atomic_put storage_read "\<lambda>s. Some (get_sequence_number s)" atomic_inv
    "\<lambda>s. volume s (last_committed s)" num_total_blocks 7 atomic_safe
proof unfold_locales
  fix w s off
  assume i: "atomic_inv w s"
  then have inv: "storage_inv w s" and lc: "last_committed s = w" by (simp_all add: atomic_inv_def volume_inv_def)
  obtain H where tr: "tracked H w s" using i by (auto simp: atomic_inv_def)
  have rl: "reads_latest w s" by (rule tracked_reads_latest [OF inv tr])
  show "storage_read s off = Some (spec_read off (volume s (last_committed s)))" if "access_ok off"
    using storage_read_latest [OF inv rl that] lc by simp
  show "Some (get_sequence_number s) = Some w" using lc by (simp add: get_sequence_number_def)
  show "\<exists>s'. atomic_put j buf off (w + 1) s = Some s' \<and> atomic_inv (w + 1) s' \<and>
      volume s' (last_committed s') = spec_write off buf (volume s (last_committed s)) \<and>
      num_total_blocks s' \<le> num_total_blocks s + 7"
    if ok: "access_ok off" and len: "BLOCK_SIZE \<le> length buf" and rng: "int64_range (w + 1)"
      and k: "num_total_blocks s \<le> k" and sf: "atomic_safe j off k" for buf k j
  proof -
    have room: "num_total_blocks s + 7 < 2 ^ 31" and st: "stray_ok j off s"
      using sf k by (auto simp: atomic_safe_def stray_ok_def)
    obtain s1 v0 v1 b f uw r' where w: "storage_write j buf off (w + 1) s = Some s1"
      and wr: "written s (root_of s w) v0 v1 b (w + 1) f uw r' s1" and inv1: "storage_inv (w + 1) s1"
      and vol: "volume s1 (w + 1) = spec_write off buf (volume s w)"
      and v: "v0 = off - off mod 4096" "v1 = (if off mod 4096 = 0 then v0 else v0 + 4096)"
      using storage_write_inv [OF inv rl room rng ok len st] by metis
    have tr1: "tracked (H(w + 1 := off)) (w + 1) s1" by (rule tracked_write [OF inv tr wr v])
    have n: "w + 1 = last_committed s1 + 1" using written_roots(4) [OF wr] lc by simp
    have tot: "num_total_blocks s1 < 2 ^ 31" "num_total_blocks s1 \<le> num_total_blocks s + 7"
      using written_total [OF wr] room by linarith+
    obtain s' uw' where c: "storage_commit (w + 1) off s1 = Some s'" "storage_inv (w + 1) s'" "last_committed s' = w + 1"
        "\<forall>m. w + 1 \<le> m \<and> m \<le> w + 1 \<longrightarrow> volume s' m = volume s1 m"
      and u: "uncommitted_writes s1 (w + 1) = Some uw'"
      and e: "s' = (synced_state (tables_state (w + 1) (off - off smod 4096) s1))\<lparr>free_blocks := free_blocks s1 @ to_free uw'\<rparr>"
      using storage_commit_inv [OF inv1 n order_refl rng tot(1), of off] .
    have "tracked (H(w + 1 := off)) (w + 1) s'"
      by (rule tracked_commit [OF inv1 tr1 n order_refl rng tot(1) _ u e]) simp
    moreover have "num_total_blocks s' = num_total_blocks s1" by (simp add: e synced_state_def tables_state_def)
    ultimately show ?thesis
      using w c tot vol lc by (auto simp: atomic_put_def atomic_inv_def volume_inv_def)
  qed
qed simp

section \<open>The non-atomic volume\<close>

definition na_put :: "(nat \<Rightarrow> int) \<Rightarrow> block \<Rightarrow> int \<Rightarrow> int \<Rightarrow> na_storage \<Rightarrow> na_storage option" where
  "na_put junk buf off q s = do { s \<leftarrow> na_write buf off q s; na_commit q off s }"

definition na_store_inv :: "int \<Rightarrow> na_storage \<Rightarrow> bool" where
  "na_store_inv w s \<longleftrightarrow> na_wf s \<and> na_pending_blocks s = Map.empty \<and> na_uncommitted_writes s = Map.empty \<and>
     na_get_sequence_number s = Some w"

definition na_safe :: "(nat \<Rightarrow> int) \<Rightarrow> int \<Rightarrow> int \<Rightarrow> bool" where
  "na_safe junk off k \<longleftrightarrow> k + 2 < 2 ^ 31"

interpretation na: block_store na_put na_read na_get_sequence_number na_store_inv na_volume na_num_total_blocks 2 na_safe
proof unfold_locales
  fix w s off
  assume i: "na_store_inv w s"
  then have wf: "na_wf s" by (simp add: na_store_inv_def)
  then have inv: "na_inv (\<lambda>_. off) s" using i by (simp add: na_inv_def na_store_inv_def)
  show "na_read s off = Some (spec_read off (na_volume s))" if "access_ok off" by (rule na_read_volume [OF wf that])
  show "na_get_sequence_number s = Some w" using i by (simp add: na_store_inv_def)
  show "\<exists>s'. na_put j buf off (w + 1) s = Some s' \<and> na_store_inv (w + 1) s' \<and> na_volume s' = spec_write off buf (na_volume s) \<and>
      na_num_total_blocks s' \<le> na_num_total_blocks s + 2"
    if ok: "access_ok off" and len: "BLOCK_SIZE \<le> length buf" and rng: "int64_range (w + 1)"
      and k: "na_num_total_blocks s \<le> k" and sf: "na_safe j off k" for buf k j
  proof -
    have room: "na_num_total_blocks s + 2 < 2 ^ 31" using sf k by (simp add: na_safe_def)
    have new: "blocks_of off \<inter> dom (na_pending_blocks s) = {}" using i by (simp add: na_store_inv_def)
    obtain s1 where s1: "na_write buf off (w + 1) s = Some s1" "na_inv ((\<lambda>_. off)(w + 1 := off)) s1"
      "\<forall>u. cell u \<longrightarrow> entry_at (na_file s1) u = entry_at (na_file s) u"
      "na_volume s1 = spec_write off buf (na_volume s)" "dom (na_uncommitted_writes s1) = insert (w + 1) (dom (na_uncommitted_writes s))"
      "na_num_total_blocks s1 \<le> na_num_total_blocks s + 2" "\<forall>u. u \<notin> blocks_of off \<longrightarrow> na_pending_blocks s1 u = na_pending_blocks s u"
      using na_write_inv [OF inv room ok len new] .
    then have d: "dom (na_uncommitted_writes s1) = {w + 1}" using i by (simp add: na_store_inv_def)
    then obtain uw where uw: "na_uncommitted_writes s1 (w + 1) = Some uw" by blast
    have inv1: "na_inv (\<lambda>_. off) s1" using s1(2) by (simp add: fun_upd_idem)
    obtain s' where s': "na_commit (w + 1) off s1 = Some s'" "na_inv (\<lambda>_. off) s'" "na_volume s' = na_volume s1"
      "na_get_sequence_number s' = Some (w + 1)" "na_uncommitted_writes s' = (na_uncommitted_writes s1)(w + 1 := None)"
      "na_pending_blocks s' = (\<lambda>v. if v \<in> blocks_of off then None else na_pending_blocks s1 v)"
      "na_num_total_blocks s' = na_num_total_blocks s1"
      using na_commit_inv [OF inv1 uw rng] .
    have "na_uncommitted_writes s' = Map.empty" using s'(5) d by (auto simp: fun_eq_iff dom_def)
    moreover have "na_pending_blocks s' = Map.empty" using s'(6) s1(7) i by (auto simp: fun_eq_iff na_store_inv_def)
    ultimately show ?thesis
      using s1 s' na_invD(1) [OF s'(2)] by (simp add: na_put_def na_store_inv_def)
  qed
qed simp

interpretation both: store_pair atomic_put storage_read "\<lambda>s. Some (get_sequence_number s)" atomic_inv
    "\<lambda>s. volume s (last_committed s)" num_total_blocks 7 atomic_safe
    na_put na_read na_get_sequence_number na_store_inv na_volume na_num_total_blocks 2 na_safe
  by unfold_locales

section \<open>The two agree\<close>

lemma new_volumes: "atomic_inv 0 new_volume" "na_store_inv 0 na_new_volume" "volume new_volume 0 = na_volume na_new_volume"
proof -
  show "atomic_inv 0 new_volume"
    using new_volume_inv new_volume_committed new_volume_tracked new_volume_total
    by (auto simp: atomic_inv_def volume_inv_def)
  show "na_store_inv 0 na_new_volume"
    using na_invD(1) [OF na_new_inv] na_new_sequence by (simp add: na_store_inv_def) (simp add: na_new_volume_def)
  show "volume new_volume 0 = na_volume na_new_volume" using new_volume_zero na_new_zero by auto
qed

text \<open>
  C31. The two implementations of the volume are interchangeable when every write is committed
  before the next one: started with the same contents, both carry out any sequence of writes
  inside the volume, aligned or not, and afterwards every read returns the same block from both and
  both report the same sequence number. There have to be block numbers left, and the stray block of the
  atomic implementation must not hit a block in use.
\<close>

theorem implementations_agree:
  assumes "atomic_inv w s" and "na_store_inv w t" and "volume s w = na_volume t"
    and "int64_range w" and "int64_range (w + int (length ws))"
    and "\<forall>(junk, buf, off) \<in> set ws. access_ok off \<and> BLOCK_SIZE \<le> length buf \<and>
      atomic_safe junk off (num_total_blocks s + 7 * int (length ws)) \<and> na_safe junk off (na_num_total_blocks t + 2 * int (length ws))"
  shows "\<exists>s' t'. put_seq atomic_put w ws s = Some s' \<and> put_seq na_put w ws t = Some t' \<and>
    (\<forall>off. access_ok off \<longrightarrow> storage_read s' off = na_read t' off) \<and>
    Some (get_sequence_number s') = na_get_sequence_number t'"
  using assms by (intro both.agree) (auto simp: atomic_inv_def at.harmless_def na.harmless_def)

theorem implementations_agree_witness:
  "\<exists>s' t'. put_seq atomic_put 0 [(\<lambda>_. 0, replicate 4096 7, 100), (\<lambda>_. 0, replicate 4096 9, 2000)] new_volume = Some s' \<and>
    put_seq na_put 0 [(\<lambda>_. 0, replicate 4096 7, 100), (\<lambda>_. 0, replicate 4096 9, 2000)] na_new_volume = Some t' \<and>
    (\<forall>off. access_ok off \<longrightarrow> storage_read s' off = na_read t' off) \<and>
    Some (get_sequence_number s') = na_get_sequence_number t'"
  by (rule implementations_agree [OF new_volumes])
     (simp_all add: int64_range_def access_ok_def VOLUME_SIZE_def atomic_safe_def na_safe_def aligned_def new_volume_total,
      simp add: na_new_volume_def)

end
