(* ===== verification/Storage_Walk.thy ===== *)
theory Storage_Walk
  imports Storage_Refine
begin

text \<open>
  The nested loops that walk the whole tree (\<^verbatim>\<open>open_volume\<close>, \<^verbatim>\<open>get_modified_offsets\<close>,
  \<^verbatim>\<open>checksum\<close>), described by the list of paths they visit.
\<close>

declare addr.simps(2) [simp del]

section \<open>The order of the walk\<close>

definition slots :: "nat list" where "slots = [0..<512]"
definition entries :: "nat list" where "entries = [0..<256]"

lemma slots_simps [simp]: "j \<in> set slots \<longleftrightarrow> j < 512" "distinct slots"
  and entries_simps [simp]: "l \<in> set entries \<longleftrightarrow> l < 256" "distinct entries"
  by (simp_all only: slots_def entries_def set_upt distinct_upt atLeastLessThan_iff) simp_all

lemma upto_upt: "[0..int n - 1] = map int [0..<n]"
proof (induction n)
  case (Suc n)
  have "[0..int (Suc n) - 1] = [0..int n - 1] @ [int n]"
    using upto_rec2 [of 0 "int n"] by simp
  then show ?case using Suc by simp
qed simp

lemma upto_slots: "[0..NUM_INDIRECT - 1] = map int slots"
  and upto_entries: "[0..NUM_ENTRIES - 1] = map int entries"
  and upto_first: "[0..NUM_FIRST_LEVEL - 1] = [0]"
proof -
  have n: "NUM_INDIRECT - 1 = int 512 - 1" "NUM_ENTRIES - 1 = int 256 - 1" "NUM_FIRST_LEVEL - 1 = 0" by simp_all
  show "[0..NUM_INDIRECT - 1] = map int slots" "[0..NUM_ENTRIES - 1] = map int entries"
    unfolding n slots_def entries_def by (rule upto_upt)+
  show "[0..NUM_FIRST_LEVEL - 1] = [0]" unfolding n by simp
qed

definition leaf_paths :: "nat \<Rightarrow> nat \<Rightarrow> nat list list" where
  "leaf_paths j k = map (\<lambda>l. [j, k, 2 * l + 1]) entries"

definition third_paths :: "nat \<Rightarrow> nat \<Rightarrow> nat list list" where
  "third_paths j k = [j, k] # leaf_paths j k"

definition second_paths :: "nat \<Rightarrow> nat list list" where
  "second_paths j = [j] # concat (map (third_paths j) slots)"

definition walk :: "nat list list" where
  "walk = [] # concat (map second_paths slots)"

lemma leaf_paths_iff: "p \<in> set (leaf_paths j k) \<longleftrightarrow> (\<exists>l < 256. p = [j, k, 2 * l + 1])"
  by (auto simp: leaf_paths_def)

lemma walk_tree: "p \<in> set walk \<longleftrightarrow> tree_path p"
proof
  assume "p \<in> set walk"
  then show "tree_path p"
    by (auto simp: walk_def second_paths_def third_paths_def leaf_paths_iff)
next
  assume t: "tree_path p"
  show "p \<in> set walk"
    using tree_raw [OF t]
  proof (cases rule: raw_path_cases)
    case (4 j k l)
    then have "odd l" using t by simp
    then obtain i where "l = 2 * i + 1" by (rule oddE)
    then show ?thesis using 4 by (auto simp: walk_def second_paths_def third_paths_def leaf_paths_iff)
  next
    case (3 j k)
    then have "p \<in> set (third_paths j k)" by (simp add: third_paths_def)
    then have "p \<in> set (second_paths j)" using 3 by (auto simp: second_paths_def)
    then show ?thesis using 3 by (auto simp: walk_def)
  qed (auto simp: walk_def second_paths_def)
qed

lemma distinct_walk: "distinct walk"
proof -
  have l: "distinct (leaf_paths j k)" for j k by (simp add: leaf_paths_def distinct_map inj_on_def)
  have t: "distinct (third_paths j k)" for j k using l by (auto simp: third_paths_def leaf_paths_iff)
  have t2: "p \<in> set (third_paths j k) \<Longrightarrow> hd p = j \<and> p ! 1 = k \<and> length p \<ge> 2" for p j k
    by (auto simp: third_paths_def leaf_paths_iff)
  have c: "distinct (concat (map f xs))" if "distinct xs" "\<And>x. distinct (f x)"
      "\<And>x y p. p \<in> set (f x) \<Longrightarrow> p \<in> set (f y) \<Longrightarrow> x = y" for f :: "nat \<Rightarrow> nat list list" and xs
    using that by (induction xs) auto
  have s: "distinct (second_paths j)" for j
  proof -
    have "distinct (concat (map (third_paths j) slots))"
      using t t2 by (intro c) (simp, blast, metis)
    then show ?thesis using t2 by (fastforce simp: second_paths_def)
  qed
  have s2: "p \<in> set (second_paths j) \<Longrightarrow> hd p = j \<and> p \<noteq> []" for p j
    using t2 by (fastforce simp: second_paths_def)
  have "distinct (concat (map second_paths slots))"
    using s s2 by (intro c) (simp, blast, metis)
  then show ?thesis using s2 by (auto simp: walk_def)
qed

section \<open>Blocks in use\<close>

lemma collect_Some:
  "(\<And>x. x \<in> set xs \<Longrightarrow> f x = Some (g x)) \<Longrightarrow> collect f xs = Some (concat (map g xs))"
  by (induction xs) auto

definition nonzero_addrs :: "(int \<Rightarrow> block) \<Rightarrow> int \<Rightarrow> nat list list \<Rightarrow> int list" where
  "nonzero_addrs d r ps = filter (\<lambda>n. n \<noteq> 0) (map (addr d r) ps)"

lemma nonzero_addrs_concat: "nonzero_addrs d r (concat pss) = concat (map (nonzero_addrs d r) pss)"
  by (induction pss) (simp_all add: nonzero_addrs_def)

lemma nonzero_addrs_Cons:
  "nonzero_addrs d r (p # ps) = (if addr d r p = 0 then [] else [addr d r p]) @ nonzero_addrs d r ps"
  by (simp add: nonzero_addrs_def)

lemma nonzero_addrs_none: "(\<And>p. p \<in> set ps \<Longrightarrow> addr d r p = 0) \<Longrightarrow> nonzero_addrs d r ps = []"
  by (simp add: nonzero_addrs_def)

lemma addr_below_zero: "addr d r p = 0 \<Longrightarrow> addr d r (p @ q) = 0"
  by (induction q rule: rev_induct) (simp_all add: addr_snoc flip: append_assoc)

text \<open>One loop over the slots of a metadata block, and the loop over the entries of a leaf.\<close>

lemma collect_slots:
  assumes wf: "wf_tree (disk s) (file_blocks s) r" and p: "raw_path p" "length p \<le> 1" "addr (disk s) r p \<noteq> 0"
    and step: "\<And>i. i < 512 \<Longrightarrow> addr (disk s) r (p @ [i]) \<noteq> 0 \<Longrightarrow>
      body (int i) (addr (disk s) r (p @ [i])) (disk s (addr (disk s) r (p @ [i]))) = Some (g i)"
    and none: "\<And>i. addr (disk s) r (p @ [i]) = 0 \<Longrightarrow> g i = []"
  shows "collect (\<lambda>j. let n = indirect_block (disk s (addr (disk s) r p)) j in
      if n \<noteq> 0 then do { c \<leftarrow> read_block_fresh s n; body j n c } else Some []) (map int slots)
    = Some (concat (map g slots))" (is "collect ?f _ = _")
proof -
  have "?f (int i) = Some (g i)" if "i < 512" for i
  proof -
    have t: "tree_path (p @ [i])"
      using p that by (cases p rule: rev_cases) (auto simp: tree_path_def raw_path_snoc)
    have "indirect_block (disk s (addr (disk s) r p)) (int i) = addr (disk s) r (p @ [i])"
      using p(3) by (simp add: indirect_block_def addr_snoc)
    then show ?thesis
      using step [OF that] none [of i] read_block_live(2) [OF wf t] by (simp add: Let_def)
  qed
  then have "collect ?f (map int slots) = Some (concat (map (\<lambda>j. g (nat j)) (map int slots)))"
    by (intro collect_Some) auto
  then show ?thesis by (simp add: comp_def)
qed

lemma collect_entries:
  assumes "\<And>l. l < 256 \<Longrightarrow> f (int l) = Some (g l)"
  shows "collect f (map int entries) = Some (concat (map g entries))"
proof -
  have "collect f (map int entries) = Some (concat (map (\<lambda>l. g (nat l)) (map int entries)))"
    using assms by (intro collect_Some) auto
  then show ?thesis by (simp add: comp_def)
qed

lemma read_root:
  "wf_tree (disk s) (file_blocks s) r \<Longrightarrow> r \<noteq> 0 \<Longrightarrow> read_block_fresh s r = Some (disk s r)"
  using read_block_live(2) [of s r "[]"] by simp

lemma leaf_addr:
  "addr d r [j, k] \<noteq> 0 \<Longrightarrow> entry_file_block_num (d (addr d r [j, k])) (int l) = addr d r [j, k, 2 * l + 1]"
  "addr d r [j, k] \<noteq> 0 \<Longrightarrow> entry_last_updated (d (addr d r [j, k])) (int l) = addr d r [j, k, 2 * l]"
  using addr_snoc [of d r "[j, k]"]
  by (simp_all add: entry_file_block_num_def entry_last_updated_def)

lemma nonzero_leaf: "nonzero_addrs d r (leaf_paths j k) = concat (map (\<lambda>l. nonzero_addrs d r [[j, k, 2 * l + 1]]) entries)"
proof -
  have "nonzero_addrs d r (map (\<lambda>l. [j, k, 2 * l + 1]) ls) =
      concat (map (\<lambda>l. nonzero_addrs d r [[j, k, 2 * l + 1]]) ls)" for ls
    by (induction ls) (simp_all add: nonzero_addrs_def)
  then show ?thesis unfolding leaf_paths_def .
qed

lemma below_zero:
  "addr d r [j, k] = 0 \<Longrightarrow> p \<in> set (third_paths j k) \<Longrightarrow> addr d r p = 0"
  "addr d r [j] = 0 \<Longrightarrow> p \<in> set (second_paths j) \<Longrightarrow> addr d r p = 0"
  "p \<in> set walk \<Longrightarrow> addr d 0 p = 0"
  using addr_below_zero [of d r "[j, k]"] addr_below_zero [of d r "[j]"]
  by (auto simp: second_paths_def third_paths_def leaf_paths_iff)

lemma used_blocks_walk:
  assumes wf: "wf_tree (disk s) (file_blocks s) (committed_root s)"
  shows "used_blocks s = Some (nonzero_addrs (disk s) (committed_root s) walk)"
proof (cases "committed_root s = 0")
  case True
  then have "nonzero_addrs (disk s) (committed_root s) walk = []"
    by (simp add: nonzero_addrs_none)
  with True show ?thesis
    by (simp add: used_blocks_empty committed_root_def)
next
  case False
  let ?d = "disk s" and ?r = "committed_root s"
  let ?N = "nonzero_addrs ?d ?r"
  have leaf: "collect (\<lambda>l. let data_block_num = entry_file_block_num (?d (addr ?d ?r [j, k])) l
                   in Some (if data_block_num \<noteq> 0 then [data_block_num] else [])) (map int entries)
      = Some (?N (leaf_paths j k))" if "addr ?d ?r [j, k] \<noteq> 0" for j k
    unfolding nonzero_leaf
    by (rule collect_entries) (simp add: leaf_addr(1) [OF that] nonzero_addrs_def Let_def)
  have third: "collect (\<lambda>k. let third_block_num = indirect_block (?d (addr ?d ?r [j])) k in
      if third_block_num \<noteq> 0 then do {
        third \<leftarrow> read_block_fresh s third_block_num;
        rest \<leftarrow> collect (\<lambda>l. let data_block_num = entry_file_block_num third l
                   in Some (if data_block_num \<noteq> 0 then [data_block_num] else [])) (map int entries);
        Some (third_block_num # rest) } else Some []) (map int slots)
      = Some (concat (map (\<lambda>k. ?N (third_paths j k)) slots))" if "addr ?d ?r [j] \<noteq> 0" "j < 512" for j
    by (rule collect_slots [OF wf, of "[j]"])
       (use that leaf in \<open>simp_all add: third_paths_def nonzero_addrs_Cons nonzero_addrs_none [OF below_zero(1)]\<close>)
  have second: "collect (\<lambda>j. let second_block_num = indirect_block (?d (addr ?d ?r [])) j in
      if second_block_num \<noteq> 0 then do {
        second \<leftarrow> read_block_fresh s second_block_num;
        rest \<leftarrow> collect (\<lambda>k. let third_block_num = indirect_block second k in
          if third_block_num \<noteq> 0 then do {
            third \<leftarrow> read_block_fresh s third_block_num;
            rest \<leftarrow> collect (\<lambda>l. let data_block_num = entry_file_block_num third l
                   in Some (if data_block_num \<noteq> 0 then [data_block_num] else [])) (map int entries);
            Some (third_block_num # rest) } else Some []) (map int slots);
        Some (second_block_num # rest) } else Some []) (map int slots)
      = Some (concat (map (\<lambda>j. ?N (second_paths j)) slots))"
  proof (rule collect_slots [OF wf, of "[]"])
    show "?N (second_paths i) = []" if "addr ?d ?r ([] @ [i]) = 0" for i
      using nonzero_addrs_none [OF below_zero(2)] that by simp
  qed (use False third in \<open>simp_all add: second_paths_def nonzero_addrs_Cons nonzero_addrs_concat comp_def\<close>)
  have "used_blocks s = Some (?r # concat (map (\<lambda>j. ?N (second_paths j)) slots))"
    using second False read_root [OF wf False]
    unfolding used_blocks_def upto_slots upto_entries upto_first
    by (simp add: committed_root_def [symmetric]) (simp add: Let_def)
  then show ?thesis
    using False by (simp add: walk_def nonzero_addrs_Cons nonzero_addrs_concat comp_def)
qed

lemma set_used: "set (nonzero_addrs d r walk) = live d r"
  by (auto simp: nonzero_addrs_def live_def walk_tree)

lemma distinct_used:
  assumes "wf_tree d bound r"
  shows "distinct (nonzero_addrs d r walk)"
proof -
  have "nonzero_addrs d r walk = map (addr d r) (filter (\<lambda>p. addr d r p \<noteq> 0) walk)"
    by (simp add: nonzero_addrs_def filter_map comp_def)
  moreover have "inj_on (addr d r) (set (filter (\<lambda>p. addr d r p \<noteq> 0) walk))"
    using wf_treeD(1) [OF assms] by (auto simp: inj_on_def walk_tree)
  ultimately show ?thesis by (simp add: distinct_map distinct_walk)
qed

section \<open>The free list of a reopened volume\<close>

text \<open>On a sorted list without repetition the scan finds exactly the numbers not in the list.\<close>

lemma free_scan_set:
  assumes "sorted used" "distinct used" "\<forall>n \<in> set used. b \<le> n"
  shows "set (free_scan used b n) = {b..<n} - set used" "distinct (free_scan used b n)"
proof -
  have "set (free_scan used b n) = {b..<n} - set used \<and> distinct (free_scan used b n)"
    using assms
  proof (induction used b n rule: free_scan.induct)
    case (1 used b n)
    show ?case
    proof (cases "b < n")
      case False
      then show ?thesis by (simp add: free_scan.simps)
    next
      case lt: True
      show ?thesis
      proof (cases "used \<noteq> [] \<and> b = hd used")
        case True
        then obtain us where us: "used = b # us" by (cases used) auto
        with "1.prems" have later: "\<forall>m \<in> set us. b + 1 \<le> m" by (auto simp: order_le_less)
        have "set (free_scan us (b + 1) n) = {b + 1..<n} - set us \<and> distinct (free_scan us (b + 1) n)"
          using "1.IH"(1) [OF lt True] "1.prems" later us by simp
        moreover have "free_scan used b n = free_scan us (b + 1) n"
          using lt us by (subst free_scan.simps) simp
        ultimately show ?thesis using lt us by auto
      next
        case False
        have "\<forall>m \<in> set used. b \<noteq> m"
        proof
          fix m assume m: "m \<in> set used"
          then obtain c us where us: "used = c # us" by (cases used) auto
          then have "b \<le> c" "b \<noteq> c" "c \<le> m" using m "1.prems"(1,3) False by auto
          then show "b \<noteq> m" by simp
        qed
        then have later: "\<forall>m \<in> set used. b + 1 \<le> m" using "1.prems"(3) by (auto simp: order_le_less)
        have "set (free_scan used (b + 1) n) = {b + 1..<n} - set used \<and> distinct (free_scan used (b + 1) n)"
          using "1.IH"(2) [OF lt False] "1.prems" later by simp
        moreover have "free_scan used b n = b # free_scan used (b + 1) n"
          using lt False by (subst free_scan.simps) auto
        ultimately show ?thesis using lt \<open>\<forall>m \<in> set used. b \<noteq> m\<close> by auto
      qed
    qed
  qed
  then show "set (free_scan used b n) = {b..<n} - set used" "distinct (free_scan used b n)" by simp_all
qed

end
