(* ===== verification/Storage_Crash.thy ===== *)
theory Storage_Crash
  imports Storage_Walk
begin

text \<open>
  Restarting: what \<^verbatim>\<open>open_volume\<close> makes of a file, and what it finds after a crash at any
  moment of a write or a commit. A crash leaves, for every block, the content at the last
  \<^verbatim>\<open>fdatasync\<close> or that of any later write to it (block writes themselves are taken to be
  atomic), and a file at least as long as at the last sync. The images of a state inside a write
  are among those of the state after it, because blocks are only added to the unsynced ones.
\<close>

section \<open>Opening a volume\<close>

lemma open_volume_inv:
  assumes n: "0 < n" "n < 2 ^ 31" and b: "\<And>i. is_block (d i)"
  defines "p \<equiv> new_process d n"
  assumes wf: "wf_tree (disk p) n (get_i64 (d 0) 1)"
  obtains s' where "open_volume p = Some s'" and "storage_inv (get_i64 (d 0) 0) s'"
    and "last_committed s' = get_i64 (d 0) 0" and "committed_root s' = get_i64 (d 0) 1"
    and "disk s' = disk p" and "\<forall>m. root_of s' m = committed_root s'" and "tracked H (get_i64 (d 0) 0) s'"
    and "num_total_blocks s' = n"
proof -
  let ?lc = "get_i64 (d 0) 0" and ?r = "get_i64 (d 0) 1"
  define s1 where "s1 = p\<lparr>num_total_blocks := n, first_block := d 0\<rparr>"
  have d0: "disk p 0 = d 0" using n by (simp add: p_def new_process_def)
  have s1: "disk s1 = disk p" "file_blocks s1 = n" "committed_root s1 = ?r" "free_blocks s1 = []"
    by (simp_all add: s1_def p_def new_process_def committed_root_def first_level_block_def)
  have used: "used_blocks s1 = Some (nonzero_addrs (disk p) ?r walk)"
    using used_blocks_walk [of s1] wf s1 by simp
  define us where "us = sort (nonzero_addrs (disk p) ?r walk)"
  have us: "sorted us" "distinct us" "set us = live (disk p) ?r"
    using distinct_used [OF wf] by (simp_all add: us_def set_used)
  have pos: "0 < x \<and> x < n" if "x \<in> live (disk p) ?r" for x using wf_treeD(2) [OF wf that] .
  define s' where "s' = s1\<lparr>free_blocks := free_scan us 1 n\<rparr>"
  have fr: "set (free_scan us 1 n) = {1..<n} - live (disk p) ?r" "distinct (free_scan us 1 n)"
  proof -
    have ge: "\<forall>x \<in> set us. 1 \<le> x" using us(3) pos by force
    show "set (free_scan us 1 n) = {1..<n} - live (disk p) ?r" "distinct (free_scan us 1 n)"
      using free_scan_set [OF us(1,2) ge, of n] us(3) by simp_all
  qed
  have eq: "(n * 4096 + 1) div 4096 = n" by simp
  have "open_volume p = Some s'"
    using n used d0
    by (simp add: open_volume_def Let_def p_def new_process_def eq read_block_def s'_def us_def s1_def)
  moreover have lc: "last_committed s' = ?lc" and r: "committed_root s' = ?r"
    by (simp_all add: s'_def s1_def last_committed_def committed_root_def first_level_block_def)
  moreover have roots: "root_of s' m = committed_root s'" for m
    by (simp add: root_of_def s'_def s1_def p_def new_process_def)
  moreover have "storage_inv ?lc s'"
  proof -
    have un: "live (disk p) ?r \<inter> unalloc s' = {}"
      using fr pos by (fastforce simp: unalloc_def s'_def s1_def)
    have isb: "is_block (disk p i)" for i using b by (simp add: p_def new_process_def)
    have "wf_free s'" using fr n by (auto simp: wf_free_def s'_def s1_def)
    moreover have "durable_inv s'"
    proof -
      have f: "durable s' = disk p" "disk s' = disk p" "durable_blocks s' = n" "file_blocks s' = n"
        "unsynced s' = []" "first_block s' = d 0"
        by (simp_all add: s'_def s1_def p_def new_process_def)
      show ?thesis unfolding durable_inv_def f r using d0 isb n pos by simp
    qed
    moreover have "uncommitted_writes s' = Map.empty" "pending_blocks s' = Map.empty" "first_block s' = d 0"
      "disk s' = disk p" "file_blocks s' = n"
      by (simp_all add: s'_def s1_def p_def new_process_def)
    ultimately show ?thesis
      using un isb wf b [of 0] r lc roots unfolding storage_inv_def live_at_def by simp
  qed
  moreover have "tracked H ?lc s'" using lc by (auto simp: tracked_def)
  ultimately show thesis using that by (simp add: s'_def s1_def)
qed

section \<open>Crashes\<close>

definition crash_image :: "storage \<Rightarrow> (int \<Rightarrow> block) \<Rightarrow> int \<Rightarrow> bool" where
  "crash_image s d n \<longleftrightarrow> durable_blocks s \<le> n \<and> n \<le> file_blocks s \<and>
     (\<forall>i. 0 \<le> i \<and> i < n \<longrightarrow> d i = durable s i \<or> (i, d i) \<in> set (unsynced s))"

text \<open>What a restarted process must find: version \<open>v\<close> as the committed one.\<close>

definition recovers :: "(int \<Rightarrow> block) \<Rightarrow> int \<Rightarrow> int \<Rightarrow> (int \<Rightarrow> byte) \<Rightarrow> bool" where
  "recovers d n v vol \<longleftrightarrow> (\<exists>s'. open_volume (new_process d n) = Some s' \<and> storage_inv v s' \<and>
     last_committed s' = v \<and> volume s' v = vol)"

lemma new_process_cong:
  assumes "\<And>i. 0 \<le> i \<Longrightarrow> i < n \<Longrightarrow> d i = e i"
  shows "new_process d n = new_process e n"
  using assms by (simp add: new_process_def cong: if_cong)

lemma crash_reopens:
  assumes inv: "storage_inv w s" and img: "crash_image s d n" and n: "n < 2 ^ 31"
  obtains s' where "open_volume (new_process d n) = Some s'" "storage_inv (last_committed s) s'"
    "last_committed s' = last_committed s" "volume s' (last_committed s) = volume s (last_committed s)"
    "\<And>p. raw_path p \<Longrightarrow> addr (disk s') (committed_root s') p = addr (disk s) (committed_root s) p"
    "num_total_blocks s' = max 1 n"
proof -
  let ?lc = "last_committed s" and ?r = "committed_root s"
  have rlc: "root_of s ?lc = ?r" by (rule root_of_committed(2) [OF inv])
  have lcw: "?lc \<le> w" by (rule storage_invD(1) [OF inv])
  have wf: "wf_tree (disk s) (file_blocks s) ?r"
    using storage_invD(3) [OF inv order_refl lcw] rlc by simp
  note di = storage_invD(8) [OF inv, unfolded durable_inv_def]
  show ?thesis
  proof (cases "n = 0")
    case True
    then have db: "durable_blocks s = 0" using img di by (simp add: crash_image_def)
    then have fb: "first_block s = zero_block" using di by simp
    then have z: "?lc = 0" "?r = 0"
      by (simp_all add: last_committed_def committed_root_def first_level_block_def)
    have "volume s 0 x = 0" for x
      using rlc z by (simp add: volume_def bytes_of_def block_at_def zero_block_def nat_less_iff)
    then have "volume s 0 = volume new_volume 0" using new_volume_zero by (simp add: fun_eq_iff)
    moreover have "addr (disk new_volume) (committed_root new_volume) p = addr (disk s) (committed_root s) p" for p
    proof -
      have "committed_root new_volume = 0" by (simp add: committed_root_def new_volume_def new_process_def first_level_block_def)
      then show ?thesis
        using addr_below_zero [of "disk s" 0 "[]" p] addr_below_zero [of "disk new_volume" 0 "[]" p] by (simp add: z)
    qed
    ultimately show ?thesis
      using that [of new_volume] open_new [of d] new_volume_inv new_volume_committed new_volume_total by (simp add: z True)
  next
    case False
    then have n0: "0 < n" using img di by (auto simp: crash_image_def)
    define e where "e = (\<lambda>i. if 0 \<le> i \<and> i < n then d i else zero_block)"
    have eq: "new_process d n = new_process e n" by (rule new_process_cong) (simp add: e_def)
    have isb: "is_block (e i)" for i
      using img di by (fastforce simp: e_def crash_image_def)
    have e0: "e 0 = first_block s"
      using img di n0 unfolding crash_image_def e_def by auto
    have dsk: "disk (new_process e n) = e" by (auto simp: new_process_def e_def)
    have lr: "get_i64 (e 0) 0 = ?lc" "get_i64 (e 0) 1 = ?r"
      by (simp_all add: e0 last_committed_def committed_root_def first_level_block_def)
    have fr: "e x = disk s x" if x: "x \<in> live (disk s) ?r" for x
    proof -
      have "0 < x" "x < n" "durable s x = disk s x" "x \<notin> fst ` set (unsynced s)"
        using wf_treeD(2) [OF wf x] di x img unfolding crash_image_def by auto
      moreover from this have "(x, d x) \<notin> set (unsynced s)" by force
      moreover have "0 \<le> x \<and> x < n \<longrightarrow> d x = durable s x \<or> (x, d x) \<in> set (unsynced s)"
        using img unfolding crash_image_def by blast
      ultimately show ?thesis by (simp add: e_def)
    qed
    have "\<forall>x \<in> live (disk s) ?r. x < n" using di img unfolding crash_image_def by auto
    then have wfe: "wf_tree e n ?r"
      using wf addr_frame [of "disk s" ?r e] live_frame [of "disk s" ?r e, OF fr] fr
      unfolding wf_tree_def by (metis (no_types, lifting) tree_raw)
    obtain s' where o: "open_volume (new_process e n) = Some s'" and i: "storage_inv ?lc s'"
      "last_committed s' = ?lc" "committed_root s' = ?r" "disk s' = e" "\<forall>m. root_of s' m = committed_root s'" "num_total_blocks s' = n"
      using open_volume_inv [where d = e, OF n0 n isb, unfolded dsk lr, OF wfe] by metis
    have "block_at e ?r v = block_at (disk s) ?r v" for v
      using addr_frame [of "disk s" ?r e, OF fr, of "data_path v"] fr live_I [of "data_path v" "disk s" ?r]
      by (simp add: block_at_def)
    then have "volume s' ?lc = volume s ?lc"
      using i rlc by (intro ext) (simp add: volume_def bytes_of_def)
    moreover have "addr (disk s') (committed_root s') p = addr (disk s) (committed_root s) p" if "raw_path p" for p
      using addr_frame [of "disk s" ?r e, OF fr that] by (simp add: i)
    ultimately show ?thesis using that o i n0 unfolding eq by simp
  qed
qed

lemma crash_recovers:
  assumes "storage_inv w s" and "crash_image s d n" and "n < 2 ^ 31"
  shows "recovers d n (last_committed s) (volume s (last_committed s))"
  using crash_reopens [OF assms] unfolding recovers_def by metis

lemma fdatasync_inv:
  assumes inv: "storage_inv w s"
  shows "storage_inv w (fdatasync s)" and "last_committed (fdatasync s) = last_committed s"
    and "volume (fdatasync s) = volume s"
proof -
  have f: "disk (fdatasync s) = disk s" "file_blocks (fdatasync s) = file_blocks s"
    "uncommitted_writes (fdatasync s) = uncommitted_writes s" "pending_blocks (fdatasync s) = pending_blocks s"
    "first_block (fdatasync s) = first_block s" "durable (fdatasync s) = disk s"
    "durable_blocks (fdatasync s) = file_blocks s" "unsynced (fdatasync s) = []"
    "unalloc (fdatasync s) = unalloc s" "wf_free (fdatasync s) = wf_free s"
    by (simp_all add: fdatasync_def)
  have g: "last_committed (fdatasync s) = last_committed s" "root_of (fdatasync s) = root_of s"
    "committed_root (fdatasync s) = committed_root s" "live_at (fdatasync s) = live_at s"
    by (simp_all add: fun_eq_iff last_committed_def root_of_def committed_root_def first_level_block_def live_at_def f
        split: option.splits)
  have wf: "wf_tree (disk s) (file_blocks s) (committed_root s)"
    using storage_invD(3) [OF inv order_refl storage_invD(1) [OF inv]] root_of_committed(2) [OF inv] by simp
  have "durable_inv (fdatasync s)"
    using storage_invD(6,8) [OF inv] wf_treeD(2) [OF wf] unfolding durable_inv_def f g by simp
  then show "storage_inv w (fdatasync s)"
    using inv unfolding storage_inv_def f g by simp
  show "last_committed (fdatasync s) = last_committed s" by (rule g)
  show "volume (fdatasync s) = volume s" by (simp add: fun_eq_iff volume_def bytes_of_def f g)
qed

lemma commit_crash:
  assumes inv: "storage_inv w s" and n: "n = last_committed s + 1" "n \<le> w" and rng: "int64_range n"
    and total: "num_total_blocks s < 2 ^ 31"
    and t: "commit_tables n off s = Some (uw, t)" and u: "commit_write t = Some u"
    and k: "k < 2 ^ 31" and img: "crash_image t d k \<or> crash_image u d k"
  shows "recovers d k (last_committed s) (volume s (last_committed s)) \<or> recovers d k n (volume s n)"
  using img
proof
  let ?v = "off - off smod 4096"
  obtain s' uw' where c: "storage_commit n off s = Some s'" and inv': "storage_inv w s'" and lc: "last_committed s' = n"
    and vol: "\<forall>m. n \<le> m \<and> m \<le> w \<longrightarrow> volume s' m = volume s m"
    and uw': "uncommitted_writes s n = Some uw'"
    and s': "s' = (synced_state (tables_state n ?v s))\<lparr>free_blocks := free_blocks s @ to_free uw'\<rparr>"
    using storage_commit_inv [OF inv n rng total, of off] .
  have t': "t = tables_state n ?v s" using commit_tables_eq [OF inv uw', of off] t by simp
  { assume "crash_image t d k"
    then have "crash_image s d k" by (simp add: crash_image_def t' tables_state_def)
    then show ?thesis using crash_recovers [OF inv _ k] by blast }
  assume "crash_image u d k"
  moreover have fb: "0 < file_blocks t" using storage_invD(8) [OF inv] by (simp add: durable_inv_def t' tables_state_def)
  ultimately have im: "file_blocks t \<le> k" "k \<le> file_blocks t"
    "\<forall>i. 0 \<le> i \<and> i < k \<longrightarrow> d i = disk t i \<or> i = 0 \<and> d i = first_block t"
    using commit_write_eq [OF fb] u by (auto simp: crash_image_def)
  have d: "disk t = disk s" "file_blocks t = file_blocks s" by (simp_all add: t' tables_state_def)
  show ?thesis
  proof (cases "d 0 = disk s 0")
    case True
    then have "crash_image (fdatasync s) d k"
      using im d by (auto simp: crash_image_def fdatasync_def)
    then show ?thesis using crash_recovers [OF fdatasync_inv(1) [OF inv] _ k] fdatasync_inv(2,3) [OF inv] by simp
  next
    case False
    then have "d 0 = first_block t" using im fb d by auto
    then have "crash_image s' d k"
      using im d by (auto simp: crash_image_def s' synced_state_def t'[symmetric])
    then show ?thesis using crash_recovers [OF inv' _ k] lc vol n(2) by auto
  qed
qed

section \<open>Properties\<close>

text \<open>
  C3. Crash safety: after a crash at any point of any sequence of writes (every block holding what
  it held at the last sync or any later write to it), reopening the volume succeeds and
  recovers exactly the last committed version, with the invariant established again.
\<close>

theorem crash_recovers_committed:
  assumes "storage_inv w s" and "crash_image s d n" and "n < 2 ^ 31"
  shows "\<exists>s'. open_volume (new_process d n) = Some s' \<and> storage_inv (last_committed s) s' \<and>
    last_committed s' = last_committed s \<and> volume s' (last_committed s) = volume s (last_committed s)"
  using crash_recovers [OF assms] unfolding recovers_def .

theorem crash_recovers_committed_witness:
  "\<exists>s1 s'. storage_write (\<lambda>_. 0) (replicate 4096 7) 100 1 new_volume = Some s1 \<and>
     open_volume (new_process (durable s1) 1) = Some s' \<and> last_committed s' = 0 \<and>
     volume s' 0 = volume s1 0"
proof -
  obtain s1 where w: "storage_write (\<lambda>_. 0) (replicate 4096 7) 100 1 new_volume = Some s1"
    and s1: "storage_inv 1 s1" "tracked (\<lambda>_. 100) 1 s1" "last_committed s1 = 0"
      "num_total_blocks s1 + 7 < 2 ^ 31" "num_total_blocks s1 < 2 ^ 31"
      "volume s1 1 = spec_write 100 (replicate 4096 7) (\<lambda>x. 0)" "durable_blocks s1 = 0"
    by (rule first_write [of 100 "\<lambda>_. 0" "replicate 4096 7"])
       (simp_all add: access_ok_def VOLUME_SIZE_def stray_ok_def aligned_def)
  have "crash_image s1 (durable s1) 1"
    using storage_invD(8) [OF s1(1)] s1(7) by (simp add: crash_image_def durable_inv_def)
  then show ?thesis
    using crash_recovers_committed [OF s1(1), of "durable s1" 1] w s1(3) by auto
qed

text \<open>
  C4. Commit is atomic: a crash in the middle of a commit, before, between or after its two syncs,
  leaves a volume that reopens to either the version committed before or the one being committed,
  never to a mixture.
\<close>

theorem commit_is_atomic:
  assumes "storage_inv w s" and "n = last_committed s + 1" and "n \<le> w" and "int64_range n"
    and "num_total_blocks s < 2 ^ 31"
    and "commit_tables n off s = Some (uw, t)" and "commit_write t = Some u"
    and "k < 2 ^ 31" and "crash_image t d k \<or> crash_image u d k"
  shows "\<exists>s' m. open_volume (new_process d k) = Some s' \<and> (m = last_committed s \<or> m = n) \<and>
    last_committed s' = m \<and> storage_inv m s' \<and> volume s' m = volume s m"
  using commit_crash [OF assms] unfolding recovers_def by metis

theorem commit_is_atomic_witness:
  "\<exists>s1 uw t u s' m. storage_write (\<lambda>_. 0) (replicate 4096 7) 100 1 new_volume = Some s1 \<and>
     commit_tables 1 100 s1 = Some (uw, t) \<and> commit_write t = Some u \<and>
     open_volume (new_process (durable t) 1) = Some s' \<and> (m = 0 \<or> m = 1) \<and> last_committed s' = m \<and>
     volume s' m = volume s1 m"
proof -
  obtain s1 where w: "storage_write (\<lambda>_. 0) (replicate 4096 7) 100 1 new_volume = Some s1"
    and s1: "storage_inv 1 s1" "tracked (\<lambda>_. 100) 1 s1" "last_committed s1 = 0"
      "num_total_blocks s1 + 7 < 2 ^ 31" "num_total_blocks s1 < 2 ^ 31"
      "volume s1 1 = spec_write 100 (replicate 4096 7) (\<lambda>x. 0)" "durable_blocks s1 = 0"
    by (rule first_write [of 100 "\<lambda>_. 0" "replicate 4096 7"])
       (simp_all add: access_ok_def VOLUME_SIZE_def stray_ok_def aligned_def)
  have "(1 :: int) \<in> dom (uncommitted_writes s1)" using storage_invD(2) [OF s1(1)] s1(3) by simp
  then obtain uw where "uncommitted_writes s1 1 = Some uw" by blast
  then obtain t where t: "commit_tables 1 100 s1 = Some (uw, t)" "t = tables_state 1 (100 - 100 smod 4096) s1"
    using commit_tables_eq [OF s1(1)] by blast
  have fb: "0 < file_blocks t" using storage_invD(8) [OF s1(1)] by (simp add: t(2) tables_state_def durable_inv_def)
  then obtain u where u: "commit_write t = Some u" using commit_write_eq by blast
  have img: "crash_image t (durable t) 1"
    using fb s1(7) by (simp add: crash_image_def t(2) tables_state_def)
  have "\<exists>s' m. open_volume (new_process (durable t) 1) = Some s' \<and> (m = 0 \<or> m = 1) \<and>
      last_committed s' = m \<and> volume s' m = volume s1 m"
    using commit_is_atomic [OF s1(1) _ _ _ s1(5) t(1) u, of 1 "durable t"] img s1(3)
    by (auto simp: int64_range_def)
  with w t(1) u show ?thesis by blast
qed

end
