(* ===== verification/Server_Node.thy ===== *)
theory Server_Node
  imports Pending_Queue Sent_List Replay_Log Crash Storage
begin

text \<open>
  One server process of the chain: the globals of \<^verbatim>\<open>server_main.cpp\<close> and \<^verbatim>\<open>tables.hpp\<close>, the rpc
  handlers of \<^verbatim>\<open>HeadServiceImpl\<close>, \<^verbatim>\<open>TailServiceImpl\<close>, \<^verbatim>\<open>NodeListenerImpl\<close> and
  \<^verbatim>\<open>MasterListenerImpl\<close>, and the bodies of the two background threads. A handler returns its
  reply or the exception it throws, and the node; the calls it makes to other nodes are part of its
  result. A volume operation that does not return appears as \<open>Undefined\<close>.

  Fields of protocol buffers are \<open>uint64\<close> on the wire; the conversions to \<open>long\<close> and \<open>int\<close> are
  those the code makes. A rpc whose status is checked in a loop is repeated until it succeeds, so
  its single successful execution is what the result lists.
\<close>

section \<open>State\<close>

datatype node_state = HEAD | TAIL | MIDDLE | SINGLE | INITIALIZE | TRANSITION

definition get_state :: "node_state \<Rightarrow> string" where
  "get_state s = (case s of HEAD \<Rightarrow> ''Head'' | TAIL \<Rightarrow> ''Tail'' | MIDDLE \<Rightarrow> ''Mid''
     | SINGLE \<Rightarrow> ''Single Server'' | INITIALIZE \<Rightarrow> ''Initializing'' | TRANSITION \<Rightarrow> ''Transitioning'')"

text \<open>\<^verbatim>\<open>static_cast<server::State>\<close> of a number outside the enumeration matches no case.\<close>

definition state_of_int :: "int \<Rightarrow> node_state option" where
  "state_of_int i = (if i = 0 then Some HEAD else if i = 1 then Some TAIL else if i = 2 then Some MIDDLE
     else if i = 3 then Some SINGLE else if i = 4 then Some INITIALIZE else if i = 5 then Some TRANSITION
     else None)"

text \<open>The enumeration value as it goes into a message, and back.\<close>

definition int_of_state :: "node_state \<Rightarrow> int" where
  "int_of_state s = (case s of HEAD \<Rightarrow> 0 | TAIL \<Rightarrow> 1 | MIDDLE \<Rightarrow> 2 | SINGLE \<Rightarrow> 3 | INITIALIZE \<Rightarrow> 4 | TRANSITION \<Rightarrow> 5)"

lemma state_of_int_of_state [simp]: "state_of_int (int_of_state s) = Some s"
  by (cases s) (simp_all add: int_of_state_def state_of_int_def)

text \<open>The state that belongs to position \<open>i\<close> of a chain of \<open>n\<close> servers.\<close>

definition state_at :: "nat \<Rightarrow> nat \<Rightarrow> node_state" where
  "state_at n i = (if n = 1 then SINGLE else if i = 0 then HEAD else if i + 1 = n then TAIL else MIDDLE)"

definition chain_states :: "nat \<Rightarrow> node_state list" where
  "chain_states n = map (state_at n) [0..<n]"

text \<open>\<^verbatim>\<open>server::Node\<close>; the stub is the address its channel was created for.\<close>

record server_ip =
  si_ip :: string
  si_port :: int

record peer =
  peer_ip :: string
  peer_port :: int
  stub :: "server_ip option"

definition new_peer :: peer where
  "new_peer = \<lparr>peer_ip = '''', peer_port = - 1, stub = None\<rparr>"

definition build_node_stub :: "peer \<Rightarrow> peer" where
  "build_node_stub p = p\<lparr>stub := Some \<lparr>si_ip = peer_ip p, si_port = peer_port p\<rparr>\<rparr>"

definition set_peer :: "server_ip \<Rightarrow> peer \<Rightarrow> peer" where
  "set_peer a p = build_node_stub (p\<lparr>peer_ip := si_ip a, peer_port := si_port a\<rparr>)"

record server_node =
  my_ip :: string
  my_port :: int
  node_state :: node_state
  upstream :: peer
  downstream :: peer
  currentSeq :: int
  writeSeq :: int
  commitSeq :: int
  pendingQueue :: pending_queue
  sentList :: sent_list
  replayLog :: replay_log
  vol :: storage
  headService :: bool
  tailService :: bool
  ack_threads :: nat
  changemode_locked :: bool

definition launch_tail :: "server_node \<Rightarrow> server_node" where
  "launch_tail n = n\<lparr>tailService := True, ack_threads := ack_threads n + 1\<rparr>"

definition kill_tail :: "server_node \<Rightarrow> server_node" where
  "kill_tail n = n\<lparr>tailService := False\<rparr>"

definition launch_head :: "server_node \<Rightarrow> server_node" where
  "launch_head n = n\<lparr>headService := True\<rparr>"

section \<open>Messages\<close>

record write_request =
  wr_data :: "byte list"
  wr_offset :: int
  wr_id :: client_request_id

record relay_write_request =
  rw_data :: "byte list"
  rw_offset :: int
  rw_seqnum :: int
  rw_id :: client_request_id

record relay_write_ack_request =
  ra_seqnum :: int
  ra_id :: client_request_id

record restore_entry =
  re_data :: "byte list"
  re_offset :: int
  re_seqnum :: int

record change_mode_request =
  prev_addr :: "server_ip option"
  next_addr :: "server_ip option"
  new_state :: int
  last_seq_num :: int

datatype remote_call =
    RelayWrite_call relay_write_request
  | RelayWriteAck_call relay_write_ack_request
  | AckReplayLog_call client_request_id
  | Restore_call "restore_entry list"
  | UpdateReplayLog_call "replay_log_entry_msg list"

text \<open>
  \<^verbatim>\<open>set_data(char*)\<close> takes the characters before the first NUL; a block without one is read past
  its end.
\<close>

definition c_string :: "byte list \<Rightarrow> cpp_error + byte list" where
  "c_string buf = (if 0 \<in> set buf then Inr (takeWhile (\<lambda>b. b \<noteq> 0) buf) else Inl Undefined)"

text \<open>
  \<^verbatim>\<open>write(std::string buf, ...)\<close> reads one block from \<^verbatim>\<open>buf.data()\<close>, which ends in a NUL; a shorter
  string is read past its end.
\<close>

definition string_block :: "byte list \<Rightarrow> cpp_error + block" where
  "string_block d = (if BLOCK_SIZE \<le> length d + 1 then Inr (take BLOCK_SIZE (d @ [0])) else Inl Undefined)"

section \<open>Head service\<close>

text \<open>The reply is the assigned sequence number, or 0 (unset) for a request already known.\<close>

definition Write :: "write_request \<Rightarrow> server_node \<Rightarrow> (cpp_error + int) \<times> server_node" where
  "Write request n =
     (let (addResult, log) = addToLog (wr_id request) (replayLog n);
          n = n\<lparr>replayLog := log\<rparr>
      in if addResult < 0 then (Inr 0, n)
         else
           (let seq = currentSeq n;
                n = n\<lparr>currentSeq := to_int64 (seq + 1)\<rparr>;
                m_data = take BLOCK_SIZE (wr_data request);
                entry = \<lparr>seqNum = seq, volumeOffset = to_int64 (wr_offset request), data = m_data,
                         reqId = wr_id request\<rparr>
            in case pushEntry entry (pendingQueue n) of
                 Inl e \<Rightarrow> (Inl e, n)
               | Inr q \<Rightarrow> (Inr (to_uint64 seq), n\<lparr>pendingQueue := q\<rparr>)))"

text \<open>
  The checksum requests: \<open>below\<close> is the reply of the next node, not asked when this node is the
  last one (\<open>None\<close> also stands for a failed call, which leaves the reply empty).
\<close>

record checksum_reply =
  chk_sum :: string
  valid :: bool

definition ChecksumChain ::
  "(byte list \<Rightarrow> byte list) \<Rightarrow> bool \<Rightarrow> checksum_reply option \<Rightarrow> server_node \<Rightarrow> checksum_reply option" where
  "ChecksumChain md5 request_valid below n = do {
     my_cs \<leftarrow> storage_checksum md5 (vol n);
     let ds_cs = (if node_state n \<noteq> TAIL \<and> node_state n \<noteq> SINGLE
                  then (case below of Some r \<Rightarrow> chk_sum r | None \<Rightarrow> '''') else my_cs);
     Some \<lparr>chk_sum = my_cs, valid = (request_valid \<and> ds_cs = my_cs)\<rparr> }"

definition ChecksumSystem ::
  "(byte list \<Rightarrow> byte list) \<Rightarrow> checksum_reply option \<Rightarrow> server_node \<Rightarrow> checksum_reply option" where
  "ChecksumSystem md5 below n = ChecksumChain md5 True below n"

section \<open>Tail service\<close>

text \<open>The reply \<^verbatim>\<open>committed\<close>; a tail passes the acknowledgement on to the node above it.\<close>

definition WriteAck :: "client_request_id \<Rightarrow> server_node \<Rightarrow> bool \<times> server_node \<times> remote_call list" where
  "WriteAck r n =
     (let (result, log) = ackLogEntry r (replayLog n)
      in (result = 0, n\<lparr>replayLog := log\<rparr>,
          if node_state n = TAIL then [AckReplayLog_call r] else []))"

definition Read :: "int \<Rightarrow> server_node \<Rightarrow> cpp_error + byte list" where
  "Read offset n =
     (case storage_read (vol n) (to_int64 offset) of None \<Rightarrow> Inl Undefined | Some buf \<Rightarrow> c_string buf)"

section \<open>Calls from other nodes\<close>

definition RelayWrite :: "relay_write_request \<Rightarrow> server_node \<Rightarrow> (cpp_error + unit) \<times> server_node" where
  "RelayWrite request n =
     (let (addResult, log) = addToLog (rw_id request) (replayLog n);
          n = n\<lparr>replayLog := log\<rparr>
      in if addResult < 0 then (Inr (), n)
         else
           (let m_data = take BLOCK_SIZE (rw_data request);
                entry = \<lparr>seqNum = to_int64 (rw_seqnum request), volumeOffset = to_int64 (rw_offset request),
                         data = m_data, reqId = rw_id request\<rparr>
            in case pushEntry entry (pendingQueue n) of
                 Inl e \<Rightarrow> (Inl e, n)
               | Inr q \<Rightarrow> (Inr (), n\<lparr>pendingQueue := q\<rparr>)))"

text \<open>
  \<^verbatim>\<open>RelayWriteAck\<close> spins until its write is the next to commit; \<open>None\<close> is a call still waiting.
\<close>

definition RelayWriteAck ::
  "relay_write_ack_request \<Rightarrow> server_node \<Rightarrow> ((cpp_error + unit) \<times> server_node \<times> remote_call list) option" where
  "RelayWriteAck request n =
     (if to_uint64 (commitSeq n + 1) \<noteq> ra_seqnum request then None
      else
        (let (entry, l) = sl_popEntry (to_int32 (ra_seqnum request)) (sentList n);
             n = n\<lparr>sentList := l\<rparr>
         in case entry of
              Inl e \<Rightarrow> Some (Inl e, n, [])
            | Inr entry \<Rightarrow>
                (case storage_commit (to_int64 (ra_seqnum request)) (se_volumeOffset entry) (vol n) of
                   None \<Rightarrow> Some (Inl Undefined, n, [])
                 | Some s \<Rightarrow>
                     (let log = snd (commitLogEntry (se_reqId entry) (replayLog n));
                          n = n\<lparr>vol := s, replayLog := log, commitSeq := to_int32 (ra_seqnum request)\<rparr>
                      in Some (Inr (), n,
                           if node_state n \<noteq> HEAD \<and> node_state n \<noteq> SINGLE
                           then [RelayWriteAck_call request] else [])))))"

fun restore_entries :: "(nat \<Rightarrow> int) \<Rightarrow> restore_entry list \<Rightarrow> int \<Rightarrow> storage \<Rightarrow> (int \<times> storage) option" where
  "restore_entries junk [] maxseq s = Some (maxseq, s)"
| "restore_entries junk (e # es) maxseq s =
     (case string_block (re_data e) of
        Inl _ \<Rightarrow> None
      | Inr buf \<Rightarrow> do {
          s \<leftarrow> storage_write junk buf (to_int64 (re_offset e)) (to_int64 (re_seqnum e)) s;
          s \<leftarrow> storage_commit (to_int64 (re_seqnum e)) (to_int64 (re_offset e)) s;
          restore_entries junk es (if re_seqnum e > to_uint64 maxseq then to_int64 (re_seqnum e) else maxseq) s })"

definition Restore :: "(nat \<Rightarrow> int) \<Rightarrow> restore_entry list \<Rightarrow> server_node \<Rightarrow> cpp_error + server_node" where
  "Restore junk entries n =
     (case restore_entries junk entries (get_sequence_number (vol n)) (vol n) of
        None \<Rightarrow> Inl Undefined
      | Some (maxseq, s) \<Rightarrow>
          Inr (n\<lparr>vol := s, writeSeq := maxseq, commitSeq := maxseq, currentSeq := to_int64 (maxseq + 1)\<rparr>))"

definition UpdateReplayLog :: "replay_log_entry_msg list \<Rightarrow> server_node \<Rightarrow> cpp_error + server_node" where
  "UpdateReplayLog content n =
     (case initRelayLogContent content (replayLog n) of
        Inl e \<Rightarrow> Inl e | Inr log \<Rightarrow> Inr (n\<lparr>replayLog := log\<rparr>))"

definition AckReplayLog :: "client_request_id \<Rightarrow> server_node \<Rightarrow> server_node \<times> remote_call list" where
  "AckReplayLog r n =
     (n\<lparr>replayLog := snd (ackLogEntry r (replayLog n))\<rparr>,
      if node_state n \<noteq> HEAD \<and> node_state n \<noteq> SINGLE then [AckReplayLog_call r] else [])"

section \<open>Background threads\<close>

text \<open>
  \<^verbatim>\<open>relay_write_background\<close> in the three stages of its loop. It first waits for the next write:
  \<open>None\<close> while the queue is empty or its first entry is not the one after \<^verbatim>\<open>writeSeq\<close>.
\<close>

definition relay_write_take :: "server_node \<Rightarrow> (pendingQueueEntry \<times> server_node) option" where
  "relay_write_take n =
     (if getQueueSize (pendingQueue n) = 0 then None
      else case peekEntry (pendingQueue n) of
             Inl _ \<Rightarrow> None
           | Inr e \<Rightarrow>
               if seqNum e \<noteq> writeSeq n + 1 then None
               else (case popEntry (pendingQueue n) of
                       Inl _ \<Rightarrow> None
                     | Inr (e, q) \<Rightarrow> Some (e, n\<lparr>pendingQueue := q\<rparr>)))"

text \<open>Then it relays the write, unless this node is the last one.\<close>

definition relay_request :: "pendingQueueEntry \<Rightarrow> relay_write_request" where
  "relay_request e =
     \<lparr>rw_data = data e, rw_offset = to_uint64 (volumeOffset e), rw_seqnum = to_uint64 (seqNum e),
      rw_id = reqId e\<rparr>"

definition relay_write_send :: "pendingQueueEntry \<Rightarrow> server_node \<Rightarrow> remote_call list" where
  "relay_write_send e n =
     (if node_state n \<noteq> TAIL \<and> node_state n \<noteq> SINGLE then [RelayWrite_call (relay_request e)] else [])"

text \<open>Then it writes the volume and adds the write to the sent list.\<close>

definition relay_write_store ::
  "(nat \<Rightarrow> int) \<Rightarrow> pendingQueueEntry \<Rightarrow> server_node \<Rightarrow> (cpp_error + unit) \<times> server_node" where
  "relay_write_store junk e n =
     (case check (my_ip n) (volumeOffset e) 1 of
        Inl x \<Rightarrow> (Inl x, n)
      | Inr _ \<Rightarrow>
          (case string_block (take BLOCK_SIZE (data e)) of
             Inl x \<Rightarrow> (Inl x, n)
           | Inr buf \<Rightarrow>
               (case storage_write junk buf (volumeOffset e) (seqNum e) (vol n) of
                  None \<Rightarrow> (Inl Undefined, n)
                | Some s \<Rightarrow>
                    (let n = n\<lparr>vol := s, writeSeq := to_int64 (writeSeq n + 1)\<rparr>;
                         sent_entry = \<lparr>se_reqId = reqId e, se_volumeOffset = volumeOffset e\<rparr>;
                         (r, l) = sl_pushEntry (to_int32 (seqNum e)) sent_entry (sentList n)
                     in (r, n\<lparr>sentList := l\<rparr>)))))"

text \<open>
  One iteration of \<^verbatim>\<open>relay_write_ack_background\<close> on a tail or single node: nothing happens while
  the next write is not in the sent list (\<^verbatim>\<open>catch (...)\<close>).
\<close>

definition relay_write_ack_iteration ::
  "server_node \<Rightarrow> ((cpp_error + unit) \<times> server_node \<times> remote_call list) option" where
  "relay_write_ack_iteration n =
     (if node_state n \<noteq> TAIL \<and> node_state n \<noteq> SINGLE then None
      else
        (let seq = commitSeq n + 1
         in case sl_popEntry (to_int32 seq) (sentList n) of
              (Inl _, _) \<Rightarrow> None
            | (Inr entry, l) \<Rightarrow>
                (case storage_commit seq (se_volumeOffset entry) (vol n) of
                   None \<Rightarrow> Some (Inl Undefined, n\<lparr>sentList := l\<rparr>, [])
                 | Some s \<Rightarrow>
                     (let log = snd (commitLogEntry (se_reqId entry) (replayLog n));
                          n = n\<lparr>sentList := l, vol := s, replayLog := log, commitSeq := to_int64 (commitSeq n + 1)\<rparr>
                      in Some (Inr (), n,
                           if node_state n = TAIL
                           then [RelayWriteAck_call \<lparr>ra_seqnum = to_uint64 seq, ra_id = se_reqId entry\<rparr>]
                           else [])))))"

section \<open>Change of mode\<close>

text \<open>The message that brings a new tail up to date.\<close>

fun restore_request :: "storage \<Rightarrow> (int \<times> int) list \<Rightarrow> cpp_error + restore_entry list" where
  "restore_request s [] = Inr []"
| "restore_request s ((off, seq) # rest) =
     (case storage_read s off of
        None \<Rightarrow> Inl Undefined
      | Some buf \<Rightarrow>
          (case c_string buf of
             Inl x \<Rightarrow> Inl x
           | Inr d \<Rightarrow>
               (case restore_request s rest of
                  Inl x \<Rightarrow> Inl x
                | Inr es \<Rightarrow> Inr (\<lparr>re_data = d, re_offset = to_uint64 off, re_seqnum = to_uint64 seq\<rparr> # es))))"

definition new_tail_calls :: "int \<Rightarrow> server_node \<Rightarrow> cpp_error + remote_call list" where
  "new_tail_calls last_seq n =
     (case get_modified_offsets (vol n) (to_int64 last_seq) of
        None \<Rightarrow> Inl Undefined
      | Some offs \<Rightarrow>
          (case restore_request (vol n) offs of
             Inl x \<Rightarrow> Inl x
           | Inr es \<Rightarrow> Inr [Restore_call es, UpdateReplayLog_call (getRelayLogContent (replayLog n))]))"

text \<open>
  The resent writes after a failure in the middle of the chain. The time stamp is copied into a
  local variable, so the request leaves with the default one.
\<close>

fun resend_calls :: "storage \<Rightarrow> sent_list \<Rightarrow> cpp_error + remote_call list" where
  "resend_calls s [] = Inr []"
| "resend_calls s ((seq, e) # rest) =
     (case read_sequence_number s seq (se_volumeOffset e) of
        None \<Rightarrow> Inl Undefined
      | Some found \<Rightarrow>
          (case resend_calls s rest of
             Inl x \<Rightarrow> Inl x
           | Inr cs \<Rightarrow>
               (case found of
                  None \<Rightarrow> Inr cs
                | Some d \<Rightarrow>
                    Inr (RelayWrite_call
                      \<lparr>rw_data = d, rw_offset = to_uint64 (se_volumeOffset e), rw_seqnum = to_uint64 seq,
                       rw_id = (se_reqId e)\<lparr>timestamp := Timestamp 0 0\<rparr>\<rparr> # cs))))"

text \<open>Services started and stopped, and neighbours forgotten, when the state changes.\<close>

definition switch_services :: "node_state \<Rightarrow> node_state option \<Rightarrow> server_node \<Rightarrow> server_node" where
  "switch_services old_state new n =
     (case new of
        Some SINGLE \<Rightarrow>
          (let n = (if old_state \<noteq> HEAD then launch_head n else n);
               n = (if old_state \<noteq> TAIL then launch_tail n else n)
           in n\<lparr>upstream := new_peer, downstream := new_peer\<rparr>)
      | Some HEAD \<Rightarrow>
          (let n = (if old_state = SINGLE then kill_tail n else n);
               n = (if old_state \<noteq> SINGLE then launch_head n else n)
           in n\<lparr>upstream := new_peer\<rparr>)
      | Some TAIL \<Rightarrow> (if old_state \<noteq> SINGLE then launch_tail n else n)\<lparr>downstream := new_peer\<rparr>
      | Some MIDDLE \<Rightarrow> (if old_state = TAIL then kill_tail n else n)
      | _ \<Rightarrow> n)"

text \<open>The node with the new neighbours, before its state changes.\<close>

definition with_neighbours :: "change_mode_request \<Rightarrow> server_node \<Rightarrow> server_node" where
  "with_neighbours request n =
     (let n = n\<lparr>changemode_locked := True\<rparr>;
          n = (case prev_addr request of None \<Rightarrow> n | Some a \<Rightarrow> n\<lparr>upstream := set_peer a (upstream n)\<rparr>)
      in case next_addr request of None \<Rightarrow> n | Some a \<Rightarrow> n\<lparr>downstream := set_peer a (downstream n)\<rparr>)"

text \<open>
  \<^verbatim>\<open>ChangeMode\<close>: \<open>None\<close> is a call that waits for the mutex. The state number is kept as the
  enumeration value when it is one; otherwise no branch of the code matches it and the old state
  is kept here. The reply is the number of the last received write.
\<close>

definition ChangeMode ::
  "change_mode_request \<Rightarrow> server_node \<Rightarrow> ((cpp_error + int) \<times> server_node \<times> remote_call list) option" where
  "ChangeMode request n =
     (if changemode_locked n then None
      else
        (let old_state = node_state n;
             new = state_of_int (new_state request);
             n = with_neighbours request n;
             integrate = (new \<noteq> Some TAIL \<and> new \<noteq> Some SINGLE \<and> (old_state = TAIL \<or> old_state = SINGLE))
         in case (if integrate then new_tail_calls (last_seq_num request) n else Inr []) of
              Inl x \<Rightarrow> Some (Inl x, n, [])
            | Inr calls \<Rightarrow>
                (let n = (case new of Some st \<Rightarrow> n\<lparr>node_state := st\<rparr> | None \<Rightarrow> n)
                 in if new \<noteq> Some old_state
                    then Some (Inr 0, (switch_services old_state new n)\<lparr>changemode_locked := False\<rparr>, calls)
                    else
                      (let reply = (if prev_addr request \<noteq> None then to_uint64 (writeSeq n) else 0)
                       in if next_addr request = None
                          then Some (Inr reply, n\<lparr>changemode_locked := False\<rparr>, calls)
                          else
                            (case getSentListRange (to_int32 (last_seq_num request + 1)) (sentList n) of
                               Inl (Length_error _) \<Rightarrow> Some (Inr reply, n\<lparr>changemode_locked := False\<rparr>, calls)
                             | Inl x \<Rightarrow> Some (Inl x, n, calls)
                             | Inr resend \<Rightarrow>
                                 (case resend_calls (vol n) resend of
                                    Inl x \<Rightarrow> Some (Inl x, n, calls)
                                  | Inr cs \<Rightarrow> Some (Inr reply, n\<lparr>changemode_locked := False\<rparr>, calls @ cs)))))))"

section \<open>Start of a server\<close>

text \<open>\<^verbatim>\<open>main\<close> up to the registration: the sequence numbers continue after the last commit.\<close>

definition start_server :: "string \<Rightarrow> int \<Rightarrow> storage \<Rightarrow> server_node" where
  "start_server address port s =
     (let seq = get_sequence_number s
      in \<lparr>my_ip = address, my_port = port, node_state = INITIALIZE, upstream = new_peer, downstream = new_peer,
          currentSeq = to_int64 (seq + 1), writeSeq = seq, commitSeq = seq,
          pendingQueue = empty_pending_queue, sentList = [], replayLog = [], vol = s,
          headService = False, tailService = False, ack_threads = 0, changemode_locked = False\<rparr>)"

text \<open>\<^verbatim>\<open>register_server\<close> once the master has answered: \<open>prev\<close> is the address of the old tail.\<close>

definition registered :: "server_ip option \<Rightarrow> server_node \<Rightarrow> server_node" where
  "registered prev n =
     (case prev of
        Some a \<Rightarrow> launch_tail (n\<lparr>upstream := set_peer a (upstream n), node_state := TAIL\<rparr>)
      | None \<Rightarrow> launch_tail (launch_head (n\<lparr>node_state := SINGLE\<rparr>)))"

end
