(* ===== verification/Node_Inv.thy ===== *)
theory Node_Inv
  imports Server_Node Replica
begin

text \<open>
  The invariant of one server between handler calls, relative to the history of the chain: the
  entry \<open>H k\<close> the head made for sequence number \<open>k\<close>, and the contents \<open>V k\<close> of the volume after
  it. The lemmas say what each handler and each stage of the background threads does to a node
  that satisfies the invariant; the volume enters through \<open>versioned_volume\<close> only.
\<close>

section \<open>Histories\<close>

text \<open>What \<^verbatim>\<open>Storage::write(std::string, ...)\<close> stores of a write's data.\<close>

definition stored_block :: "byte list \<Rightarrow> block" where
  "stored_block d = take BLOCK_SIZE (d @ [0])"

definition history_entry :: "(int \<Rightarrow> pendingQueueEntry) \<Rightarrow> (int \<Rightarrow> version) \<Rightarrow> int \<Rightarrow> bool" where
  "history_entry H V k \<longleftrightarrow> seqNum (H k) = k \<and> access_ok (volumeOffset (H k)) \<and>
     volumeOffset (H k) mod 4096 = 0 \<and> BLOCK_SIZE \<le> length (data (H k)) + 1 \<and> length (data (H k)) \<le> BLOCK_SIZE \<and>
     V k = mark_write k (volumeOffset (H k)) (stored_block (data (H k))) (V (k - 1))"

definition history :: "(int \<Rightarrow> pendingQueueEntry) \<Rightarrow> (int \<Rightarrow> version) \<Rightarrow> int \<Rightarrow> int \<Rightarrow> bool" where
  "history H V b z \<longleftrightarrow> 0 \<le> b \<and> b \<le> z \<and> z + 1 < 2 ^ 31 \<and> (\<forall>k. b < k \<and> k \<le> z \<longrightarrow> history_entry H V k)"

definition known :: "(int \<Rightarrow> pendingQueueEntry) \<Rightarrow> int \<Rightarrow> int \<Rightarrow> pendingQueueEntry \<Rightarrow> bool" where
  "known H b z e \<longleftrightarrow> b < seqNum e \<and> seqNum e \<le> z \<and> H (seqNum e) = e"

lemma known_entry:
  assumes "history H V b z" and "known H b z e"
  shows "0 < seqNum e" "seqNum e < 2 ^ 31" "seqNum e \<le> z" "access_ok (volumeOffset e)"
    "volumeOffset e mod 4096 = 0" "BLOCK_SIZE \<le> length (data e) + 1" "length (data e) \<le> BLOCK_SIZE"
    "V (seqNum e) = mark_write (seqNum e) (volumeOffset e) (stored_block (data e)) (V (seqNum e - 1))"
proof -
  have k: "b < seqNum e" "seqNum e \<le> z" "H (seqNum e) = e" using assms(2) by (simp_all add: known_def)
  have h: "0 \<le> b" "z + 1 < 2 ^ 31" "history_entry H V (seqNum e)" using assms(1) k by (simp_all add: history_def)
  show "0 < seqNum e" "seqNum e < 2 ^ 31" "seqNum e \<le> z" using k h by linarith+
  show "access_ok (volumeOffset e)" "volumeOffset e mod 4096 = 0" "BLOCK_SIZE \<le> length (data e) + 1"
    "length (data e) \<le> BLOCK_SIZE"
    "V (seqNum e) = mark_write (seqNum e) (volumeOffset e) (stored_block (data e)) (V (seqNum e - 1))"
    using h(3) k(3) by (simp_all add: history_entry_def)
qed

lemma history_latest:
  assumes h: "history H V b z" and "latest_marks b (V b)" and "b \<le> m" and "m \<le> z"
  shows "latest_marks m (V m)"
  using assms(3,4)
proof (induction m rule: int_ge_induct)
  case (step m)
  have e: "history_entry H V (m + 1)" and m: "0 \<le> m" using h step by (simp_all add: history_def)
  have "cell (volumeOffset (H (m + 1)))" using e by (intro cell_of_access) (simp_all add: history_entry_def)
  then show ?case using latest_marks_write [OF _ m] step e by (simp add: history_entry_def)
qed (use assms(2) in simp)

lemma access_ok_range: "access_ok off \<Longrightarrow> 0 \<le> off \<and> off < 256 * 1024 * 1024 * 1024"
  by (simp add: access_ok_def VOLUME_SIZE_def)

section \<open>The invariant of a node\<close>

text \<open>Committed requests in the replay log are requests of committed writes.\<close>

definition log_committed :: "(int \<Rightarrow> pendingQueueEntry) \<Rightarrow> int \<Rightarrow> int \<Rightarrow> replay_log \<Rightarrow> bool" where
  "log_committed H b c log \<longleftrightarrow> log_wf log \<and>
     (\<forall>key. status log key = Some True \<longrightarrow> (\<exists>k. b < k \<and> k \<le> c \<and> request_key (reqId (H k)) = key))"

definition sent_between :: "(int \<Rightarrow> pendingQueueEntry) \<Rightarrow> int \<Rightarrow> int \<Rightarrow> sent_list \<Rightarrow> bool" where
  "sent_between H c w l \<longleftrightarrow> map_wf l \<and> (\<forall>k. map_of l k =
     (if c < k \<and> k \<le> w then Some \<lparr>se_reqId = reqId (H k), se_volumeOffset = volumeOffset (H k)\<rparr> else None))"

definition queue_known :: "(int \<Rightarrow> pendingQueueEntry) \<Rightarrow> int \<Rightarrow> int \<Rightarrow> pending_queue \<Rightarrow> bool" where
  "queue_known H b z q \<longleftrightarrow> pq_wf q \<and> (\<forall>e \<in> set (queue q). known H b z e)"

definition node_inv ::
  "(int \<Rightarrow> pendingQueueEntry) \<Rightarrow> (int \<Rightarrow> version) \<Rightarrow> int \<Rightarrow> int \<Rightarrow> server_node \<Rightarrow> bool" where
  "node_inv H V b z n \<longleftrightarrow>
     queue_known H b z (pendingQueue n) \<and> st.holds V (writeSeq n) (vol n) \<and>
     last_committed (vol n) = commitSeq n \<and> b \<le> commitSeq n \<and> writeSeq n \<le> z \<and>
     sent_between H (commitSeq n) (writeSeq n) (sentList n) \<and> log_committed H b (commitSeq n) (replayLog n)"

lemma node_invD:
  assumes "node_inv H V b z n"
  shows "queue_known H b z (pendingQueue n)" "st.holds V (writeSeq n) (vol n)"
    "last_committed (vol n) = commitSeq n" "b \<le> commitSeq n" "commitSeq n \<le> writeSeq n" "writeSeq n \<le> z"
    "sent_between H (commitSeq n) (writeSeq n) (sentList n)" "log_committed H b (commitSeq n) (replayLog n)"
  using assms st.holds_committed_le [of V "writeSeq n" "vol n"] by (simp_all add: node_inv_def)

section \<open>Extending the history\<close>

text \<open>A new entry at the end of the history changes nothing for a node.\<close>

lemma node_inv_extend:
  assumes n: "node_inv H V b z n" and H: "\<And>k. k \<le> z \<Longrightarrow> H' k = H k" and V: "\<And>k. k \<le> z \<Longrightarrow> V' k = V k"
    and z: "z \<le> z'"
  shows "node_inv H' V' b z' n"
proof -
  note d = node_invD [OF n]
  have "known H' b z' e" if "known H b z e" for e using that H z by (auto simp: known_def)
  then have "queue_known H' b z' (pendingQueue n)" using d(1) by (simp add: queue_known_def)
  moreover have "st.holds V' (writeSeq n) (vol n)" by (rule st.holds_cong [OF d(2)]) (use d(6) V in simp)
  moreover have "sent_between H' (commitSeq n) (writeSeq n) (sentList n)"
    using d(7) d(6) H by (simp add: sent_between_def)
  moreover have "log_committed H' b (commitSeq n) (replayLog n)"
    using d(5,6,8) H unfolding log_committed_def by (metis order.trans)
  ultimately show ?thesis using d(3,4,6) z by (simp add: node_inv_def)
qed

section \<open>The tables under the invariant\<close>

lemma log_committed_add: "log_committed H b c log \<Longrightarrow> log_committed H b c (snd (addToLog r log))"
  by (auto simp: log_committed_def addToLog_wf addToLog_result spec_add_def split: if_splits)

lemma log_committed_ack: "log_committed H b c log \<Longrightarrow> log_committed H b c (snd (ackLogEntry r log))"
  by (auto simp: log_committed_def ackLogEntry_wf ackLogEntry_result spec_ack_def split: option.splits bool.splits if_splits)

lemma log_committed_commit:
  assumes "log_committed H b c log" and "b \<le> c"
  shows "log_committed H b (c + 1) (snd (commitLogEntry (reqId (H (c + 1))) log))"
  unfolding log_committed_def
proof (intro conjI allI impI)
  show "log_wf (snd (commitLogEntry (reqId (H (c + 1))) log))"
    using assms(1) by (simp add: log_committed_def commitLogEntry_wf)
  fix key assume "status (snd (commitLogEntry (reqId (H (c + 1))) log)) key = Some True"
  then consider "status log key = Some True" | "key = request_key (reqId (H (c + 1)))"
    by (auto simp: commitLogEntry_result spec_commit_def split: option.splits bool.splits if_splits)
  then show "\<exists>k. b < k \<and> k \<le> c + 1 \<and> request_key (reqId (H k)) = key"
  proof cases
    case 1
    then obtain k where "b < k" "k \<le> c" "request_key (reqId (H k)) = key"
      using assms(1) unfolding log_committed_def by blast
    then show ?thesis by (intro exI [of _ k]) simp
  next
    case 2
    then show ?thesis using assms(2) by (intro exI [of _ "c + 1"]) simp
  qed
qed

lemma queue_known_push:
  assumes "queue_known H b z q" and "known H b z e" and "pushEntry e q = Inr q'"
  shows "queue_known H b z q'" "set (queue q') = insert e (set (queue q))"
  using assms pq.push_wf [of q e q'] pq.push_entries [of q e q'] by (auto simp: queue_known_def)

lemma queue_known_pop:
  assumes "queue_known H b z q" and "popEntry q = Inr (e, q')"
  shows "queue_known H b z q'" "known H b z e" "set (queue q') \<subseteq> set (queue q)"
  using assms pq.pop_wf [of q e q'] pq.pop_entries [of q e q'] by (auto simp: queue_known_def)

lemma sent_pop:
  assumes "sent_between H c w l" and "c < w"
  obtains l' where
    "sl_popEntry (c + 1) l = (Inr \<lparr>se_reqId = reqId (H (c + 1)), se_volumeOffset = volumeOffset (H (c + 1))\<rparr>, l')"
    "sent_between H (c + 1) w l'"
proof -
  obtain r l' where p: "sl_popEntry (c + 1) l = (r, l')" by fastforce
  have wf: "map_wf l" and m: "map_of l k = (if c < k \<and> k \<le> w
      then Some \<lparr>se_reqId = reqId (H k), se_volumeOffset = volumeOffset (H k)\<rparr> else None)" for k
    using assms(1) by (simp_all add: sent_between_def)
  have r: "r = Inr \<lparr>se_reqId = reqId (H (c + 1)), se_volumeOffset = volumeOffset (H (c + 1))\<rparr>"
    and l': "map_of l' = (map_of l)(c + 1 := None)"
    using sl_pop_cases [OF wf p] m [of "c + 1"] assms(2) by auto
  have "sent_between H (c + 1) w l'"
    using sl_pop_wf [OF wf p] m l' by (auto simp: sent_between_def)
  with p r show ?thesis using that by simp
qed

lemma sent_pop_missing:
  assumes "sent_between H c w l" and "\<not> c < w"
  shows "sl_popEntry (c + 1) l = (Inl (Invalid_argument ''Key not found in sentList''), l)"
proof -
  obtain r l' where p: "sl_popEntry (c + 1) l = (r, l')" by fastforce
  have wf: "map_wf l" and "map_of l (c + 1) = None" using assms by (simp_all add: sent_between_def)
  then show ?thesis using sl_pop_cases [OF wf p] p by auto
qed

lemma sent_push:
  assumes "sent_between H c w l" and "c \<le> w"
  obtains l' where
    "sl_pushEntry (w + 1) \<lparr>se_reqId = reqId (H (w + 1)), se_volumeOffset = volumeOffset (H (w + 1))\<rparr> l = (Inr (), l')"
    "sent_between H c (w + 1) l'"
proof -
  let ?e = "\<lparr>se_reqId = reqId (H (w + 1)), se_volumeOffset = volumeOffset (H (w + 1))\<rparr>"
  obtain r l' where p: "sl_pushEntry (w + 1) ?e l = (r, l')" by fastforce
  have wf: "map_wf l" and m: "map_of l k = (if c < k \<and> k \<le> w
      then Some \<lparr>se_reqId = reqId (H k), se_volumeOffset = volumeOffset (H k)\<rparr> else None)" for k
    using assms(1) by (simp_all add: sent_between_def)
  have r: "r = Inr ()" and l': "map_of l' = (map_of l)(w + 1 \<mapsto> ?e)"
    using sl_push_cases [OF wf p] m [of "w + 1"] by auto
  have "sent_between H c (w + 1) l'"
    using sl_push_wf [OF wf p] m l' assms(2) by (auto simp: sent_between_def)
  with p r show ?thesis using that by simp
qed

section \<open>Arriving writes\<close>

text \<open>The entry the head makes of a client's request.\<close>

definition head_entry :: "write_request \<Rightarrow> int \<Rightarrow> pendingQueueEntry" where
  "head_entry request seq = \<lparr>seqNum = seq, volumeOffset = to_int64 (wr_offset request),
     data = take BLOCK_SIZE (wr_data request), reqId = wr_id request\<rparr>"

lemma addToLog_code: "log_wf log \<Longrightarrow> fst (addToLog r log) < 0 \<or> fst (addToLog r log) = 0"
  by (auto simp: addToLog_result spec_add_def)

lemma push_fresh:
  assumes "queue_known H b z q" and "0 \<le> b" and "z < seqNum e" and "seqNum e < 2 ^ 31"
  obtains q' where "pushEntry e q = Inr q'" "set (queue q') = insert e (set (queue q))" "pq_wf q'"
proof -
  have "to_int32 (seqNum x) \<noteq> to_int32 (seqNum e)" if "x \<in> set (queue q)" for x
  proof -
    have "b < seqNum x" "seqNum x \<le> z" using that assms(1) by (simp_all add: queue_known_def known_def)
    then show ?thesis using assms(2-4) by simp
  qed
  moreover have wf: "pq_wf q" using assms(1) by (simp add: queue_known_def)
  ultimately have "to_int32 (seqNum e) \<notin> seqNumSet q" by (force simp: pq_wf_def)
  then obtain q' where "pushEntry e q = Inr q'" by (simp add: pushEntry_def)
  then show ?thesis using that pq.push_entries [OF wf] pq.push_wf [OF wf] by blast
qed

lemma Write_refused:
  assumes "log_wf (replayLog n)" and "fst (addToLog (wr_id request) (replayLog n)) < 0"
  shows "Write request n = (Inr 0, n)"
  using assms addToLog_refused [OF assms(1), of "wr_id request"]
  by (simp add: Write_def Let_def case_prod_unfold)

lemma Write_accepted:
  assumes n: "node_inv H V b z n" and h: "history H V b z" and s: "currentSeq n = z + 1" and z: "z + 1 < 2 ^ 31"
    and a: "fst (addToLog (wr_id request) (replayLog n)) = 0"
  obtains q where "Write request n = (Inr (z + 1), n\<lparr>replayLog := snd (addToLog (wr_id request) (replayLog n)),
      currentSeq := z + 2, pendingQueue := q\<rparr>)"
    "pushEntry (head_entry request (z + 1)) (pendingQueue n) = Inr q"
    "set (queue q) = insert (head_entry request (z + 1)) (set (queue (pendingQueue n)))" "pq_wf q"
proof -
  have b: "0 \<le> b" "b \<le> z" using h by (simp_all add: history_def)
  obtain q where q: "pushEntry (head_entry request (z + 1)) (pendingQueue n) = Inr q"
      "set (queue q) = insert (head_entry request (z + 1)) (set (queue (pendingQueue n)))" "pq_wf q"
    by (rule push_fresh [OF node_invD(1) [OF n] b(1), of "head_entry request (z + 1)"])
       (use z in \<open>simp_all add: head_entry_def\<close>)
  have "to_int64 (2 + z) = z + 2" "to_uint64 (z + 1) = z + 1" using b z by simp_all
  then have "Write request n = (Inr (z + 1), n\<lparr>replayLog := snd (addToLog (wr_id request) (replayLog n)),
      currentSeq := z + 2, pendingQueue := q\<rparr>)"
    using q(1) a s by (simp add: Write_def Let_def case_prod_unfold head_entry_def)
  then show ?thesis using that q by blast
qed

text \<open>A relayed entry arrives as the entry it was, and once only while the replay log has it.\<close>

lemma relay_request_entry:
  assumes "history H V b z" and "known H b z e"
  shows "\<lparr>seqNum = to_int64 (rw_seqnum (relay_request e)), volumeOffset = to_int64 (rw_offset (relay_request e)),
    data = take BLOCK_SIZE (rw_data (relay_request e)), reqId = rw_id (relay_request e)\<rparr> = e"
  using known_entry(1,2,7) [OF assms] access_ok_range [OF known_entry(4) [OF assms]]
  by (simp add: relay_request_def)

lemma RelayWrite_known:
  assumes n: "node_inv H V b z n" and h: "history H V b z" and e: "known H b z e"
    and r: "RelayWrite (relay_request e) n = (r, n')"
  shows "node_inv H V b z n'" "set (queue (pendingQueue n')) \<subseteq> insert e (set (queue (pendingQueue n)))"
    "vol n' = vol n" "writeSeq n' = writeSeq n" "commitSeq n' = commitSeq n" "currentSeq n' = currentSeq n"
proof -
  let ?log = "snd (addToLog (reqId e) (replayLog n))"
  have id: "rw_id (relay_request e) = reqId e" by (simp add: relay_request_def)
  note re = relay_request_entry [OF h e]
  have "\<exists>q. n' = n\<lparr>replayLog := ?log, pendingQueue := q\<rparr> \<and> (q = pendingQueue n \<or> pushEntry e (pendingQueue n) = Inr q)"
  proof (cases "fst (addToLog (reqId e) (replayLog n)) < 0")
    case True
    then have "n' = n\<lparr>replayLog := ?log, pendingQueue := pendingQueue n\<rparr>"
      using r by (auto simp: RelayWrite_def Let_def case_prod_unfold id)
    then show ?thesis by blast
  next
    case False
    then have p: "(case pushEntry e (pendingQueue n) of Inl x \<Rightarrow> (Inl x, n\<lparr>replayLog := ?log\<rparr>)
        | Inr q \<Rightarrow> (Inr (), n\<lparr>replayLog := ?log, pendingQueue := q\<rparr>)) = (r, n')"
      using r re by (simp add: RelayWrite_def Let_def case_prod_unfold id)
    show ?thesis
    proof (cases "pushEntry e (pendingQueue n)")
      case (Inl x)
      then have "n' = n\<lparr>replayLog := ?log, pendingQueue := pendingQueue n\<rparr>" using p by auto
      then show ?thesis by blast
    next
      case (Inr q)
      then show ?thesis using p by auto
    qed
  qed
  then obtain q where n': "n' = n\<lparr>replayLog := ?log, pendingQueue := q\<rparr>"
    and q: "q = pendingQueue n \<or> pushEntry e (pendingQueue n) = Inr q" by blast
  note d = node_invD [OF n]
  have qk: "queue_known H b z q" "set (queue q) \<subseteq> insert e (set (queue (pendingQueue n)))"
    using q d(1) queue_known_push [OF d(1) e] by auto
  then show "node_inv H V b z n'" "set (queue (pendingQueue n')) \<subseteq> insert e (set (queue (pendingQueue n)))"
    using d log_committed_add [OF d(8)] by (simp_all add: n' node_inv_def)
  show "vol n' = vol n" "writeSeq n' = writeSeq n" "commitSeq n' = commitSeq n" "currentSeq n' = currentSeq n"
    by (simp_all add: n')
qed

section \<open>Storing\<close>

lemma take_known:
  assumes n: "node_inv H V b z n" and t: "relay_write_take n = Some (e, n')"
  shows "node_inv H V b z n'" "known H b z e" "seqNum e = writeSeq n + 1" "e \<in> set (queue (pendingQueue n))"
    "set (queue (pendingQueue n')) \<subseteq> set (queue (pendingQueue n))"
    "writeSeq n' = writeSeq n" "commitSeq n' = commitSeq n" "currentSeq n' = currentSeq n" "vol n' = vol n"
proof -
  obtain q where pop: "popEntry (pendingQueue n) = Inr (e, q)" and n': "n' = n\<lparr>pendingQueue := q\<rparr>"
    and s: "seqNum e = writeSeq n + 1"
    using t by (cases "queue (pendingQueue n)")
      (auto simp: relay_write_take_def peekEntry_def popEntry_def split: if_splits)
  note d = node_invD [OF n] and p = queue_known_pop [OF node_invD(1) [OF n] pop]
  show "node_inv H V b z n'" "known H b z e" "seqNum e = writeSeq n + 1"
      "set (queue (pendingQueue n')) \<subseteq> set (queue (pendingQueue n))"
    using d p s by (simp_all add: n' node_inv_def)
  show "e \<in> set (queue (pendingQueue n))" using pop by (auto simp: popEntry_def split: list.splits)
  show "writeSeq n' = writeSeq n" "commitSeq n' = commitSeq n" "currentSeq n' = currentSeq n" "vol n' = vol n"
    by (simp_all add: n')
qed

lemma string_block_known:
  assumes "history H V b z" and "known H b z e"
  shows "string_block (take BLOCK_SIZE (data e)) = Inr (stored_block (data e))"
    "BLOCK_SIZE \<le> length (stored_block (data e))"
  using known_entry(6,7) [OF assms] by (simp_all add: string_block_def stored_block_def)

lemma store_known:
  assumes n: "node_inv H V b z n" and h: "history H V b z" and e: "known H b z e" "seqNum e = writeSeq n + 1"
    and ok: "store_ok junk (volumeOffset e) (vol n)"
  obtains n' where "relay_write_store junk e n = (Inr (), n')" "node_inv H V b z n'" "writeSeq n' = writeSeq n + 1"
    "commitSeq n' = commitSeq n" "pendingQueue n' = pendingQueue n" "currentSeq n' = currentSeq n"
proof -
  note d = node_invD [OF n] and k = known_entry [OF h e(1)] and sb = string_block_known [OF h e(1)]
  have V: "V (writeSeq n + 1) = mark_write (writeSeq n + 1) (volumeOffset e) (stored_block (data e)) (V (writeSeq n))"
    using k(8) e(2) by simp
  have rng: "int64_range (writeSeq n + 1)" using k(1,2) e(2) by (simp add: int64_range_def)
  obtain s' where s': "storage_write junk (stored_block (data e)) (volumeOffset e) (writeSeq n + 1) (vol n) = Some s'"
      "st.holds V (writeSeq n + 1) s'" "last_committed s' = last_committed (vol n)"
    by (rule st.holds_write [OF d(2) ok sb(2) rng V])
  have H: "H (writeSeq n + 1) = e" using e by (simp add: known_def)
  obtain l' where l': "sl_pushEntry (writeSeq n + 1) \<lparr>se_reqId = reqId e, se_volumeOffset = volumeOffset e\<rparr> (sentList n) =
        (Inr (), l')" "sent_between H (commitSeq n) (writeSeq n + 1) l'"
    using sent_push [OF d(7,5)] H by auto
  have c: "check (my_ip n) (volumeOffset e) 1 = Inr (volumeOffset e)"
    using access_ok_range [OF k(4)] by (intro check_volume_offset) simp_all
  have i: "to_int32 (writeSeq n + 1) = writeSeq n + 1" "to_int64 (writeSeq n + 1) = writeSeq n + 1"
    using k(1,2) e(2) by simp_all
  let ?n' = "n\<lparr>vol := s', writeSeq := writeSeq n + 1, sentList := l'\<rparr>"
  have st: "relay_write_store junk e n = (Inr (), ?n')"
    using s'(1) l'(1) by (simp add: relay_write_store_def c sb(1) e(2) i)
  have "node_inv H V b z ?n'"
    using d k(3) e(2) s'(2,3) l'(2) by (simp add: node_inv_def)
  then show ?thesis using that [of ?n'] st by simp
qed

section \<open>Committing\<close>

text \<open>
  A node commits the write after its last committed one, from the tail's thread or from the call
  of the node below; a call for a write this node has not stored yet fails and changes nothing.
\<close>

lemma commit_known:
  assumes n: "node_inv H V b z n" and lt: "commitSeq n < writeSeq n" and rng: "0 \<le> commitSeq n" "commitSeq n + 1 < 2 ^ 31"
  obtains l s where "sl_popEntry (commitSeq n + 1) (sentList n) = (Inr \<lparr>se_reqId = reqId (H (commitSeq n + 1)),
      se_volumeOffset = volumeOffset (H (commitSeq n + 1))\<rparr>, l)"
    "storage_commit (commitSeq n + 1) (volumeOffset (H (commitSeq n + 1))) (vol n) = Some s"
    "node_inv H V b z (n\<lparr>sentList := l, vol := s,
      replayLog := snd (commitLogEntry (reqId (H (commitSeq n + 1))) (replayLog n)), commitSeq := commitSeq n + 1\<rparr>)"
proof -
  note d = node_invD [OF n]
  obtain l where l: "sl_popEntry (commitSeq n + 1) (sentList n) = (Inr \<lparr>se_reqId = reqId (H (commitSeq n + 1)),
      se_volumeOffset = volumeOffset (H (commitSeq n + 1))\<rparr>, l)" "sent_between H (commitSeq n + 1) (writeSeq n) l"
    by (rule sent_pop [OF d(7) lt])
  have lt': "last_committed (vol n) < writeSeq n" using lt d(3) by simp
  have "int64_range (last_committed (vol n) + 1)" using rng d(3) by (simp add: int64_range_def)
  then obtain s where s: "storage_commit (commitSeq n + 1) (volumeOffset (H (commitSeq n + 1))) (vol n) = Some s"
      "st.holds V (writeSeq n) s" "last_committed s = commitSeq n + 1"
    using st.holds_commit [OF d(2) lt', of "volumeOffset (H (commitSeq n + 1))"] d(3) by auto
  have "log_committed H b (commitSeq n + 1) (snd (commitLogEntry (reqId (H (commitSeq n + 1))) (replayLog n)))"
    by (rule log_committed_commit [OF d(8,4)])
  then have "node_inv H V b z (n\<lparr>sentList := l, vol := s,
      replayLog := snd (commitLogEntry (reqId (H (commitSeq n + 1))) (replayLog n)), commitSeq := commitSeq n + 1\<rparr>)"
    using d(1,4,6) l(2) s(2,3) by (simp add: node_inv_def)
  then show ?thesis using that l(1) s(1) by blast
qed

text \<open>What a commit leaves of the node, and that it took the next write.\<close>

definition committed_next ::
  "(int \<Rightarrow> pendingQueueEntry) \<Rightarrow> (int \<Rightarrow> version) \<Rightarrow> int \<Rightarrow> int \<Rightarrow> server_node \<Rightarrow> server_node \<Rightarrow> bool" where
  "committed_next H V b z n n' \<longleftrightarrow> node_inv H V b z n' \<and> commitSeq n' = commitSeq n + 1 \<and> writeSeq n' = writeSeq n \<and>
     pendingQueue n' = pendingQueue n \<and> currentSeq n' = currentSeq n \<and> node_state n' = node_state n \<and>
     replayLog n' = snd (commitLogEntry (reqId (H (commitSeq n + 1))) (replayLog n))"

lemma committed_range:
  assumes "node_inv H V b z n" and "history H V b z"
  shows "0 \<le> commitSeq n" "commitSeq n + 1 < 2 ^ 31"
  using node_invD(4-6) [OF assms(1)] assms(2) by (simp_all add: history_def)

lemma ack_iteration_known:
  assumes n: "node_inv H V b z n" and h: "history H V b z" and r: "relay_write_ack_iteration n = Some (Inr (), n', calls)"
  shows "committed_next H V b z n n'"
    "RelayWriteAck_call a \<in> set calls \<Longrightarrow> ra_seqnum a = commitSeq n + 1"
proof -
  note c = committed_range [OF n h]
  have i: "to_int32 (commitSeq n + 1) = commitSeq n + 1" "to_int64 (commitSeq n + 1) = commitSeq n + 1"
    "to_uint64 (commitSeq n + 1) = commitSeq n + 1"
    using c by simp_all
  have lt: "commitSeq n < writeSeq n"
  proof (rule ccontr)
    assume "\<not> commitSeq n < writeSeq n"
    then show False using r sent_pop_missing [OF node_invD(7) [OF n]]
      by (simp add: relay_write_ack_iteration_def Let_def i split: if_splits)
  qed
  obtain l s where p: "sl_popEntry (commitSeq n + 1) (sentList n) = (Inr \<lparr>se_reqId = reqId (H (commitSeq n + 1)),
      se_volumeOffset = volumeOffset (H (commitSeq n + 1))\<rparr>, l)"
    "storage_commit (commitSeq n + 1) (volumeOffset (H (commitSeq n + 1))) (vol n) = Some s"
    "node_inv H V b z (n\<lparr>sentList := l, vol := s,
      replayLog := snd (commitLogEntry (reqId (H (commitSeq n + 1))) (replayLog n)), commitSeq := commitSeq n + 1\<rparr>)"
    by (rule commit_known [OF n lt c])
  have "n' = n\<lparr>sentList := l, vol := s,
      replayLog := snd (commitLogEntry (reqId (H (commitSeq n + 1))) (replayLog n)), commitSeq := commitSeq n + 1\<rparr>"
    "RelayWriteAck_call a \<in> set calls \<Longrightarrow> ra_seqnum a = commitSeq n + 1"
    using r p(1,2) by (auto simp: relay_write_ack_iteration_def Let_def i split: if_splits)
  then show "committed_next H V b z n n'"
    "RelayWriteAck_call a \<in> set calls \<Longrightarrow> ra_seqnum a = commitSeq n + 1"
    using p(3) by (simp_all add: committed_next_def)
qed

lemma RelayWriteAck_known:
  assumes n: "node_inv H V b z n" and h: "history H V b z" and r: "RelayWriteAck request n = Some (res, n', calls)"
  shows "ra_seqnum request = commitSeq n + 1"
    "if commitSeq n < writeSeq n then res = Inr () \<and> committed_next H V b z n n' \<and>
       calls = (if node_state n \<noteq> HEAD \<and> node_state n \<noteq> SINGLE then [RelayWriteAck_call request] else [])
     else res = Inl (Invalid_argument ''Key not found in sentList'') \<and> n' = n \<and> calls = []"
proof -
  note c = committed_range [OF n h]
  have i: "to_int32 (commitSeq n + 1) = commitSeq n + 1" "to_int64 (commitSeq n + 1) = commitSeq n + 1"
    "to_uint64 (commitSeq n + 1) = commitSeq n + 1"
    using c by simp_all
  show seq: "ra_seqnum request = commitSeq n + 1" using r i by (auto simp: RelayWriteAck_def split: if_splits)
  show "if commitSeq n < writeSeq n then res = Inr () \<and> committed_next H V b z n n' \<and>
       calls = (if node_state n \<noteq> HEAD \<and> node_state n \<noteq> SINGLE then [RelayWriteAck_call request] else [])
     else res = Inl (Invalid_argument ''Key not found in sentList'') \<and> n' = n \<and> calls = []"
  proof (cases "commitSeq n < writeSeq n")
    case True
    obtain l s where p: "sl_popEntry (commitSeq n + 1) (sentList n) = (Inr \<lparr>se_reqId = reqId (H (commitSeq n + 1)),
        se_volumeOffset = volumeOffset (H (commitSeq n + 1))\<rparr>, l)"
      "storage_commit (commitSeq n + 1) (volumeOffset (H (commitSeq n + 1))) (vol n) = Some s"
      "node_inv H V b z (n\<lparr>sentList := l, vol := s,
        replayLog := snd (commitLogEntry (reqId (H (commitSeq n + 1))) (replayLog n)), commitSeq := commitSeq n + 1\<rparr>)"
      by (rule commit_known [OF n True c])
    have "res = Inr ()" "n' = n\<lparr>sentList := l, vol := s,
        replayLog := snd (commitLogEntry (reqId (H (commitSeq n + 1))) (replayLog n)), commitSeq := commitSeq n + 1\<rparr>"
      "calls = (if node_state n \<noteq> HEAD \<and> node_state n \<noteq> SINGLE then [RelayWriteAck_call request] else [])"
      using r p(1,2) by (simp_all add: RelayWriteAck_def Let_def seq i)
    then show ?thesis using True p(3) by (simp add: committed_next_def)
  next
    case False
    then show ?thesis using r sent_pop_missing [OF node_invD(7) [OF n] False]
      by (simp add: RelayWriteAck_def Let_def seq i)
  qed
qed

section \<open>Acknowledgements\<close>

lemma acks_known:
  assumes "node_inv H V b z n"
  shows "node_inv H V b z (n\<lparr>replayLog := snd (ackLogEntry r (replayLog n))\<rparr>)"
  using node_invD [OF assms] log_committed_ack by (simp add: node_inv_def)

end
