(* ===== verification/Chain.thy ===== *)
theory Chain
  imports Node_Inv
begin

text \<open>
  A chain of servers in a fixed configuration: the head first, the tail last, each with its relay
  thread and the calls it has in progress. Every step is one handler call or one stage of a
  background thread, so a run is an arbitrary interleaving of the threads of all servers. A call
  whose reply is lost has run at the callee and is made again by the caller.
\<close>

section \<open>Chains\<close>

text \<open>Where the relay thread of a node is: at the top of its loop, or with an entry in hand.\<close>

datatype relay_stage = Idle | Sending pendingQueueEntry | Storing pendingQueueEntry

record chain_link =
  node :: server_node
  stage :: relay_stage
  ack_calls :: "relay_write_ack_request list"
  log_calls :: "client_request_id list"

type_synonym chain = "chain_link list"

definition write_acks :: "remote_call list \<Rightarrow> relay_write_ack_request list" where
  "write_acks calls = concat (map (\<lambda>c. case c of RelayWriteAck_call r \<Rightarrow> [r] | _ \<Rightarrow> []) calls)"

definition log_acks :: "remote_call list \<Rightarrow> client_request_id list" where
  "log_acks calls = concat (map (\<lambda>c. case c of AckReplayLog_call r \<Rightarrow> [r] | _ \<Rightarrow> []) calls)"

datatype action =
    Client_write write_request
  | Take nat | Send nat | Send_lost nat | Store nat "nat \<Rightarrow> int"
  | Commit nat | Ack_write nat relay_write_ack_request | Ack_write_lost nat relay_write_ack_request
  | Client_ack client_request_id | Ack_log nat client_request_id | Ack_log_lost nat client_request_id

inductive chain_step :: "chain \<Rightarrow> action \<Rightarrow> chain \<Rightarrow> bool" where
  client_write: "c \<noteq> [] \<Longrightarrow> Write request (node (c ! 0)) = (r, n) \<Longrightarrow>
    chain_step c (Client_write request) (c[0 := (c ! 0)\<lparr>node := n\<rparr>])"
| take: "i < length c \<Longrightarrow> stage (c ! i) = Idle \<Longrightarrow> relay_write_take (node (c ! i)) = Some (e, n) \<Longrightarrow>
    chain_step c (Take i) (c[i := (c ! i)\<lparr>node := n, stage := Sending e\<rparr>])"
| send: "i + 1 < length c \<Longrightarrow> stage (c ! i) = Sending e \<Longrightarrow>
    relay_write_send e (node (c ! i)) = [RelayWrite_call request] \<Longrightarrow>
    RelayWrite request (node (c ! (i + 1))) = (Inr (), n) \<Longrightarrow>
    chain_step c (Send i) (c[i := (c ! i)\<lparr>stage := Storing e\<rparr>, i + 1 := (c ! (i + 1))\<lparr>node := n\<rparr>])"
| send_lost: "i + 1 < length c \<Longrightarrow> stage (c ! i) = Sending e \<Longrightarrow>
    relay_write_send e (node (c ! i)) = [RelayWrite_call request] \<Longrightarrow>
    RelayWrite request (node (c ! (i + 1))) = (r, n) \<Longrightarrow>
    chain_step c (Send_lost i) (c[i + 1 := (c ! (i + 1))\<lparr>node := n\<rparr>])"
| send_none: "i < length c \<Longrightarrow> stage (c ! i) = Sending e \<Longrightarrow> relay_write_send e (node (c ! i)) = [] \<Longrightarrow>
    chain_step c (Send i) (c[i := (c ! i)\<lparr>stage := Storing e\<rparr>])"
| store: "i < length c \<Longrightarrow> stage (c ! i) = Storing e \<Longrightarrow>
    relay_write_store junk e (node (c ! i)) = (Inr (), n) \<Longrightarrow>
    chain_step c (Store i junk) (c[i := (c ! i)\<lparr>node := n, stage := Idle\<rparr>])"
| commit: "i < length c \<Longrightarrow> relay_write_ack_iteration (node (c ! i)) = Some (Inr (), n, calls) \<Longrightarrow>
    chain_step c (Commit i) (c[i := (c ! i)\<lparr>node := n, ack_calls := ack_calls (c ! i) @ write_acks calls\<rparr>])"
| ack_write: "i + 1 < length c \<Longrightarrow> r \<in> set (ack_calls (c ! (i + 1))) \<Longrightarrow>
    RelayWriteAck r (node (c ! i)) = Some (Inr (), n, calls) \<Longrightarrow>
    chain_step c (Ack_write i r)
      (c[i := (c ! i)\<lparr>node := n, ack_calls := ack_calls (c ! i) @ write_acks calls\<rparr>,
         i + 1 := (c ! (i + 1))\<lparr>ack_calls := remove1 r (ack_calls (c ! (i + 1)))\<rparr>])"
| ack_write_lost: "i + 1 < length c \<Longrightarrow> r \<in> set (ack_calls (c ! (i + 1))) \<Longrightarrow>
    RelayWriteAck r (node (c ! i)) = Some (res, n, calls) \<Longrightarrow>
    chain_step c (Ack_write_lost i r)
      (c[i := (c ! i)\<lparr>node := n, ack_calls := ack_calls (c ! i) @ write_acks calls\<rparr>])"
| client_ack: "length c = i + 1 \<Longrightarrow> WriteAck r (node (c ! i)) = (committed, n, calls) \<Longrightarrow>
    chain_step c (Client_ack r) (c[i := (c ! i)\<lparr>node := n, log_calls := log_calls (c ! i) @ log_acks calls\<rparr>])"
| ack_log: "i + 1 < length c \<Longrightarrow> r \<in> set (log_calls (c ! (i + 1))) \<Longrightarrow>
    AckReplayLog r (node (c ! i)) = (n, calls) \<Longrightarrow>
    chain_step c (Ack_log i r)
      (c[i := (c ! i)\<lparr>node := n, log_calls := log_calls (c ! i) @ log_acks calls\<rparr>,
         i + 1 := (c ! (i + 1))\<lparr>log_calls := remove1 r (log_calls (c ! (i + 1)))\<rparr>])"
| ack_log_lost: "i + 1 < length c \<Longrightarrow> r \<in> set (log_calls (c ! (i + 1))) \<Longrightarrow>
    AckReplayLog r (node (c ! i)) = (n, calls) \<Longrightarrow>
    chain_step c (Ack_log_lost i r)
      (c[i := (c ! i)\<lparr>node := n, log_calls := log_calls (c ! i) @ log_acks calls\<rparr>])"

section \<open>Runs\<close>

text \<open>
  What the theorems ask of the environment: clients write whole aligned blocks inside the volume,
  the sequence numbers stay within \<^verbatim>\<open>int\<close>, and every store finds room and has no harmful stray
  block (\<open>store_ok\<close>).
\<close>

definition benign :: "chain \<Rightarrow> action \<Rightarrow> bool" where
  "benign c a = (case a of
     Client_write request \<Rightarrow> access_ok (to_int64 (wr_offset request)) \<and> to_int64 (wr_offset request) mod 4096 = 0 \<and>
       BLOCK_SIZE \<le> length (wr_data request) + 1 \<and> currentSeq (node (c ! 0)) + 1 < 2 ^ 31
   | Store i junk \<Rightarrow> (case stage (c ! i) of
       Storing e \<Rightarrow> store_ok junk (volumeOffset e) (vol (node (c ! i))) | _ \<Rightarrow> True)
   | _ \<Rightarrow> True)"

inductive chain_run :: "chain \<Rightarrow> chain \<Rightarrow> bool" for c0 where
  start: "chain_run c0 c0"
| step: "chain_run c0 c \<Longrightarrow> chain_step c a c' \<Longrightarrow> benign c a \<Longrightarrow> chain_run c0 c'"

text \<open>
  A chain whose servers have just started, each in the state of its place, from volumes with the
  same committed contents.
\<close>

definition states :: "chain \<Rightarrow> node_state list" where
  "states c = map (node_state \<circ> node) c"

definition started_chain :: "int \<Rightarrow> version \<Rightarrow> chain \<Rightarrow> bool" where
  "started_chain b v c \<longleftrightarrow> c \<noteq> [] \<and> states c = chain_states (length c) \<and> 0 \<le> b \<and> b + 1 < 2 ^ 31 \<and> currentSeq (node (c ! 0)) = b + 1 \<and>
     latest_marks b v \<and>
     (\<forall>l \<in> set c. stage l = Idle \<and> ack_calls l = [] \<and> log_calls l = [] \<and>
        pendingQueue (node l) = empty_pending_queue \<and> sentList (node l) = [] \<and> replayLog (node l) = [] \<and>
        writeSeq (node l) = b \<and> commitSeq (node l) = b \<and>
        volume_inv b (vol (node l)) \<and> last_committed (vol (node l)) = b \<and> version_at (vol (node l)) b = v)"

section \<open>No step changes the state of a server\<close>

lemma states_nth: "states c = chain_states (length c) \<Longrightarrow> i < length c \<Longrightarrow>
    (node_state (node (c ! i)) = TAIL \<or> node_state (node (c ! i)) = SINGLE) \<longleftrightarrow> i + 1 = length c"
  "states c = chain_states (length c) \<Longrightarrow> i < length c \<Longrightarrow>
    (node_state (node (c ! i)) = HEAD \<or> node_state (node (c ! i)) = SINGLE) \<longleftrightarrow> i = 0"
proof -
  assume s: "states c = chain_states (length c)" and i: "i < length c"
  have "node_state (node (c ! i)) = states c ! i" using i by (simp add: states_def)
  then have "node_state (node (c ! i)) = state_at (length c) i" using i by (simp add: s chain_states_def)
  then show "(node_state (node (c ! i)) = TAIL \<or> node_state (node (c ! i)) = SINGLE) \<longleftrightarrow> i + 1 = length c"
    "(node_state (node (c ! i)) = HEAD \<or> node_state (node (c ! i)) = SINGLE) \<longleftrightarrow> i = 0"
    using i by (auto simp: state_at_def split: if_splits)
qed

lemma states_update: "node_state (node l) = node_state (node (c ! i)) \<Longrightarrow> states (c[i := l]) = states c"
  by (cases "i < length c") (auto simp: states_def list_eq_iff_nth_eq nth_list_update)

lemma node_state_of_handlers:
  "Write request n = (r, n') \<Longrightarrow> node_state n' = node_state n"
  "relay_write_take n = Some (e, n') \<Longrightarrow> node_state n' = node_state n"
  "RelayWrite rr n = (u, n') \<Longrightarrow> node_state n' = node_state n"
  "relay_write_store junk e n = (u, n') \<Longrightarrow> node_state n' = node_state n"
  "relay_write_ack_iteration n = Some (u, n', calls) \<Longrightarrow> node_state n' = node_state n"
  "RelayWriteAck ra n = Some (u, n', calls) \<Longrightarrow> node_state n' = node_state n"
  "WriteAck q n = (f, n', calls) \<Longrightarrow> node_state n' = node_state n"
  "AckReplayLog q n = (n', calls) \<Longrightarrow> node_state n' = node_state n"
  by (auto simp: Write_def relay_write_take_def RelayWrite_def relay_write_store_def relay_write_ack_iteration_def
      RelayWriteAck_def WriteAck_def AckReplayLog_def Let_def case_prod_unfold
      split: if_splits sum.splits option.splits prod.splits)

lemma chain_step_states:
  assumes "chain_step c a c'"
  shows "states c' = states c"
  using assms by cases (auto simp: node_state_of_handlers states_update)

lemma chain_run_states: "chain_run c0 c \<Longrightarrow> states c = states c0 \<and> length c = length c0"
proof (induction rule: chain_run.induct)
  case (step c a c')
  moreover from chain_step_states [OF step(2)] have "length c' = length c" unfolding states_def by (rule map_eq_imp_length_eq)
  ultimately show ?case using chain_step_states by simp
qed simp

section \<open>The invariant of the chain\<close>

text \<open>Entries that have reached a node and are not stored there.\<close>

definition in_hand :: "relay_stage \<Rightarrow> pendingQueueEntry set" where
  "in_hand st = (case st of Idle \<Rightarrow> {} | Sending e \<Rightarrow> {e} | Storing e \<Rightarrow> {e})"

lemma in_hand_simps [simp]: "in_hand Idle = {}" "in_hand (Sending e) = {e}" "in_hand (Storing e) = {e}"
  by (simp_all add: in_hand_def)

definition arrived :: "chain_link \<Rightarrow> pendingQueueEntry set" where
  "arrived l = in_hand (stage l) \<union> set (queue (pendingQueue (node l)))"

text \<open>The last write a node may have relayed.\<close>

definition relayed :: "chain_link \<Rightarrow> int" where
  "relayed l = writeSeq (node l) + (if stage l = Idle then 0 else 1)"

definition link_inv ::
  "(int \<Rightarrow> pendingQueueEntry) \<Rightarrow> (int \<Rightarrow> version) \<Rightarrow> int \<Rightarrow> int \<Rightarrow> chain_link \<Rightarrow> bool" where
  "link_inv H V b z l \<longleftrightarrow> node_inv H V b z (node l) \<and>
     (\<forall>e \<in> in_hand (stage l). known H b z e \<and> seqNum e = writeSeq (node l) + 1) \<and>
     (\<forall>r \<in> set (ack_calls l). ra_seqnum r \<le> commitSeq (node l))"

definition below_inv :: "chain_link \<Rightarrow> chain_link \<Rightarrow> bool" where
  "below_inv u l \<longleftrightarrow> commitSeq (node u) \<le> commitSeq (node l) \<and> writeSeq (node l) \<le> relayed u \<and>
     (\<forall>e \<in> arrived l. seqNum e \<le> relayed u)"

definition chain_inv ::
  "(int \<Rightarrow> pendingQueueEntry) \<Rightarrow> (int \<Rightarrow> version) \<Rightarrow> int \<Rightarrow> int \<Rightarrow> chain \<Rightarrow> bool" where
  "chain_inv H V b z c \<longleftrightarrow> c \<noteq> [] \<and> history H V b z \<and> currentSeq (node (c ! 0)) = z + 1 \<and>
     (\<forall>i < length c. link_inv H V b z (c ! i)) \<and> (\<forall>i. i + 1 < length c \<longrightarrow> below_inv (c ! i) (c ! (i + 1)))"

lemma chain_invD:
  assumes "chain_inv H V b z c"
  shows "c \<noteq> []" "history H V b z" "currentSeq (node (c ! 0)) = z + 1"
    "i < length c \<Longrightarrow> link_inv H V b z (c ! i)" "i + 1 < length c \<Longrightarrow> below_inv (c ! i) (c ! (i + 1))"
  using assms by (simp_all add: chain_inv_def)

text \<open>A step that changes one link has to respect the links above and below it.\<close>

lemma chain_inv_update:
  assumes c: "chain_inv H V b z c" and i: "i < length c" and l: "link_inv H V b z l"
    and above: "\<And>j. i = j + 1 \<Longrightarrow> below_inv (c ! j) (c ! i) \<Longrightarrow> below_inv (c ! j) l"
    and below: "i + 1 < length c \<Longrightarrow> below_inv (c ! i) (c ! (i + 1)) \<Longrightarrow> below_inv l (c ! (i + 1))"
    and cur: "i = 0 \<Longrightarrow> currentSeq (node l) = currentSeq (node (c ! 0))"
  shows "chain_inv H V b z (c[i := l])"
proof -
  note d = chain_invD [OF c]
  have "below_inv (c[i := l] ! j) (c[i := l] ! (j + 1))" if j: "j + 1 < length c" for j
  proof -
    consider "j = i" | "j + 1 = i" | "j \<noteq> i" "j + 1 \<noteq> i" by blast
    then show ?thesis
    proof cases
      case 1
      then show ?thesis using below d(5) [OF j] j by simp
    next
      case 2
      then show ?thesis using above [of j] i d(5) [OF j] by auto
    qed (use d(5) [OF j] j in auto)
  qed
  moreover have "link_inv H V b z (c[i := l] ! j)" if "j < length c" for j
    using that l d(4) i by (cases "j = i") auto
  moreover have "currentSeq (node (c[i := l] ! 0)) = z + 1" using cur d(3) i by (cases i) auto
  ultimately show ?thesis using d(1,2) by (simp add: chain_inv_def)
qed

section \<open>Every step keeps the invariant\<close>

lemma link_invD:
  assumes "link_inv H V b z l"
  shows "node_inv H V b z (node l)" "e \<in> in_hand (stage l) \<Longrightarrow> known H b z e"
    "e \<in> in_hand (stage l) \<Longrightarrow> seqNum e = writeSeq (node l) + 1"
    "r \<in> set (ack_calls l) \<Longrightarrow> ra_seqnum r \<le> commitSeq (node l)"
  using assms by (simp_all add: link_inv_def)

lemma link_inv_extend:
  assumes "link_inv H V b z l" and "\<And>k. k \<le> z \<Longrightarrow> H' k = H k" and "\<And>k. k \<le> z \<Longrightarrow> V' k = V k" and "z \<le> z'"
  shows "link_inv H' V' b z' l"
  using assms node_inv_extend [of H V b z "node l" H' V' z'] by (auto simp: link_inv_def known_def)

lemma below_inv_upper:
  "below_inv u d \<Longrightarrow> commitSeq (node u') \<le> commitSeq (node d) \<Longrightarrow> relayed u \<le> relayed u' \<Longrightarrow> below_inv u' d"
  by (force simp: below_inv_def)

lemma below_inv_lower:
  "below_inv u l \<Longrightarrow> commitSeq (node l) \<le> commitSeq (node l') \<Longrightarrow> writeSeq (node l') \<le> relayed u \<Longrightarrow>
   arrived l' \<subseteq> arrived l \<Longrightarrow> below_inv u l'"
  by (force simp: below_inv_def)

lemma step_take:
  assumes c: "chain_inv H V b z c" and i: "i < length c" and st: "stage (c ! i) = Idle"
    and t: "relay_write_take (node (c ! i)) = Some (e, n)"
  shows "chain_inv H V b z (c[i := (c ! i)\<lparr>node := n, stage := Sending e\<rparr>])"
proof -
  note l = chain_invD(4) [OF c i]
  note t = take_known [OF link_invD(1) [OF l] t]
  show ?thesis
  proof (rule chain_inv_update [OF c i])
    show "link_inv H V b z ((c ! i)\<lparr>node := n, stage := Sending e\<rparr>)"
      using l t by (simp add: link_inv_def)
    show "below_inv (c ! j) ((c ! i)\<lparr>node := n, stage := Sending e\<rparr>)" if "below_inv (c ! j) (c ! i)" for j
      using that t by (intro below_inv_lower [OF that]) (auto simp: below_inv_def arrived_def)
    show "below_inv ((c ! i)\<lparr>node := n, stage := Sending e\<rparr>) (c ! (i + 1))" if "below_inv (c ! i) (c ! (i + 1))"
      using that t st by (intro below_inv_upper [OF that]) (auto simp: below_inv_def relayed_def)
  qed (use t in simp)
qed

lemma step_receive:
  assumes c: "chain_inv H V b z c" and i: "i + 1 < length c" and st: "stage (c ! i) = Sending e"
    and r: "RelayWrite (relay_request e) (node (c ! (i + 1))) = (r, n)"
  shows "chain_inv H V b z (c[i + 1 := (c ! (i + 1))\<lparr>node := n\<rparr>])"
proof -
  have i': "i < length c" using i by simp
  note u = chain_invD(4) [OF c i'] and l = chain_invD(4) [OF c i]
  have e: "known H b z e" "seqNum e = writeSeq (node (c ! i)) + 1"
    using link_invD(2,3) [OF u, of e] st by simp_all
  note t = RelayWrite_known [OF link_invD(1) [OF l] chain_invD(2) [OF c] e(1) r]
  have e': "seqNum e \<le> relayed (c ! i)" using e(2) st by (simp add: relayed_def)
  show ?thesis
  proof (rule chain_inv_update [OF c i])
    show "link_inv H V b z ((c ! (i + 1))\<lparr>node := n\<rparr>)"
      using l t by (simp add: link_inv_def)
    show "below_inv (c ! j) ((c ! (i + 1))\<lparr>node := n\<rparr>)" if "below_inv (c ! j) (c ! (i + 1))" and "i + 1 = j + 1" for j
      using that t e' by (auto simp: below_inv_def arrived_def)
    show "below_inv ((c ! (i + 1))\<lparr>node := n\<rparr>) (c ! (i + 1 + 1))" if "below_inv (c ! (i + 1)) (c ! (i + 1 + 1))"
      using that t by (simp add: below_inv_def relayed_def)
  qed simp
qed

lemma step_sent:
  assumes c: "chain_inv H V b z c" and i: "i < length c" and st: "stage (c ! i) = Sending e"
  shows "chain_inv H V b z (c[i := (c ! i)\<lparr>stage := Storing e\<rparr>])"
  by (rule chain_inv_update [OF c i])
     (use chain_invD(4) [OF c i] st in \<open>auto simp: link_inv_def below_inv_def relayed_def arrived_def\<close>)

lemma send_request:
  "relay_write_send e n = [RelayWrite_call request] \<Longrightarrow> request = relay_request e"
  by (simp add: relay_write_send_def split: if_splits)

lemma step_store:
  assumes c: "chain_inv H V b z c" and i: "i < length c" and st: "stage (c ! i) = Storing e"
    and r: "relay_write_store junk e (node (c ! i)) = (Inr (), n)"
    and ok: "store_ok junk (volumeOffset e) (vol (node (c ! i)))"
  shows "chain_inv H V b z (c[i := (c ! i)\<lparr>node := n, stage := Idle\<rparr>])"
proof -
  note l = chain_invD(4) [OF c i]
  have e: "known H b z e" "seqNum e = writeSeq (node (c ! i)) + 1"
    using link_invD(2,3) [OF l, of e] st by simp_all
  obtain n' where "relay_write_store junk e (node (c ! i)) = (Inr (), n')"
    and t: "node_inv H V b z n'" "writeSeq n' = writeSeq (node (c ! i)) + 1" "commitSeq n' = commitSeq (node (c ! i))"
      "pendingQueue n' = pendingQueue (node (c ! i))" "currentSeq n' = currentSeq (node (c ! i))"
    by (rule store_known [OF link_invD(1) [OF l] chain_invD(2) [OF c] e ok])
  with r have n: "n = n'" by simp
  show ?thesis
  proof (rule chain_inv_update [OF c i])
    show "link_inv H V b z ((c ! i)\<lparr>node := n, stage := Idle\<rparr>)"
      using l t by (simp add: n link_inv_def)
    show "below_inv (c ! j) ((c ! i)\<lparr>node := n, stage := Idle\<rparr>)" if "below_inv (c ! j) (c ! i)" for j
      using that t st e by (intro below_inv_lower [OF that]) (auto simp: n below_inv_def arrived_def)
    show "below_inv ((c ! i)\<lparr>node := n, stage := Idle\<rparr>) (c ! (i + 1))" if "below_inv (c ! i) (c ! (i + 1))"
      using that t st by (intro below_inv_upper [OF that]) (auto simp: n below_inv_def relayed_def)
  qed (use t in \<open>simp add: n\<close>)
qed

text \<open>A commit at a node whose successor has committed the write already.\<close>

lemma step_commit:
  assumes c: "chain_inv H V b z c" and i: "i < length c" and n: "committed_next H V b z (node (c ! i)) n"
    and acks: "\<And>r. r \<in> set acks \<Longrightarrow> ra_seqnum r \<le> commitSeq (node (c ! i)) + 1"
    and below: "i + 1 < length c \<Longrightarrow> commitSeq (node (c ! i)) + 1 \<le> commitSeq (node (c ! (i + 1)))"
  shows "chain_inv H V b z (c[i := (c ! i)\<lparr>node := n, ack_calls := ack_calls (c ! i) @ acks\<rparr>])"
proof (rule chain_inv_update [OF c i])
  note l = chain_invD(4) [OF c i] and n = n [unfolded committed_next_def]
  show "link_inv H V b z ((c ! i)\<lparr>node := n, ack_calls := ack_calls (c ! i) @ acks\<rparr>)"
    using l n acks by (fastforce simp: link_inv_def)
  show "below_inv ((c ! i)\<lparr>node := n, ack_calls := ack_calls (c ! i) @ acks\<rparr>) (c ! (i + 1))"
    if "i + 1 < length c" "below_inv (c ! i) (c ! (i + 1))"
    using that n below by (simp add: below_inv_def relayed_def)
qed (use n in \<open>auto simp: committed_next_def below_inv_def arrived_def\<close>)

lemma write_acks_simps [simp]:
  "write_acks [] = []" "r \<in> set (write_acks calls) \<longleftrightarrow> RelayWriteAck_call r \<in> set calls"
  by (auto simp: write_acks_def split: remote_call.splits)

lemma step_commit_thread:
  assumes c: "chain_inv H V b z c" and s: "states c = chain_states (length c)" and i': "i < length c"
    and r: "relay_write_ack_iteration (node (c ! i)) = Some (Inr (), n, calls)"
  shows "chain_inv H V b z (c[i := (c ! i)\<lparr>node := n, ack_calls := ack_calls (c ! i) @ write_acks calls\<rparr>])"
proof -
  have "node_state (node (c ! i)) = TAIL \<or> node_state (node (c ! i)) = SINGLE"
    using r by (simp add: relay_write_ack_iteration_def split: if_splits)
  then have i: "length c = i + 1" using states_nth(1) [OF s i'] by simp
  note t = ack_iteration_known [OF link_invD(1) [OF chain_invD(4) [OF c i']] chain_invD(2) [OF c] r]
  show ?thesis by (rule step_commit [OF c i' t(1)]) (use t(2) i in auto)
qed

lemma step_ack_write:
  assumes c: "chain_inv H V b z c" and i: "i + 1 < length c" and a: "a \<in> set (ack_calls (c ! (i + 1)))"
    and r: "RelayWriteAck a (node (c ! i)) = Some (res, n, calls)"
  shows "chain_inv H V b z (c[i := (c ! i)\<lparr>node := n, ack_calls := ack_calls (c ! i) @ write_acks calls\<rparr>])"
proof -
  have i': "i < length c" using i by simp
  note t = RelayWriteAck_known [OF link_invD(1) [OF chain_invD(4) [OF c i']] chain_invD(2) [OF c] r]
  have le: "commitSeq (node (c ! i)) + 1 \<le> commitSeq (node (c ! (i + 1)))"
    using link_invD(4) [OF chain_invD(4) [OF c i] a] t(1) by simp
  show ?thesis
  proof (cases "commitSeq (node (c ! i)) < writeSeq (node (c ! i))")
    case True
    have n: "committed_next H V b z (node (c ! i)) n"
      and calls: "calls = (if node_state (node (c ! i)) \<noteq> HEAD \<and> node_state (node (c ! i)) \<noteq> SINGLE
        then [RelayWriteAck_call a] else [])"
      using t(2) True by simp_all
    show ?thesis
      by (rule step_commit [OF c i' n]) (use calls t(1) le in \<open>auto split: if_splits\<close>)
  next
    case False
    then have "n = node (c ! i)" "calls = []" using t(2) by simp_all
    then have "c[i := (c ! i)\<lparr>node := n, ack_calls := ack_calls (c ! i) @ write_acks calls\<rparr>] = c" by simp
    then show ?thesis using c by simp
  qed
qed

text \<open>Calls that are over, and changes of the replay log by acknowledgements.\<close>

lemma step_calls_done:
  assumes c: "chain_inv H V b z c" and i: "i < length c" and sub: "set acks \<subseteq> set (ack_calls (c ! i))"
  shows "chain_inv H V b z (c[i := (c ! i)\<lparr>ack_calls := acks\<rparr>])"
    "chain_inv H V b z (c[i := (c ! i)\<lparr>log_calls := logs\<rparr>])"
  by (rule chain_inv_update [OF c i];
      use chain_invD(4) [OF c i] sub in \<open>auto simp: link_inv_def below_inv_def relayed_def arrived_def\<close>)+

lemma step_log:
  assumes c: "chain_inv H V b z c" and i: "i < length c"
    and n: "n = (node (c ! i))\<lparr>replayLog := snd (ackLogEntry r (replayLog (node (c ! i))))\<rparr>"
  shows "chain_inv H V b z (c[i := (c ! i)\<lparr>node := n, log_calls := logs\<rparr>])"
proof (rule chain_inv_update [OF c i])
  note l = chain_invD(4) [OF c i]
  show "link_inv H V b z ((c ! i)\<lparr>node := n, log_calls := logs\<rparr>)"
    using l acks_known [OF link_invD(1) [OF l], of r] by (simp add: n link_inv_def)
qed (auto simp: n below_inv_def relayed_def arrived_def)

text \<open>The head extends the history by the entry it makes of an accepted request.\<close>

definition extends :: "int \<Rightarrow> (int \<Rightarrow> version) \<Rightarrow> int \<Rightarrow> (int \<Rightarrow> version) \<Rightarrow> bool" where
  "extends z V z' V' \<longleftrightarrow> z \<le> z' \<and> (\<forall>k \<le> z. V' k = V k)"

lemma extends_refl [simp]: "extends z V z V"
  by (simp add: extends_def)

lemma extends_trans: "extends z V z' V' \<Longrightarrow> extends z' V' z'' V'' \<Longrightarrow> extends z V z'' V''"
  by (simp add: extends_def)

definition next_version_of :: "pendingQueueEntry \<Rightarrow> version \<Rightarrow> version" where
  "next_version_of e = mark_write (seqNum e) (volumeOffset e) (stored_block (data e))"

lemma history_extend:
  assumes h: "history H V b z" and z: "z + 2 < 2 ^ 31" and e: "seqNum e = z + 1" "access_ok (volumeOffset e)"
      "volumeOffset e mod 4096 = 0" "BLOCK_SIZE \<le> length (data e) + 1" "length (data e) \<le> BLOCK_SIZE"
  shows "history (H(z + 1 := e)) (V(z + 1 := next_version_of e (V z))) b (z + 1)" (is "history ?H ?V b (z + 1)")
  unfolding history_def
proof (intro conjI allI impI)
  show "history_entry ?H ?V k" if "b < k \<and> k \<le> z + 1" for k
    using that e h by (cases "k = z + 1") (simp_all add: history_def history_entry_def next_version_of_def)
qed (use h z in \<open>simp_all add: history_def\<close>)

lemma client_write_accepted:
  assumes c: "chain_inv H V b z c" and ok: "benign c (Client_write request)"
    and a: "fst (addToLog (wr_id request) (replayLog (node (c ! 0)))) = 0" and e: "e = head_entry request (z + 1)"
  obtains q where "Write request (node (c ! 0)) = (Inr (z + 1), (node (c ! 0))
      \<lparr>replayLog := snd (addToLog (wr_id request) (replayLog (node (c ! 0)))), currentSeq := z + 2, pendingQueue := q\<rparr>)"
    "pushEntry e (pendingQueue (node (c ! 0))) = Inr q"
    "chain_inv (H(z + 1 := e)) (V(z + 1 := next_version_of e (V z))) b (z + 1) (c[0 := (c ! 0)\<lparr>node := (node (c ! 0))
      \<lparr>replayLog := snd (addToLog (wr_id request) (replayLog (node (c ! 0)))), currentSeq := z + 2, pendingQueue := q\<rparr>\<rparr>])"
    "known (H(z + 1 := e)) b (z + 1) e"
proof -
  let ?n = "node (c ! 0)" and ?H = "H(z + 1 := e)" and ?V = "V(z + 1 := next_version_of e (V z))"
  note d = chain_invD [OF c]
  have len: "0 < length c" using d(1) by simp
  note l = d(4) [OF len] and h = d(2)
  have z: "z + 2 < 2 ^ 31" using ok d(3) by (simp add: benign_def)
  then have z1: "z + 1 < 2 ^ 31" by simp
  obtain q where w: "Write request ?n = (Inr (z + 1), ?n\<lparr>replayLog := snd (addToLog (wr_id request) (replayLog ?n)),
        currentSeq := z + 2, pendingQueue := q\<rparr>)" "pushEntry e (pendingQueue ?n) = Inr q"
      "set (queue q) = insert e (set (queue (pendingQueue ?n)))" "pq_wf q"
    unfolding e by (rule Write_accepted [OF link_invD(1) [OF l] h d(3) z1 a])
  define n where "n = ?n\<lparr>replayLog := snd (addToLog (wr_id request) (replayLog ?n)),
        currentSeq := z + 2, pendingQueue := q\<rparr>"
  have h': "history ?H ?V b (z + 1)"
    by (rule history_extend [OF h z]) (use ok in \<open>simp_all add: e head_entry_def benign_def\<close>)
  have lx: "link_inv ?H ?V b (z + 1) x" if "link_inv H V b z x" for x
    by (rule link_inv_extend [OF that]) simp_all
  have kn: "known ?H b (z + 1) e" using h by (simp add: known_def e head_entry_def history_def)
  then have "queue_known ?H b (z + 1) q"
    using w(3,4) node_invD(1) [OF link_invD(1) [OF lx [OF l]]] by (simp add: queue_known_def)
  then have "link_inv ?H ?V b (z + 1) ((c ! 0)\<lparr>node := n\<rparr>)"
    using lx [OF l] by (simp add: n_def link_inv_def node_inv_def log_committed_add)
  moreover have "link_inv ?H ?V b (z + 1) (c ! i)" if "i < length c" for i by (rule lx [OF d(4) [OF that]])
  moreover have "below_inv (c[0 := (c ! 0)\<lparr>node := n\<rparr>] ! i) (c[0 := (c ! 0)\<lparr>node := n\<rparr>] ! (i + 1))"
    if "i + 1 < length c" for i
    using d(5) [OF that] len by (cases i) (simp_all add: n_def below_inv_def relayed_def)
  ultimately have "chain_inv ?H ?V b (z + 1) (c[0 := (c ! 0)\<lparr>node := n\<rparr>])"
    using d(1) h' by (auto simp: chain_inv_def n_def nth_list_update)
  then show ?thesis using that w(1,2) kn unfolding n_def by blast
qed

lemma step_client_write:
  assumes c: "chain_inv H V b z c" and w: "Write request (node (c ! 0)) = (r, n)"
    and ok: "benign c (Client_write request)"
  shows "\<exists>H' V' z'. extends z V z' V' \<and> chain_inv H' V' b z' (c[0 := (c ! 0)\<lparr>node := n\<rparr>])"
proof -
  have len: "0 < length c" using chain_invD(1) [OF c] by simp
  have wf: "log_wf (replayLog (node (c ! 0)))"
    using node_invD(8) [OF link_invD(1) [OF chain_invD(4) [OF c len]]] by (simp add: log_committed_def)
  show ?thesis
  proof (cases "fst (addToLog (wr_id request) (replayLog (node (c ! 0)))) < 0")
    case True
    then have "n = node (c ! 0)" using Write_refused [OF wf True] w by simp
    then have "c[0 := (c ! 0)\<lparr>node := n\<rparr>] = c" by simp
    then show ?thesis using c extends_refl by metis
  next
    case False
    then have a: "fst (addToLog (wr_id request) (replayLog (node (c ! 0)))) = 0" using addToLog_code [OF wf] by blast
    let ?V = "V(z + 1 := next_version_of (head_entry request (z + 1)) (V z))"
    have "extends z V (z + 1) ?V" by (simp add: extends_def)
    then show ?thesis
      using client_write_accepted [OF c ok a refl] w by (metis prod.inject)
  qed
qed

lemma server_step_inv:
  assumes "chain_step c a c'" and "benign c a" and "chain_inv H V b z c" and "states c = chain_states (length c)"
    and "\<And>request. a \<noteq> Client_write request"
  shows "chain_inv H V b z c'"
  using assms
proof cases
  case (client_write request r n)
  then show ?thesis using assms(5) by blast
next
  case (take i e n)
  then show ?thesis using step_take [OF assms(3)] by blast
next
  case (send i e request n)
  then have "chain_inv H V b z (c[i + 1 := (c ! (i + 1))\<lparr>node := n\<rparr>])"
    using step_receive [OF assms(3)] send_request by blast
  then have "chain_inv H V b z (c[i + 1 := (c ! (i + 1))\<lparr>node := n\<rparr>, i := (c ! i)\<lparr>stage := Storing e\<rparr>])"
    using step_sent [of H V b z "c[i + 1 := (c ! (i + 1))\<lparr>node := n\<rparr>]" i e] send(3,4) by simp
  then show ?thesis using send(2) by (metis list_update_swap n_not_Suc_n Suc_eq_plus1)
next
  case (send_lost i e request r n)
  then show ?thesis using step_receive [OF assms(3)] send_request by blast
next
  case (send_none i e)
  then show ?thesis using step_sent [OF assms(3)] by blast
next
  case (store i e junk n)
  then show ?thesis using step_store [OF assms(3)] assms(2) by (simp add: benign_def)
next
  case (commit i n calls)
  then show ?thesis using step_commit_thread [OF assms(3,4)] by blast
next
  case (ack_write i r n calls)
  let ?c = "c[i := (c ! i)\<lparr>node := n, ack_calls := ack_calls (c ! i) @ write_acks calls\<rparr>]"
  have "chain_inv H V b z ?c" using step_ack_write [OF assms(3)] ack_write by blast
  from step_calls_done(1) [OF this, of "i + 1" "remove1 r (ack_calls (c ! (i + 1)))"] ack_write(2,3)
  show ?thesis using set_remove1_subset [of r "ack_calls (c ! (i + 1))"] by auto
next
  case (ack_write_lost i r res n calls)
  then show ?thesis using step_ack_write [OF assms(3)] by blast
next
  case (client_ack i r committed n calls)
  then have "i < length c" "n = (node (c ! i))\<lparr>replayLog := snd (ackLogEntry r (replayLog (node (c ! i))))\<rparr>"
    by (auto simp: WriteAck_def Let_def case_prod_unfold)
  then show ?thesis using step_log [OF assms(3)] client_ack(2) by blast
next
  case (ack_log i r n calls)
  let ?c = "c[i := (c ! i)\<lparr>node := n, log_calls := log_calls (c ! i) @ log_acks calls\<rparr>]"
  have "n = (node (c ! i))\<lparr>replayLog := snd (ackLogEntry r (replayLog (node (c ! i))))\<rparr>"
    using ack_log by (simp add: AckReplayLog_def)
  then have "chain_inv H V b z ?c" using step_log [OF assms(3)] ack_log(3) by simp
  from step_calls_done(2) [OF this, of "i + 1" "ack_calls (c ! (i + 1))"] ack_log(2,3)
  show ?thesis by auto
next
  case (ack_log_lost i r n calls)
  then have "i < length c" "n = (node (c ! i))\<lparr>replayLog := snd (ackLogEntry r (replayLog (node (c ! i))))\<rparr>"
    by (simp_all add: AckReplayLog_def)
  then show ?thesis using step_log [OF assms(3)] ack_log_lost(2) by blast
qed

lemma chain_step_inv:
  assumes "chain_step c a c'" and "benign c a" and "chain_inv H V b z c" and "states c = chain_states (length c)"
  shows "\<exists>H' V' z'. extends z V z' V' \<and> chain_inv H' V' b z' c'"
proof (cases "\<exists>request. a = Client_write request")
  case True
  then obtain request where a: "a = Client_write request" ..
  from assms(1) show ?thesis
    unfolding a by cases (use step_client_write [OF assms(3)] assms(2) in \<open>simp add: a\<close>)
next
  case False
  then have "chain_inv H V b z c'" using server_step_inv [OF assms] by blast
  then show ?thesis using extends_refl by blast
qed

lemma started_chain_inv:
  assumes "started_chain b v c"
  shows "chain_inv H (\<lambda>k. v) b b c"
proof -
  have l: "link_inv H (\<lambda>k. v) b b l" if "l \<in> set c" for l
  proof -
    have "st.holds (\<lambda>k. v) b (vol (node l))"
      using that assms by (auto simp: started_chain_def st.holds_def)
    then show ?thesis using that assms
      by (auto simp: started_chain_def link_inv_def node_inv_def queue_known_def sent_between_def
          log_committed_def empty_pending_queue_def pq_wf_def map_wf_def status_def)
  qed
  have "below_inv u l" if "u \<in> set c" "l \<in> set c" for u l
    using that assms by (simp add: started_chain_def below_inv_def relayed_def arrived_def empty_pending_queue_def)
  then show ?thesis using l assms by (auto simp: chain_inv_def history_def started_chain_def)
qed

lemma chain_run_inv:
  assumes "chain_run c0 c" and "started_chain b v c0"
  shows "\<exists>H V z. V b = v \<and> chain_inv H V b z c"
  using assms(1)
proof induction
  case start
  show ?case
    by (rule exI, rule exI [of _ "\<lambda>k. v"], rule exI [of _ b], rule conjI, rule refl)
       (rule started_chain_inv [OF assms(2)])
next
  case (step c a c')
  then have "states c = chain_states (length c)" using chain_run_states assms(2) by (simp add: started_chain_def)
  with step obtain H V z H' V' z' where "V b = v" "b \<le> z" "extends z V z' V'" "chain_inv H' V' b z' c'"
    using chain_step_inv by (metis chain_invD(2) history_def)
  then show ?case by (auto simp: extends_def)
qed

section \<open>A chain of two new servers\<close>

text \<open>The first server registers alone, the second as its tail; the first then becomes head.\<close>

definition new_link :: "server_node \<Rightarrow> chain_link" where
  "new_link n = \<lparr>node = n, stage = Idle, ack_calls = [], log_calls = []\<rparr>"

definition first_server :: server_node where
  "first_server = registered None (start_server ''10.0.0.1'' 60051 new_volume)"

definition second_server :: server_node where
  "second_server = registered (Some \<lparr>si_ip = ''10.0.0.1'', si_port = 60051\<rparr>) (start_server ''10.0.0.2'' 60051 new_volume)"

definition to_head :: change_mode_request where
  "to_head = \<lparr>prev_addr = None, next_addr = Some \<lparr>si_ip = ''10.0.0.2'', si_port = 60051\<rparr>, new_state = 0, last_seq_num = 0\<rparr>"

lemma modified_offsets_new: "get_modified_offsets new_volume n = Some []"
  by (simp add: get_modified_offsets_def new_volume_def new_process_def first_level_block_def)

definition head_server :: server_node where
  "head_server = (kill_tail first_server)\<lparr>node_state := HEAD,
     downstream := set_peer \<lparr>si_ip = ''10.0.0.2'', si_port = 60051\<rparr> new_peer\<rparr>"

lemmas server_start_defs = first_server_def second_server_def registered_def start_server_def launch_tail_def
  launch_head_def kill_tail_def get_sequence_number_def new_volume_committed

lemma first_server_to_head:
  "ChangeMode to_head first_server = Some (Inr 0, head_server, [Restore_call [], UpdateReplayLog_call []])"
proof -
  have "vol first_server = new_volume" "replayLog first_server = []" "node_state first_server = SINGLE"
    "changemode_locked first_server = False" "upstream first_server = new_peer" "downstream first_server = new_peer"
    by (simp_all add: server_start_defs)
  then show ?thesis
    by (simp add: ChangeMode_def with_neighbours_def to_head_def new_tail_calls_def modified_offsets_new state_of_int_def
        switch_services_def head_server_def kill_tail_def getRelayLogContent_def)
qed

definition new_chain :: chain where
  "new_chain = [new_link head_server, new_link second_server]"

lemma new_chain_started: "started_chain 0 blank new_chain"
proof -
  have i: "volume_inv 0 new_volume" by (simp add: volume_inv_def new_volume_inv new_volume_total)
  show ?thesis
    by (simp add: started_chain_def states_def chain_states_def state_at_def upt_rec new_chain_def new_link_def
        head_server_def server_start_defs new_volume_blank latest_marks_blank i)
qed

end
