(* ===== verification/Chain_Progress.thy ===== *)
theory Chain_Progress
  imports Chain
begin

text \<open>
  A write that meets a quiet chain gets through: the relay threads can carry it down to the tail
  and the acknowledgements back up, so that every server stores and commits it.
\<close>

section \<open>What the steps return\<close>

definition settled :: "int \<Rightarrow> int \<Rightarrow> chain_link \<Rightarrow> bool" where
  "settled w c l \<longleftrightarrow> stage l = Idle \<and> pendingQueue (node l) = empty_pending_queue \<and> ack_calls l = [] \<and>
     writeSeq (node l) = w \<and> commitSeq (node l) = c"

definition one_entry :: "pendingQueueEntry \<Rightarrow> pending_queue" where
  "one_entry e = \<lparr>queue = [e], seqNumSet = {to_int32 (seqNum e)}\<rparr>"

lemma push_one: "pushEntry e empty_pending_queue = Inr (one_entry e)"
  by (simp add: pushEntry_def empty_pending_queue_def one_entry_def)

lemma take_one:
  assumes "pendingQueue n = one_entry e" and "seqNum e = writeSeq n + 1"
  shows "relay_write_take n = Some (e, n\<lparr>pendingQueue := empty_pending_queue\<rparr>)"
  using assms by (simp add: relay_write_take_def one_entry_def getQueueSize_def peekEntry_def popEntry_def
      empty_pending_queue_def)

lemma RelayWrite_accepted:
  assumes "history H V b z" and "known H b z e" and "fst (addToLog (reqId e) (replayLog n)) = 0"
    and "pendingQueue n = empty_pending_queue"
  shows "RelayWrite (relay_request e) n =
    (Inr (), n\<lparr>replayLog := snd (addToLog (reqId e) (replayLog n)), pendingQueue := one_entry e\<rparr>)"
  using relay_request_entry [OF assms(1,2)] assms(3,4) push_one
  by (simp add: RelayWrite_def Let_def case_prod_unfold relay_request_def)

lemma store_state:
  assumes "relay_write_store junk e n = (Inr (), n')"
  shows "node_state n' = node_state n" "replayLog n' = replayLog n"
  using assms by (auto simp: relay_write_store_def Let_def case_prod_unfold split: sum.splits option.splits)

lemma ack_iteration_returns:
  assumes n: "node_inv H V b z n" and h: "history H V b z" and lt: "commitSeq n < writeSeq n"
    and st: "node_state n = TAIL \<or> node_state n = SINGLE"
  obtains n' where "relay_write_ack_iteration n = Some (Inr (), n', if node_state n = TAIL
      then [RelayWriteAck_call \<lparr>ra_seqnum = commitSeq n + 1, ra_id = reqId (H (commitSeq n + 1))\<rparr>] else [])"
proof -
  note c = committed_range [OF n h]
  have i: "to_int32 (commitSeq n + 1) = commitSeq n + 1" "to_int64 (commitSeq n + 1) = commitSeq n + 1"
    "to_uint64 (commitSeq n + 1) = commitSeq n + 1"
    using c by simp_all
  obtain l s where p: "sl_popEntry (commitSeq n + 1) (sentList n) = (Inr \<lparr>se_reqId = reqId (H (commitSeq n + 1)),
      se_volumeOffset = volumeOffset (H (commitSeq n + 1))\<rparr>, l)"
    "storage_commit (commitSeq n + 1) (volumeOffset (H (commitSeq n + 1))) (vol n) = Some s"
    by (rule commit_known [OF n lt c])
  show ?thesis
    using that st p by (simp add: relay_write_ack_iteration_def Let_def i)
qed

lemma RelayWriteAck_returns:
  assumes n: "node_inv H V b z n" and h: "history H V b z" and lt: "commitSeq n < writeSeq n"
    and a: "ra_seqnum a = commitSeq n + 1"
  obtains n' where "RelayWriteAck a n = Some (Inr (), n',
      if node_state n \<noteq> HEAD \<and> node_state n \<noteq> SINGLE then [RelayWriteAck_call a] else [])"
proof -
  have "to_uint64 (commitSeq n + 1) = commitSeq n + 1" using committed_range [OF n h] by simp
  then have "RelayWriteAck a n \<noteq> None"
    using a by (simp add: RelayWriteAck_def Let_def split: prod.splits sum.splits option.splits)
  then obtain res n' calls where r: "RelayWriteAck a n = Some (res, n', calls)" by (metis not_None_eq prod_cases3)
  then show ?thesis using that RelayWriteAck_known(2) [OF n h r] lt by auto
qed

section \<open>Down the chain\<close>

text \<open>A server whose relay thread has one entry waiting takes it, relays it and stores it.\<close>

definition logged :: "pendingQueueEntry \<Rightarrow> bool \<Rightarrow> chain_link \<Rightarrow> bool" where
  "logged e f l \<longleftrightarrow> log_wf (replayLog (node l)) \<and> status (replayLog (node l)) (request_key (reqId e)) = Some f"

definition waiting :: "pendingQueueEntry \<Rightarrow> int \<Rightarrow> chain_link \<Rightarrow> bool" where
  "waiting e w l \<longleftrightarrow> stage l = Idle \<and> pendingQueue (node l) = one_entry e \<and> ack_calls l = [] \<and>
     writeSeq (node l) = w \<and> commitSeq (node l) = w \<and> logged e False l"

definition ready :: "pendingQueueEntry \<Rightarrow> int \<Rightarrow> chain_link \<Rightarrow> bool" where
  "ready e w l \<longleftrightarrow> settled w w l \<and> log_wf (replayLog (node l)) \<and> fst (addToLog (reqId e) (replayLog (node l))) = 0"

definition storable :: "pendingQueueEntry \<Rightarrow> chain_link \<Rightarrow> bool" where
  "storable e l \<longleftrightarrow> (\<exists>junk. store_ok junk (volumeOffset e) (vol (node l)))"

lemma benign_internal [simp]:
  "benign c (Take i)" "benign c (Send i)" "benign c (Commit i)" "benign c (Ack_write i r)"
  by (simp_all add: benign_def)

lemma run_store:
  assumes run: "chain_run c0 c" and c: "chain_inv H V b z c" and i: "i < length c"
    and st: "stage (c ! i) = Storing e" and w: "writeSeq (node (c ! i)) = w" "commitSeq (node (c ! i)) = w"
    and q: "pendingQueue (node (c ! i)) = empty_pending_queue" "ack_calls (c ! i) = []"
    and ok: "storable e (c ! i)"
  obtains l where "chain_run c0 (c[i := l])" "chain_inv H V b z (c[i := l])" "settled (w + 1) w l"
    "node_state (node l) = node_state (node (c ! i))" "replayLog (node l) = replayLog (node (c ! i))"
proof -
  note l = chain_invD(4) [OF c i]
  have e: "known H b z e" "seqNum e = writeSeq (node (c ! i)) + 1"
    using link_invD(2,3) [OF l, of e] st by simp_all
  obtain junk where junk: "store_ok junk (volumeOffset e) (vol (node (c ! i)))" using ok by (auto simp: storable_def)
  obtain n where n: "relay_write_store junk e (node (c ! i)) = (Inr (), n)" "writeSeq n = writeSeq (node (c ! i)) + 1"
    "commitSeq n = commitSeq (node (c ! i))" "pendingQueue n = pendingQueue (node (c ! i))"
    by (rule store_known [OF link_invD(1) [OF l] chain_invD(2) [OF c] e junk])
  let ?l = "(c ! i)\<lparr>node := n, stage := Idle\<rparr>"
  have "benign c (Store i junk)" using st junk by (simp add: benign_def)
  then have "chain_run c0 (c[i := ?l])"
    using chain_run.step [OF run chain_step.store [OF i st n(1)]] by simp
  moreover have "chain_inv H V b z (c[i := ?l])" by (rule step_store [OF c i st n(1) junk])
  moreover have "settled (w + 1) w ?l" using n w q by (simp add: settled_def)
  ultimately show ?thesis using that store_state [OF n(1)] by simp
qed

text \<open>What the write finds at link \<open>j\<close> when it has reached link \<open>i\<close>.\<close>

definition reached :: "pendingQueueEntry \<Rightarrow> int \<Rightarrow> nat \<Rightarrow> chain \<Rightarrow> bool" where
  "reached e w i c \<longleftrightarrow> states c = chain_states (length c) \<and>
     (\<forall>j < length c. if j < i then settled (w + 1) w (c ! j) \<and> logged e False (c ! j)
        else storable e (c ! j) \<and> (if j = i then waiting e w (c ! j) else ready e w (c ! j)))"

lemma run_take_send:
  assumes run: "chain_run c0 c" and c: "chain_inv H V b z c" and i: "i < length c"
    and r: "reached e w i c" and e: "known H b z e" "seqNum e = w + 1"
  obtains c' where "chain_run c0 c'" "chain_inv H V b z c'" "length c' = length c" "states c' = states c"
    "c' ! i = (c ! i)\<lparr>node := (node (c ! i))\<lparr>pendingQueue := empty_pending_queue\<rparr>, stage := Storing e\<rparr>"
    "i + 1 < length c \<longrightarrow> waiting e w (c' ! (i + 1)) \<and> storable e (c' ! (i + 1))"
    "\<forall>j. j \<noteq> i \<and> j \<noteq> i + 1 \<longrightarrow> c' ! j = c ! j"
proof -
  have st: "states c = chain_states (length c)" and wt: "waiting e w (c ! i)"
    and nx: "i + 1 < length c \<Longrightarrow> ready e w (c ! (i + 1)) \<and> storable e (c ! (i + 1))"
    using r i by (auto simp: reached_def)
  have wt': "stage (c ! i) = Idle" "pendingQueue (node (c ! i)) = one_entry e" "seqNum e = writeSeq (node (c ! i)) + 1"
    using wt e(2) by (simp_all add: waiting_def)
  note tk = take_one [OF wt'(2,3)]
  define l where "l = (c ! i)\<lparr>node := (node (c ! i))\<lparr>pendingQueue := empty_pending_queue\<rparr>, stage := Sending e\<rparr>"
  define c1 where "c1 = c[i := l]"
  have run1: "chain_run c0 c1"
    using chain_run.step [OF run chain_step.take [OF i wt'(1) tk]] by (simp add: c1_def l_def)
  have inv1: "chain_inv H V b z c1"
    unfolding c1_def l_def by (rule step_take [OF c i wt'(1) tk])
  have c1: "i < length c1" "stage (c1 ! i) = Sending e" "node_state (node l) = node_state (node (c ! i))"
    using i by (simp_all add: c1_def l_def)
  have sl: "l\<lparr>stage := Storing e\<rparr> =
      (c ! i)\<lparr>node := (node (c ! i))\<lparr>pendingQueue := empty_pending_queue\<rparr>, stage := Storing e\<rparr>"
    by (simp add: l_def)
  show ?thesis
  proof (cases "i + 1 = length c")
    case True
    then have "relay_write_send e (node (c1 ! i)) = []"
      using states_nth(1) [OF st i] c1(3) i by (auto simp: relay_write_send_def c1_def)
    from chain_run.step [OF run1 chain_step.send_none [OF c1(1,2) this]]
    have "chain_run c0 (c[i := l\<lparr>stage := Storing e\<rparr>])" using i by (simp add: c1_def)
    moreover have "chain_inv H V b z (c[i := l\<lparr>stage := Storing e\<rparr>])"
      using step_sent [OF inv1 c1(1,2)] i by (simp add: c1_def)
    moreover have "states (c[i := l\<lparr>stage := Storing e\<rparr>]) = states c" using c1(3) by (simp add: states_update)
    ultimately show ?thesis using that [of "c[i := l\<lparr>stage := Storing e\<rparr>]"] sl i True by simp
  next
    case False
    then have i1: "i + 1 < length c" using i by simp
    then have rd: "settled w w (c ! (i + 1))" "fst (addToLog (reqId e) (replayLog (node (c ! (i + 1))))) = 0"
        "storable e (c ! (i + 1))" "log_wf (replayLog (node (c ! (i + 1))))"
      using nx by (simp_all add: ready_def)
    define n where "n = (node (c ! (i + 1)))\<lparr>replayLog := snd (addToLog (reqId e) (replayLog (node (c ! (i + 1))))),
        pendingQueue := one_entry e\<rparr>"
    have "pendingQueue (node (c ! (i + 1))) = empty_pending_queue" using rd(1) by (simp add: settled_def)
    from RelayWrite_accepted [OF chain_invD(2) [OF c] e(1) rd(2) this]
    have rw: "RelayWrite (relay_request e) (node (c1 ! (i + 1))) = (Inr (), n)" by (simp add: c1_def n_def)
    have snd: "relay_write_send e (node (c1 ! i)) = [RelayWrite_call (relay_request e)]"
      using states_nth(1) [OF st i] c1(3) i False by (auto simp: relay_write_send_def c1_def)
    have i1': "i + 1 < length c1" using i1 by (simp add: c1_def)
    define c2 where "c2 = c1[i := (c1 ! i)\<lparr>stage := Storing e\<rparr>, i + 1 := (c1 ! (i + 1))\<lparr>node := n\<rparr>]"
    note step = chain_step.send [OF i1' c1(2) snd rw, folded c2_def]
    have "chain_run c0 c2" by (rule chain_run.step [OF run1 step]) simp
    moreover have "chain_inv H V b z c2"
      using step_sent [OF step_receive [OF inv1 i1' c1(2) rw], of i e] c1 unfolding c2_def
      by (simp add: list_update_swap)
    moreover have "states c2 = states c"
      using c1(3) i i1 by (simp add: c2_def c1_def states_def map_update n_def list_eq_iff_nth_eq nth_list_update)
    moreover have "waiting e w (c2 ! (i + 1))" "storable e (c2 ! (i + 1))"
      using rd i1 rl.add_accepted [OF rd(4,2)] rl.wf_add [OF rd(4), of "reqId e"] by (simp_all add: c2_def c1_def n_def waiting_def settled_def storable_def logged_def)
    moreover have "c2 ! i = l\<lparr>stage := Storing e\<rparr>" using i by (simp add: c2_def c1_def)
    moreover have "\<forall>j. j \<noteq> i \<and> j \<noteq> i + 1 \<longrightarrow> c2 ! j = c ! j" by (simp add: c2_def c1_def)
    moreover have "length c2 = length c" by (simp add: c2_def c1_def)
    ultimately show ?thesis using that [of c2] sl by simp
  qed
qed

lemma run_down:
  assumes "chain_run c0 c" and "chain_inv H V b z c" and "reached e w i c" and "i \<le> length c"
    and e: "known H b z e" "seqNum e = w + 1"
  shows "\<exists>c'. chain_run c0 c' \<and> chain_inv H V b z c' \<and> length c' = length c \<and> reached e w (length c) c'"
  using assms(1-4)
proof (induction "length c - i" arbitrary: c i)
  case 0
  then show ?case by auto
next
  case (Suc k)
  then have i: "i < length c" by simp
  obtain c1 where c1: "chain_run c0 c1" "chain_inv H V b z c1" "length c1 = length c" "states c1 = states c"
    "c1 ! i = (c ! i)\<lparr>node := (node (c ! i))\<lparr>pendingQueue := empty_pending_queue\<rparr>, stage := Storing e\<rparr>"
    "i + 1 < length c \<longrightarrow> waiting e w (c1 ! (i + 1)) \<and> storable e (c1 ! (i + 1))"
    "\<forall>j. j \<noteq> i \<and> j \<noteq> i + 1 \<longrightarrow> c1 ! j = c ! j"
    by (rule run_take_send [OF Suc.prems(1,2) i Suc.prems(3) e])
  have r: "waiting e w (c ! i)" "storable e (c ! i)" using Suc.prems(3) i by (auto simp: reached_def)
  have i1: "i < length c1" using i c1(3) by simp
  have s: "stage (c1 ! i) = Storing e" "writeSeq (node (c1 ! i)) = w" "commitSeq (node (c1 ! i)) = w"
    "pendingQueue (node (c1 ! i)) = empty_pending_queue" "ack_calls (c1 ! i) = []" "storable e (c1 ! i)"
    using r by (simp_all add: c1(5) waiting_def storable_def)
  obtain l where l: "chain_run c0 (c1[i := l])" "chain_inv H V b z (c1[i := l])" "settled (w + 1) w l"
    "node_state (node l) = node_state (node (c1 ! i))" "replayLog (node l) = replayLog (node (c1 ! i))"
    by (rule run_store [OF c1(1,2) i1 s])
  have lg: "logged e False l" using l(5) r(1) by (simp add: c1(5) waiting_def logged_def)
  have "reached e w (i + 1) (c1[i := l])"
    unfolding reached_def
  proof (intro conjI allI impI)
    show "states (c1[i := l]) = chain_states (length (c1[i := l]))"
      using states_update [OF l(4)] c1(3,4) Suc.prems(3) by (simp add: reached_def)
    show "if j < i + 1 then settled (w + 1) w (c1[i := l] ! j) \<and> logged e False (c1[i := l] ! j)
        else storable e (c1[i := l] ! j) \<and> (if j = i + 1 then waiting e w (c1[i := l] ! j) else ready e w (c1[i := l] ! j))"
      if "j < length (c1[i := l])" for j
      using that Suc.prems(3) c1(3,6,7) l(3) lg i1 unfolding reached_def
      by (cases "j = i"; cases "j = i + 1") auto
  qed
  then show ?case
    using Suc.hyps(1) [of "c1[i := l]" "i + 1"] Suc.hyps(2) l(1,2) c1(3) i by simp
qed

section \<open>Up the chain\<close>

text \<open>The links from \<open>i\<close> on have committed, and link \<open>i\<close> has the acknowledgement \<open>a\<close> to pass on.\<close>

definition acked :: "relay_write_ack_request \<Rightarrow> pendingQueueEntry \<Rightarrow> int \<Rightarrow> nat \<Rightarrow> chain \<Rightarrow> bool" where
  "acked a e w i c \<longleftrightarrow> states c = chain_states (length c) \<and>
     (\<forall>j < length c. stage (c ! j) = Idle \<and> pendingQueue (node (c ! j)) = empty_pending_queue \<and>
        writeSeq (node (c ! j)) = w + 1 \<and> commitSeq (node (c ! j)) = (if j < i then w else w + 1) \<and>
        ack_calls (c ! j) = (if j = i \<and> 0 < i then [a] else []) \<and> logged e (i \<le> j) (c ! j))"

lemma reached_acked: "reached e w (length c) c \<Longrightarrow> acked a e w (length c) c"
  by (simp add: reached_def acked_def settled_def)

lemma acked_step:
  assumes a: "acked a e w (Suc i) c" and i: "i < length c"
    and l: "stage l = Idle" "pendingQueue (node l) = empty_pending_queue" "writeSeq (node l) = w + 1"
      "commitSeq (node l) = w + 1" "ack_calls l = (if 0 < i then [a] else [])"
      "node_state (node l) = node_state (node (c ! i))" "logged e True l"
    and c': "c' = (if i + 1 < length c then c[i := l, i + 1 := (c ! (i + 1))\<lparr>ack_calls := []\<rparr>] else c[i := l])"
  shows "acked a e w i c'"
  unfolding acked_def
proof (intro conjI allI impI)
  have "states c' = states c"
    using states_update [OF l(6)] by (auto simp: c' states_update)
  then show "states c' = chain_states (length c')" using a by (simp add: acked_def c')
  fix j assume "j < length c'"
  then have j: "j < length c" by (simp add: c' split: if_splits)
  then have "stage (c ! j) = Idle \<and> pendingQueue (node (c ! j)) = empty_pending_queue \<and>
        writeSeq (node (c ! j)) = w + 1 \<and> commitSeq (node (c ! j)) = (if j < Suc i then w else w + 1) \<and>
        ack_calls (c ! j) = (if j = Suc i then [a] else []) \<and> logged e (Suc i \<le> j) (c ! j)"
    using a by (simp add: acked_def)
  then show "stage (c' ! j) = Idle" "pendingQueue (node (c' ! j)) = empty_pending_queue"
    "writeSeq (node (c' ! j)) = w + 1" "commitSeq (node (c' ! j)) = (if j < i then w else w + 1)"
    "ack_calls (c' ! j) = (if j = i \<and> 0 < i then [a] else [])" "logged e (i \<le> j) (c' ! j)"
    using l(1-5,7) i j by (auto simp: c' nth_list_update logged_def)
qed

lemma commit_logged:
  assumes "logged e False l" and "committed_next H V b z (node l) n"
  shows "H (commitSeq (node l) + 1) = e \<Longrightarrow> logged e True (l\<lparr>node := n, ack_calls := acks\<rparr>)"
  using assms commitLogEntry_wf [of "replayLog (node l)" "reqId e"]
  by (simp add: logged_def committed_next_def commitLogEntry_result spec_commit_def)

lemma run_up:
  assumes "chain_run c0 c" and "chain_inv H V b z c" and "acked a e w i c" and "i \<le> length c"
    and a: "a = \<lparr>ra_seqnum = w + 1, ra_id = reqId (H (w + 1))\<rparr>" and e: "H (w + 1) = e"
  shows "\<exists>c'. chain_run c0 c' \<and> chain_inv H V b z c' \<and> length c' = length c \<and> acked a e w 0 c'"
  using assms(1-4)
proof (induction i arbitrary: c)
  case 0
  then show ?case by blast
next
  case (Suc i)
  let ?n = "node (c ! i)"
  have i: "i < length c" using Suc.prems(4) by simp
  note ni = link_invD(1) [OF chain_invD(4) [OF Suc.prems(2) i]] and h = chain_invD(2) [OF Suc.prems(2)]
  have s: "stage (c ! i) = Idle" "pendingQueue ?n = empty_pending_queue" "writeSeq ?n = w + 1" "commitSeq ?n = w"
      "ack_calls (c ! i) = []" "states c = chain_states (length c)"
    using Suc.prems(3) i by (simp_all add: acked_def)
  have "logged e (Suc i \<le> i) (c ! i)" using Suc.prems(3) i unfolding acked_def by blast
  then have s7: "logged e False (c ! i)" by simp
  have lt: "commitSeq ?n < writeSeq ?n" using s(3,4) by simp
  show ?case
  proof (cases "i + 1 = length c")
    case True
    then have "node_state ?n = TAIL \<or> node_state ?n = SINGLE" using states_nth(1) [OF s(6) i] by simp
    then obtain n where r: "relay_write_ack_iteration ?n = Some (Inr (), n, if node_state ?n = TAIL then [RelayWriteAck_call a] else [])"
      by (rule ack_iteration_returns [OF ni h lt]) (simp add: s(4) a)
    have cn: "committed_next H V b z ?n n" by (rule ack_iteration_known(1) [OF ni h r])
    define l where "l = (c ! i)\<lparr>node := n, ack_calls := ack_calls (c ! i) @
        write_acks (if node_state ?n = TAIL then [RelayWriteAck_call a] else [])\<rparr>"
    have lg: "logged e True l" using commit_logged [OF s7 cn] s(4) e by (simp add: l_def)
    have acks: "ack_calls l = (if 0 < i then [a] else [])"
      using states_nth [OF s(6) i] True s(5) \<open>node_state ?n = TAIL \<or> node_state ?n = SINGLE\<close>
      by (auto simp: l_def write_acks_def)
    have "acked a e w i (c[i := l])"
      by (rule acked_step [OF Suc.prems(3) i, of l]) (use acks s cn True lg in \<open>simp_all add: l_def committed_next_def logged_def\<close>)
    moreover have "chain_run c0 (c[i := l])"
      using chain_run.step [OF Suc.prems(1) chain_step.commit [OF i r]] by (simp add: l_def)
    moreover have "chain_inv H V b z (c[i := l])"
      unfolding l_def by (rule step_commit_thread [OF Suc.prems(2) s(6) i r])
    ultimately show ?thesis using Suc.IH [of "c[i := l]"] i by simp
  next
    case False
    then have i1: "i + 1 < length c" using i by simp
    then have ac: "ack_calls (c ! (i + 1)) = [a]" using Suc.prems(3) by (simp add: acked_def)
    then have mem: "a \<in> set (ack_calls (c ! (i + 1)))" by simp
    have "ra_seqnum a = commitSeq ?n + 1" using a s(4) by simp
    then obtain n where r: "RelayWriteAck a ?n = Some (Inr (), n,
        if node_state ?n \<noteq> HEAD \<and> node_state ?n \<noteq> SINGLE then [RelayWriteAck_call a] else [])"
      using RelayWriteAck_returns [OF ni h lt] by blast
    have cn: "committed_next H V b z ?n n" using RelayWriteAck_known(2) [OF ni h r] lt by simp
    define l where "l = (c ! i)\<lparr>node := n, ack_calls := ack_calls (c ! i) @
        write_acks (if node_state ?n \<noteq> HEAD \<and> node_state ?n \<noteq> SINGLE then [RelayWriteAck_call a] else [])\<rparr>"
    have lg: "logged e True l" using commit_logged [OF s7 cn] s(4) e by (simp add: l_def)
    have acks: "ack_calls l = (if 0 < i then [a] else [])"
      using states_nth(2) [OF s(6) i] s(5) by (auto simp: l_def write_acks_def)
    define c' where "c' = c[i := l, i + 1 := (c ! (i + 1))\<lparr>ack_calls := []\<rparr>]"
    have "acked a e w i c'"
      by (rule acked_step [OF Suc.prems(3) i, of l]) (use acks s cn i1 lg in \<open>simp_all add: c'_def l_def committed_next_def logged_def\<close>)
    moreover have "chain_run c0 c'"
      using chain_run.step [OF Suc.prems(1) chain_step.ack_write [OF i1 mem r]] ac by (simp add: l_def c'_def)
    moreover have "chain_inv H V b z (c[i := l])"
      unfolding l_def by (rule step_ack_write [OF Suc.prems(2) i1 mem r])
    from step_calls_done(1) [OF this, of "i + 1" "[]"] i1 have "chain_inv H V b z c'" by (simp add: c'_def)
    ultimately show ?thesis using Suc.IH [of c'] i by (simp add: c'_def)
  qed
qed

section \<open>A write gets through\<close>

lemma write_gets_through:
  assumes c: "chain_inv H V b z c" and st: "states c = chain_states (length c)"
    and cur: "currentSeq (node (c ! 0)) = w + 1" and ok: "benign c (Client_write request)"
    and quiet: "\<forall>l \<in> set c. settled w w l \<and> fst (addToLog (wr_id request) (replayLog (node l))) = 0 \<and>
      (\<exists>junk. store_ok junk (to_int64 (wr_offset request)) (vol (node l)))"
  shows "\<exists>c'. chain_run c c' \<and> length c' = length c \<and> (\<forall>i < length c. settled (w + 1) (w + 1) (c' ! i) \<and>
    version_at (vol (node (c' ! i))) (w + 1) = mark_write (w + 1) (to_int64 (wr_offset request))
      (stored_block (take BLOCK_SIZE (wr_data request))) (version_at (vol (node (c ! i))) w) \<and>
    fst (WriteAck (wr_id request) (node (c' ! i))))"
proof -
  have z: "z = w" using cur c by (simp add: chain_inv_def)
  have ne: "c \<noteq> []" "0 < length c" using chain_invD(1) [OF c] by simp_all
  define e where "e = head_entry request (z + 1)"
  define H1 where "H1 = H(z + 1 := e)"
  define V1 where "V1 = V(z + 1 := next_version_of e (V z))"
  have q0: "settled w w (c ! 0)" "fst (addToLog (wr_id request) (replayLog (node (c ! 0)))) = 0"
    using quiet ne by simp_all
  have wfs: "log_wf (replayLog (node (c ! i)))" if "i < length c" for i
    using node_invD(8) [OF link_invD(1) [OF chain_invD(4) [OF c that]]] by (simp add: log_committed_def)
  note wf = wfs [OF ne(2)]
  obtain q where w: "Write request (node (c ! 0)) = (Inr (z + 1), (node (c ! 0))
      \<lparr>replayLog := snd (addToLog (wr_id request) (replayLog (node (c ! 0)))), currentSeq := z + 2, pendingQueue := q\<rparr>)"
    and q: "pushEntry e (pendingQueue (node (c ! 0))) = Inr q"
    and c1: "chain_inv H1 V1 b (z + 1) (c[0 := (c ! 0)\<lparr>node := (node (c ! 0))
      \<lparr>replayLog := snd (addToLog (wr_id request) (replayLog (node (c ! 0)))), currentSeq := z + 2, pendingQueue := q\<rparr>\<rparr>])"
    and kn: "known H1 b (z + 1) e"
    unfolding H1_def V1_def by (rule client_write_accepted [OF c ok q0(2) e_def])
  have q1: "q = one_entry e" using q push_one q0(1) by (simp add: settled_def)
  define l where "l = (c ! 0)\<lparr>node := (node (c ! 0))
      \<lparr>replayLog := snd (addToLog (wr_id request) (replayLog (node (c ! 0)))), currentSeq := z + 2, pendingQueue := q\<rparr>\<rparr>"
  have run1: "chain_run c (c[0 := l])"
    using chain_run.step [OF chain_run.start chain_step.client_write [OF ne(1) w] ok] by (simp add: l_def)
  have e: "seqNum e = w + 1" "reqId e = wr_id request" "volumeOffset e = to_int64 (wr_offset request)"
      "data e = take BLOCK_SIZE (wr_data request)" by (simp_all add: e_def head_entry_def z)
  have reach: "reached e w 0 (c[0 := l])"
    unfolding reached_def
  proof (intro conjI allI impI)
    show "states (c[0 := l]) = chain_states (length (c[0 := l]))"
      using states_update [of l c 0] st by (simp add: l_def)
    show "if j < 0 then settled (w + 1) w (c[0 := l] ! j) \<and> logged e False (c[0 := l] ! j)
        else storable e (c[0 := l] ! j) \<and> (if j = 0 then waiting e w (c[0 := l] ! j) else ready e w (c[0 := l] ! j))"
      if "j < length (c[0 := l])" for j
    proof (cases "j = 0")
      case True
      have "logged e False l" using rl.add_accepted [OF wf q0(2)] rl.wf_add [OF wf, of "wr_id request"]
        by (simp add: l_def logged_def e)
      with True show ?thesis using quiet ne q0(1) q1
        by (auto simp: l_def waiting_def settled_def storable_def e)
    next
      case False
      then have j: "c ! j \<in> set c" "j < length c" using that by simp_all
      then show ?thesis using quiet False wfs [OF j(2)] by (simp add: ready_def storable_def e)
    qed
  qed
  obtain c2 where c2: "chain_run c c2" "chain_inv H1 V1 b (z + 1) c2" "length c2 = length c" "reached e w (length c) c2"
    using run_down [OF run1 c1 [folded l_def] reach _ kn e(1)] by auto
  have He: "H1 (w + 1) = e" by (simp add: H1_def z)
  have "reached e w (length c2) c2" using c2(3,4) by simp
  then have "acked \<lparr>ra_seqnum = w + 1, ra_id = reqId (H1 (w + 1))\<rparr> e w (length c2) c2" by (rule reached_acked)
  from run_up [OF c2(1,2) this _ refl He] obtain c3 where c3: "chain_run c c3" "chain_inv H1 V1 b (z + 1) c3"
      "length c3 = length c" "acked \<lparr>ra_seqnum = w + 1, ra_id = reqId (H1 (w + 1))\<rparr> e w 0 c3"
    using c2(3) by auto
  have "settled (w + 1) (w + 1) (c3 ! i) \<and> version_at (vol (node (c3 ! i))) (w + 1) =
      next_version_of e (version_at (vol (node (c ! i))) w) \<and> fst (WriteAck (wr_id request) (node (c3 ! i)))"
    if i: "i < length c" for i
  proof (intro conjI)
    show s: "settled (w + 1) (w + 1) (c3 ! i)" using c3(3,4) i by (simp add: acked_def settled_def)
    have i3: "i < length c3" using i c3(3) by simp
    note n3 = node_invD(2,3) [OF link_invD(1) [OF chain_invD(4) [OF c3(2) i3]]]
      and n = node_invD(2,3) [OF link_invD(1) [OF chain_invD(4) [OF c i]]]
    have "version_at (vol (node (c3 ! i))) (w + 1) = V1 (w + 1)" using n3 s by (simp add: st.holds_def settled_def)
    moreover have "settled w w (c ! i)" using quiet i by simp
    then have "version_at (vol (node (c ! i))) w = V w" using n by (simp add: st.holds_def settled_def)
    ultimately show "version_at (vol (node (c3 ! i))) (w + 1) = next_version_of e (version_at (vol (node (c ! i))) w)"
      by (simp add: z V1_def)
    have "logged e True (c3 ! i)" using c3(3,4) i by (simp add: acked_def)
    then show "fst (WriteAck (wr_id request) (node (c3 ! i)))"
      by (simp add: logged_def WriteAck_def Let_def case_prod_unfold ackLogEntry_result spec_ack_def e(2))
  qed
  then show ?thesis using c3(1,3) by (auto simp: next_version_of_def e)
qed

section \<open>One write to a chain of two new servers\<close>

definition demo_request :: write_request where
  "demo_request = \<lparr>wr_data = replicate 4095 7, wr_offset = 8192,
     wr_id = \<lparr>ip = ''10.0.0.9'', pid = 42, timestamp = Timestamp 5 0\<rparr>\<rparr>"

lemma demo_quiet:
  assumes "l \<in> set new_chain"
  shows "settled 0 0 l \<and> fst (addToLog (wr_id demo_request) (replayLog (node l))) = 0 \<and>
    (\<exists>junk. store_ok junk (to_int64 (wr_offset demo_request)) (vol (node l)))"
proof -
  have "store_ok (\<lambda>_. 100) 8192 new_volume"
    by (simp add: store_ok_def access_ok_def VOLUME_SIZE_def new_volume_total stray_ok_def)
  then show ?thesis using assms
    by (auto simp: new_chain_def new_link_def head_server_def server_start_defs settled_def addToLog_def demo_request_def)
qed

lemma demo_benign: "benign new_chain (Client_write demo_request)"
  by (simp add: benign_def demo_request_def new_chain_def new_link_def head_server_def server_start_defs
      access_ok_def VOLUME_SIZE_def)

lemma new_chain_place: "states new_chain = chain_states (length new_chain)"
  using new_chain_started by (simp add: started_chain_def)

lemma new_chain_current: "currentSeq (node (new_chain ! 0)) = 0 + 1"
  by (simp add: new_chain_def new_link_def head_server_def server_start_defs)

lemma demo_run:
  obtains c where "chain_run new_chain c" "length c = 2" "\<And>i. i < 2 \<Longrightarrow> settled 1 1 (c ! i)"
    "\<And>i. i < 2 \<Longrightarrow> version_at (vol (node (c ! i))) 1 = mark_write 1 8192 (replicate 4095 7 @ [0]) blank"
    "\<And>i. i < 2 \<Longrightarrow> fst (WriteAck (wr_id demo_request) (node (c ! i)))"
proof -
  have v: "version_at (vol (node (new_chain ! i))) 0 = blank" if "i < 2" for i
    using that new_volume_blank
    by (auto simp: new_chain_def new_link_def head_server_def server_start_defs less_2_cases_iff)
  have b: "stored_block (take BLOCK_SIZE (wr_data demo_request)) = replicate 4095 7 @ [0]"
    "to_int64 (wr_offset demo_request) = 8192"
    by (simp_all add: stored_block_def demo_request_def)
  obtain c where "chain_run new_chain c" "length c = length new_chain" "\<forall>i < length new_chain. settled (0 + 1) (0 + 1) (c ! i) \<and>
    version_at (vol (node (c ! i))) (0 + 1) = mark_write (0 + 1) (to_int64 (wr_offset demo_request))
      (stored_block (take BLOCK_SIZE (wr_data demo_request))) (version_at (vol (node (new_chain ! i))) 0) \<and>
    fst (WriteAck (wr_id demo_request) (node (c ! i)))"
    using write_gets_through [OF started_chain_inv [OF new_chain_started] new_chain_place new_chain_current demo_benign] demo_quiet by blast
  moreover have "length new_chain = 2" by (simp add: new_chain_def)
  ultimately show ?thesis using that v b by simp
qed

end
