(* ===== verification/Storage_Resend.thy ===== *)
theory Storage_Resend
  imports Storage_Refine
begin

text \<open>
  Reading the data of an uncommitted write back (\<^verbatim>\<open>read_sequence_number\<close>), which a server does when it
  has to send the write again: the bytes are those of the version the write made.
\<close>

section \<open>Reading through the tree of one version\<close>

lemma read_through_at:
  assumes wf: "wf_tree (disk s) (file_blocks s) r" and nz: "addr (disk s) r (data_path v) \<noteq> 0"
  shows "read_through s r v = Some (block_at (disk s) r v)"
proof -
  note rb = read_block_live [OF wf]
  have nz': "r \<noteq> 0" "addr (disk s) r [idx2 v] \<noteq> 0" "addr (disk s) r [idx2 v, idx3 v] \<noteq> 0"
    using nz by (auto simp: data_path_def split: if_splits)
  have "read_block_fresh s r = Some (disk s r)" using rb(2) [of "[]"] nz' by simp
  then show ?thesis
    using rb(1) [of "[idx2 v]" "disk s r"] rb(1) [of "[idx2 v, idx3 v]" "disk s (addr (disk s) r [idx2 v])"]
      rb(2) [of "data_path v"] nz nz'
    by (auto simp: read_through_def block_at_def data_path_def
        indirect_block_def entry_file_block_num_def idx2_def [symmetric] idx3_def [symmetric] idx4_def [symmetric])
qed

section \<open>The blocks of a write\<close>

text \<open>The version of every uncommitted write \<open>n\<close>, made at offset \<open>H n\<close>, has its own blocks there.\<close>

definition own_blocks :: "(int \<Rightarrow> int) \<Rightarrow> int \<Rightarrow> storage \<Rightarrow> bool" where
  "own_blocks H w s \<longleftrightarrow> (\<forall>n. last_committed s < n \<and> n \<le> w \<longrightarrow>
     (\<forall>u \<in> blocks_of (H n). addr (disk s) (root_of s n) (data_path u) \<noteq> 0))"

lemma own_blocks_new: "own_blocks H 0 new_volume"
  by (auto simp: own_blocks_def new_volume_committed)

lemma own_blocks_write:
  assumes inv: "storage_inv w s" and own: "own_blocks H w s"
    and wr: "written s (root_of s w) v0 v1 b (w + 1) f uw r' s'"
    and v: "in_volume v0" "aligned v0" "in_volume v1" "aligned v1"
      "v0 = off - off mod 4096" "v1 = (if off mod 4096 = 0 then v0 else v0 + 4096)"
  shows "own_blocks (H(w + 1 := off)) (w + 1) s'"
  unfolding own_blocks_def
proof (intro allI impI ballI)
  fix n u assume n: "last_committed s' < n \<and> n \<le> w + 1" and u: "u \<in> blocks_of ((H(w + 1 := off)) n)"
  have lc: "last_committed s' = last_committed s" by (rule written_roots(4) [OF wr])
  show "addr (disk s') (root_of s' n) (data_path u) \<noteq> 0"
  proof (cases "n = w + 1")
    case True
    have "fst f \<noteq> 0" "snd f \<noteq> 0" and nv: "next_version s (root_of s w) v0 v1 f (w + 1) uw r' s'"
      using wr by (simp_all add: written_def)
    moreover have "u = v0 \<or> u = v1" using u True v(5,6) by (auto simp: blocks_of_def split: if_splits)
    ultimately show ?thesis using v(1-4) written_roots(1) [OF wr] True by (auto simp: next_version_def split: if_splits)
  next
    case False
    then have "last_committed s \<le> n" "n \<le> w" "last_committed s < n" using n lc by simp_all
    then show ?thesis using written_live(3) [OF inv wr, of n "data_path u"] own u False by (auto simp: own_blocks_def)
  qed
qed

lemma own_blocks_commit:
  assumes inv: "storage_inv w s" and own: "own_blocks H w s" and n: "n = last_committed s + 1" "n \<le> w"
    and rng: "int64_range n" and total: "num_total_blocks s < 2 ^ 31" and uw: "uncommitted_writes s n = Some uw"
    and s': "s' = (synced_state (tables_state n v s))\<lparr>free_blocks := free_blocks s @ to_free uw\<rparr>"
  shows "own_blocks H w s'"
proof -
  have lcn: "last_committed s \<le> n" using n by simp
  note c = committed_state [OF inv n rng root_range [OF inv lcn n(2) total] uw s']
  show ?thesis
    unfolding own_blocks_def
  proof (intro allI impI ballI)
    fix m u assume m: "last_committed s' < m \<and> m \<le> w" and u: "u \<in> blocks_of (H m)"
    then have "n \<le> m" "m \<le> w" "last_committed s < m" using c(1) n(1) by simp_all
    then show "addr (disk s') (root_of s' m) (data_path u) \<noteq> 0"
      using c(4) [of m "data_path u"] own u by (auto simp: own_blocks_def)
  qed
qed

lemma read_sequence_version:
  assumes inv: "storage_inv w s" and own: "own_blocks H w s" and n: "last_committed s < n" "n \<le> w"
    and ok: "access_ok (H n)"
  shows "read_sequence_number s n (H n) = Some (Some (spec_read (H n) (volume s n)))"
proof -
  let ?off = "H n" and ?r = "root_of s n"
  have "n \<in> dom (uncommitted_writes s)" using n storage_invD(2) [OF inv] by simp
  then obtain uw where uw: "uncommitted_writes s n = Some uw" by blast
  have roots: "new_metadata_offset uw = [?r, ?r]" by (rule storage_inv_uw(1) [OF inv uw])
  have wf: "wf_tree (disk s) (file_blocks s) ?r" by (rule storage_invD(3) [OF inv]) (use n in simp_all)
  have nz: "addr (disk s) ?r (data_path u) \<noteq> 0" if "u \<in> blocks_of ?off" for u
    using own n that by (simp add: own_blocks_def)
  have off: "0 \<le> ?off" using ok by (simp add: access_ok_def)
  have sm: "?off smod 4096 = ?off mod 4096" "\<not> ?off mod 4096 < 0" using off by (simp_all add: smod_nonneg)
  have j: "joined (disk s) ?r ?off = spec_read ?off (volume s n)"
    by (rule joined_volume [OF ok]) (use storage_invD(6) [OF inv] in blast)
  show ?thesis
  proof (cases "?off mod 4096 = 0")
    case True
    then have "read_through s ?r ?off = Some (block_at (disk s) ?r ?off)"
      by (intro read_through_at [OF wf] nz) (simp add: blocks_of_def)
    then show ?thesis using True uw roots sm j by (simp add: read_sequence_number_def Let_def join_blocks_def)
  next
    case False
    let ?v = "?off - ?off mod 4096"
    have "read_through s ?r ?v = Some (block_at (disk s) ?r ?v)"
      "read_through s ?r (?v + 4096) = Some (block_at (disk s) ?r (?v + 4096))"
      using False by (intro read_through_at [OF wf] nz; simp add: blocks_of_def)+
    moreover have "nat (?off mod 4096) \<noteq> 0" using False sm(2) by simp
    ultimately show ?thesis using False uw roots sm j by (simp add: read_sequence_number_def Let_def join_blocks_def)
  qed
qed

section \<open>Properties\<close>

text \<open>
  C14. For an uncommitted write, \<^verbatim>\<open>read_sequence_number\<close> at the offset of the write returns the bytes
  of the version the write made, even if later writes have changed them; for any other sequence
  number it reports that there is nothing to read.
\<close>

theorem read_sequence_number_refines:
  assumes "storage_inv w s" and "own_blocks H w s" and "access_ok (H n)"
  shows "read_sequence_number s n (H n) =
    Some (if last_committed s < n \<and> n \<le> w then Some (spec_read (H n) (volume s n)) else None)"
proof (cases "last_committed s < n \<and> n \<le> w")
  case True
  then show ?thesis using read_sequence_version [OF assms(1,2)] assms(3) by simp
next
  case False
  then have "n \<notin> dom (uncommitted_writes s)" using storage_invD(2) [OF assms(1)] by auto
  then have "uncommitted_writes s n = None" by blast
  with False show ?thesis by (simp add: read_sequence_number_def)
qed

text \<open>One write to a new volume has its own blocks.\<close>

lemma first_write_own:
  assumes "access_ok off" and "stray_ok junk off new_volume" and "BLOCK_SIZE \<le> length buf"
  obtains s1 where "storage_write junk buf off 1 new_volume = Some s1" "storage_inv 1 s1" "own_blocks (\<lambda>_. off) 1 s1"
    "last_committed s1 = 0" "volume s1 1 = spec_write off buf (\<lambda>x. 0)"
proof -
  note rl = tracked_reads_latest [OF new_volume_inv new_volume_tracked]
  have room: "num_total_blocks new_volume + 7 < 2 ^ 31" by (simp add: new_volume_total)
  have q: "int64_range (0 + 1)" by (simp add: int64_range_def)
  obtain s1 v0 v1 b f uw r' where w: "storage_write junk buf off (0 + 1) new_volume = Some s1"
    and wr: "written new_volume (root_of new_volume 0) v0 v1 b (0 + 1) f uw r' s1" and inv: "storage_inv (0 + 1) s1"
    and vol: "volume s1 (0 + 1) = spec_write off buf (volume new_volume 0)"
    and iv: "in_volume v0" "aligned v0" "in_volume v1" "aligned v1"
    and v: "v0 = off - off mod 4096" "v1 = (if off mod 4096 = 0 then v0 else v0 + 4096)"
    by (rule storage_write_inv [OF new_volume_inv rl room q assms(1,3,2)])
  have "own_blocks ((\<lambda>_. off)(0 + 1 := off)) (0 + 1) s1"
    by (rule own_blocks_write [OF new_volume_inv own_blocks_new wr iv v])
  moreover have "(\<lambda>_. off)(0 + 1 := off) = (\<lambda>_ :: int. off)" by (simp add: fun_eq_iff)
  ultimately have "own_blocks (\<lambda>_. off) (0 + 1) s1" by (simp only:)
  moreover have "volume new_volume 0 = (\<lambda>x. 0)" using new_volume_zero by blast
  moreover have "last_committed s1 = 0" using written_roots(4) [OF wr] new_volume_committed by simp
  ultimately show ?thesis using that w inv vol by simp
qed

theorem read_sequence_number_refines_witness:
  "\<exists>s. storage_write (\<lambda>_. 0) (replicate 4096 7) 100 1 new_volume = Some s \<and>
    read_sequence_number s 1 100 = Some (Some (spec_read 100 (spec_write 100 (replicate 4096 7) (\<lambda>x. 0))))"
proof -
  obtain s where w: "storage_write (\<lambda>_. 0) (replicate 4096 7) 100 1 new_volume = Some s"
    and s: "storage_inv 1 s" "own_blocks (\<lambda>_. 100) 1 s" "last_committed s = 0"
      "volume s 1 = spec_write 100 (replicate 4096 7) (\<lambda>x. 0)"
    by (rule first_write_own [of 100 "\<lambda>_. 0" "replicate 4096 7"])
       (simp_all add: access_ok_def VOLUME_SIZE_def stray_ok_def aligned_def)
  have "access_ok ((\<lambda>_. 100) (1 :: int))" by (simp add: access_ok_def VOLUME_SIZE_def)
  from read_sequence_number_refines [OF s(1,2) this] s(3,4) w show ?thesis by simp
qed

end
