(* ===== verification/Mode_Change.thy ===== *)
theory Mode_Change
  imports Server_Node Storage_Resend
begin

text \<open>
  What \<^verbatim>\<open>ChangeMode\<close> does to a server: the services a
  server offers follow its state; the call that lets an exception out and the resent writes
  are stated as the code has them.
\<close>

section \<open>Services and states\<close>

definition services_ok :: "server_node \<Rightarrow> bool" where
  "services_ok n \<longleftrightarrow> (headService n \<longleftrightarrow> node_state n = HEAD \<or> node_state n = SINGLE) \<and>
     (tailService n \<longleftrightarrow> node_state n = TAIL \<or> node_state n = SINGLE)"

text \<open>The changes of state the master asks for.\<close>

definition master_asks :: "node_state \<Rightarrow> node_state \<Rightarrow> bool" where
  "master_asks old new \<longleftrightarrow> old = new \<or> (old, new) \<in> {(SINGLE, HEAD), (TAIL, MIDDLE), (MIDDLE, HEAD), (MIDDLE, TAIL),
     (HEAD, SINGLE), (TAIL, SINGLE), (MIDDLE, SINGLE)}"

lemma registered_services:
  "node_state (registered prev (start_server address port s)) = (if prev = None then SINGLE else TAIL)"
  "services_ok (registered prev (start_server address port s))"
  by (simp_all add: services_ok_def registered_def start_server_def launch_tail_def launch_head_def Let_def split: option.splits)

lemma switch_fields [simp]:
  "node_state (switch_services old new n) = node_state n"
  "vol (switch_services old new n) = vol n" "replayLog (switch_services old new n) = replayLog n"
  by (simp_all add: switch_services_def launch_tail_def launch_head_def kill_tail_def Let_def split: option.splits node_state.splits)

lemma switch_services_services:
  assumes "services_ok n" and "master_asks (node_state n) st" and "st \<noteq> node_state n"
    and m: "headService m = headService n" "tailService m = tailService n" "node_state m = st"
  shows "services_ok (switch_services (node_state n) (Some st) m)"
  using assms
  by (cases "node_state n"; cases st)
     (simp_all add: services_ok_def master_asks_def switch_services_def launch_tail_def launch_head_def kill_tail_def Let_def)

lemma with_neighbours_fields [simp]:
  "headService (with_neighbours request n) = headService n" "tailService (with_neighbours request n) = tailService n"
  "node_state (with_neighbours request n) = node_state n" "sentList (with_neighbours request n) = sentList n"
  "vol (with_neighbours request n) = vol n" "changemode_locked (with_neighbours request n) = True"
  by (simp_all add: with_neighbours_def Let_def split: option.splits)

lemma ChangeMode_unfold:
  assumes "\<not> changemode_locked n" and "state_of_int (new_state request) = Some st"
  shows "ChangeMode request n =
    (case (if st \<noteq> TAIL \<and> st \<noteq> SINGLE \<and> (node_state n = TAIL \<or> node_state n = SINGLE)
           then new_tail_calls (last_seq_num request) (with_neighbours request n) else Inr []) of
       Inl x \<Rightarrow> Some (Inl x, with_neighbours request n, [])
     | Inr calls \<Rightarrow>
         (let m = (with_neighbours request n)\<lparr>node_state := st\<rparr>
          in if st \<noteq> node_state n
             then Some (Inr 0, (switch_services (node_state n) (Some st) m)\<lparr>changemode_locked := False\<rparr>, calls)
             else
               (let reply = (if prev_addr request \<noteq> None then to_uint64 (writeSeq m) else 0)
                in if next_addr request = None then Some (Inr reply, m\<lparr>changemode_locked := False\<rparr>, calls)
                   else
                     (case getSentListRange (to_int32 (last_seq_num request + 1)) (sentList m) of
                        Inl (Length_error _) \<Rightarrow> Some (Inr reply, m\<lparr>changemode_locked := False\<rparr>, calls)
                      | Inl x \<Rightarrow> Some (Inl x, m, calls)
                      | Inr resend \<Rightarrow>
                          (case resend_calls (vol m) resend of
                             Inl x \<Rightarrow> Some (Inl x, m, calls)
                           | Inr cs \<Rightarrow> Some (Inr reply, m\<lparr>changemode_locked := False\<rparr>, calls @ cs))))))"
  unfolding ChangeMode_def Let_def assms(2) if_not_P [OF assms(1)] option.case option.inject by (rule refl)

section \<open>Properties\<close>

text \<open>
  C20. A change of state the master asks for leaves the server in that state, offering the head
  service exactly as head or single server and the tail service exactly as tail or single server.
\<close>

theorem services_follow_state:
  assumes "services_ok n" and "state_of_int (new_state request) = Some st" and "master_asks (node_state n) st"
    and "ChangeMode request n = Some (Inr r, n', calls)"
  shows "services_ok n' \<and> node_state n' = st \<and> \<not> changemode_locked n'"
proof -
  have free: "\<not> changemode_locked n" using assms(4) by (auto simp: ChangeMode_def)
  let ?m = "(with_neighbours request n)\<lparr>node_state := st\<rparr>"
  note cm = assms(4) [unfolded ChangeMode_unfold [OF free assms(2)]]
  show ?thesis
  proof (cases "st = node_state n")
    case False
    then have "n' = (switch_services (node_state n) (Some st) ?m)\<lparr>changemode_locked := False\<rparr>"
      using cm by (auto simp: Let_def split: sum.splits)
    moreover have "services_ok (switch_services (node_state n) (Some st) ?m)"
      by (rule switch_services_services [OF assms(1,3) False]) simp_all
    ultimately show ?thesis by (simp add: services_ok_def)
  next
    case True
    then have "n' = ?m\<lparr>changemode_locked := False\<rparr>"
      using cm by (auto simp: Let_def split: sum.splits if_splits cpp_error.splits)
    then show ?thesis using assms(1) True by (simp add: services_ok_def)
  qed
qed

text \<open>A server that has just registered alone, and one in the middle of a chain.\<close>

definition lone_server :: server_node where
  "lone_server = registered None (start_server ''10.0.0.1'' 18001 new_volume)"

definition middle_server :: server_node where
  "middle_server = (kill_tail (registered (Some \<lparr>si_ip = ''10.0.0.1'', si_port = 18001\<rparr>)
     (start_server ''10.0.0.2'' 18001 new_volume)))\<lparr>node_state := MIDDLE,
     sentList := [(5, \<lparr>se_reqId = \<lparr>ip = ''10.0.0.9'', pid = 42, timestamp = Timestamp 5 0\<rparr>, se_volumeOffset = 0\<rparr>)]\<rparr>"

theorem services_follow_state_witness:
  "let request = \<lparr>prev_addr = None, next_addr = None, new_state = int_of_state HEAD, last_seq_num = 0\<rparr> in
   \<exists>r n' calls. ChangeMode request middle_server = Some (Inr r, n', calls) \<and>
     services_ok n' \<and> node_state n' = HEAD \<and> \<not> changemode_locked n'"
proof -
  let ?r = "\<lparr>prev_addr = None, next_addr = None, new_state = int_of_state HEAD, last_seq_num = 0\<rparr>"
  have m: "node_state middle_server = MIDDLE" "\<not> changemode_locked middle_server" "services_ok middle_server"
    by (simp_all add: middle_server_def registered_def start_server_def launch_tail_def kill_tail_def services_ok_def Let_def)
  have s: "state_of_int (new_state ?r) = Some HEAD" by simp
  obtain n' where c: "ChangeMode ?r middle_server = Some (Inr 0, n', [])"
    unfolding ChangeMode_unfold [OF m(2) s] by (simp add: m(1) Let_def)
  have "services_ok n' \<and> node_state n' = HEAD \<and> \<not> changemode_locked n'"
    by (rule services_follow_state [OF m(3) s _ c]) (simp add: m(1) master_asks_def)
  with c show ?thesis unfolding Let_def by blast
qed

text \<open>
  C38. When the server above a failed one has sent writes but not the one after the last the server
  below has received, the exception of \<^verbatim>\<open>getSentListRange\<close> leaves \<^verbatim>\<open>ChangeMode\<close> with the mutex locked: no
  later change of mode returns.
\<close>

theorem missing_resend_blocks_changes:
  assumes "\<not> changemode_locked n" and "state_of_int (new_state request) = Some (node_state n)"
    and "next_addr request \<noteq> None" and "sentList n \<noteq> []"
    and "to_int32 (last_seq_num request + 1) \<noteq> 0" and "map_of (sentList n) (to_int32 (last_seq_num request + 1)) = None"
  shows "\<exists>n' calls. ChangeMode request n = Some (Inl (Invalid_argument ''Key not found in sentList''), n', calls) \<and>
    (\<forall>request'. ChangeMode request' n' = None)"
proof -
  have g: "getSentListRange (to_int32 (last_seq_num request + 1)) (sentList n) =
      Inl (Invalid_argument ''Key not found in sentList'')"
    using assms(4-6) by (simp add: getSentListRange_def)
  have c: "\<not> (node_state n \<noteq> TAIL \<and> node_state n \<noteq> SINGLE \<and> (node_state n = TAIL \<or> node_state n = SINGLE))" by blast
  have "ChangeMode request n = Some (Inl (Invalid_argument ''Key not found in sentList''),
      (with_neighbours request n)\<lparr>node_state := node_state n\<rparr>, [])"
    unfolding ChangeMode_unfold [OF assms(1,2)] if_not_P [OF c] using assms(3) g by (simp add: Let_def)
  moreover have "ChangeMode request' ((with_neighbours request n)\<lparr>node_state := node_state n\<rparr>) = None" for request'
    by (simp add: ChangeMode_def)
  ultimately show ?thesis by blast
qed

theorem missing_resend_blocks_changes_witness:
  "let request = \<lparr>prev_addr = None, next_addr = Some \<lparr>si_ip = ''10.0.0.4'', si_port = 18001\<rparr>,
       new_state = int_of_state MIDDLE, last_seq_num = 2\<rparr> in
   \<exists>n' calls. ChangeMode request middle_server = Some (Inl (Invalid_argument ''Key not found in sentList''), n', calls) \<and>
    (\<forall>request'. ChangeMode request' n' = None)"
  unfolding Let_def
  by (rule missing_resend_blocks_changes)
     (simp_all add: middle_server_def registered_def start_server_def launch_tail_def kill_tail_def Let_def)

text \<open>
  C16. The writes resent after a failure in the middle of the chain are the entries of the sent list
  in order, each with the bytes of the version it made; but the request identifier of each carries
  the time stamp 0 instead of the client's.
\<close>

theorem resend_sends_versions:
  assumes "storage_inv w s" and "own_blocks H w s"
    and "\<forall>(seq, e) \<in> set l. last_committed s < seq \<and> seq \<le> w \<and> se_volumeOffset e = H seq \<and> access_ok (H seq)"
  shows "resend_calls s l = Inr (map (\<lambda>(seq, e). RelayWrite_call
    \<lparr>rw_data = spec_read (H seq) (volume s seq), rw_offset = to_uint64 (H seq), rw_seqnum = to_uint64 seq,
     rw_id = (se_reqId e)\<lparr>timestamp := Timestamp 0 0\<rparr>\<rparr>) l)"
  using assms(3)
proof (induction l)
  case (Cons x l)
  obtain seq e where x: "x = (seq, e)" by (cases x)
  have "read_sequence_number s seq (se_volumeOffset e) = Some (Some (spec_read (H seq) (volume s seq)))"
    using read_sequence_version [OF assms(1,2), of seq] Cons.prems x by simp
  then show ?case using Cons x by simp
qed simp

theorem resend_sends_versions_witness:
  "let e = \<lparr>se_reqId = \<lparr>ip = ''10.0.0.9'', pid = 42, timestamp = Timestamp 5 0\<rparr>, se_volumeOffset = 100\<rparr> in
   \<exists>s. storage_write (\<lambda>_. 0) (replicate 4096 7) 100 1 new_volume = Some s \<and>
    resend_calls s [(1, e)] = Inr (map (\<lambda>(seq, e). RelayWrite_call
      \<lparr>rw_data = spec_read 100 (volume s seq), rw_offset = to_uint64 100, rw_seqnum = to_uint64 seq,
       rw_id = (se_reqId e)\<lparr>timestamp := Timestamp 0 0\<rparr>\<rparr>) [(1, e)])"
proof -
  obtain s where w: "storage_write (\<lambda>_. 0) (replicate 4096 7) 100 1 new_volume = Some s"
    and s: "storage_inv 1 s" "own_blocks (\<lambda>_. 100) 1 s" "last_committed s = 0"
      "volume s 1 = spec_write 100 (replicate 4096 7) (\<lambda>x. 0)"
    by (rule first_write_own [of 100 "\<lambda>_. 0" "replicate 4096 7"])
       (simp_all add: access_ok_def VOLUME_SIZE_def stray_ok_def aligned_def)
  show ?thesis unfolding Let_def
    by (rule exI [of _ s], rule conjI [OF w], rule resend_sends_versions [OF s(1,2)])
       (simp add: s(3) access_ok_def VOLUME_SIZE_def)
qed

end
