(* ===== verification/Failures.thy ===== *)
theory Failures
  imports Chain_Progress Mode_Change
begin

text \<open>
  A chain that loses servers while writes are under way. The master tells the servers next to the
  gap with \<^verbatim>\<open>ChangeMode\<close>; the threads of the servers that are left go on from where they were. Losing servers at
  the end or in the middle keeps the invariant of the chain. Losing the head does not: the server
  promoted to head goes on with the sequence numbers it started with.
\<close>

section \<open>Changes of mode\<close>

text \<open>Everything of a server but its neighbours, state, services and the mutex.\<close>

definition same_tables :: "server_node \<Rightarrow> server_node \<Rightarrow> bool" where
  "same_tables n m \<longleftrightarrow> currentSeq m = currentSeq n \<and> writeSeq m = writeSeq n \<and> commitSeq m = commitSeq n \<and>
     pendingQueue m = pendingQueue n \<and> sentList m = sentList n \<and> replayLog m = replayLog n \<and> vol m = vol n"

lemma same_tables_trans: "same_tables n m \<Longrightarrow> same_tables m k \<Longrightarrow> same_tables n k"
  by (simp add: same_tables_def)

lemma tables_of_changes:
  "same_tables n (with_neighbours request n)" "same_tables n (switch_services old new n)"
  "same_tables n (n\<lparr>node_state := st\<rparr>)" "same_tables n (n\<lparr>changemode_locked := f\<rparr>)" "same_tables n n"
  by (auto simp: same_tables_def with_neighbours_def switch_services_def launch_tail_def launch_head_def kill_tail_def
      Let_def split: option.splits node_state.splits)

lemma ChangeMode_result:
  assumes "ChangeMode request n = Some (Inr r, n', calls)" and "state_of_int (new_state request) = Some st"
  shows "same_tables n n'" "node_state n' = st"
proof -
  have free: "\<not> changemode_locked n" using assms(1) by (auto simp: ChangeMode_def)
  let ?m = "(with_neighbours request n)\<lparr>node_state := st\<rparr>"
  have "n' = (switch_services (node_state n) (Some st) ?m)\<lparr>changemode_locked := False\<rparr> \<or> n' = ?m\<lparr>changemode_locked := False\<rparr>"
    using assms(1) unfolding ChangeMode_unfold [OF free assms(2)]
    by (auto simp: Let_def split: sum.splits if_splits cpp_error.splits)
  moreover have "same_tables n ?m" using tables_of_changes(1,3) same_tables_trans by blast
  ultimately show "same_tables n n'" "node_state n' = st"
    using tables_of_changes(2,4) same_tables_trans by (blast, auto)
qed

section \<open>Losing servers\<close>

text \<open>
  The writes resent to the server after the gap, one call after the other. Each entry has its own context, and a
  call that succeeds ends the entry's loop; a call that fails would be repeated with the used context, which gRPC forbids, so
  only resends whose first call succeeds are followed here.
\<close>

fun deliver :: "remote_call list \<Rightarrow> server_node \<Rightarrow> server_node option" where
  "deliver [] n = Some n"
| "deliver (RelayWrite_call r # calls) n =
     (case RelayWrite r n of (Inr _, n) \<Rightarrow> deliver calls n | (Inl _, _) \<Rightarrow> None)"
| "deliver (_ # calls) n = None"

text \<open>
  The servers from position \<open>k\<close> on are lost, or those strictly between \<open>i\<close> and \<open>j\<close>: the server after the
  gap answers with the number of its last write and the server before it resends from there.
\<close>

datatype failure = Tail_lost nat | Middle_lost nat nat "remote_call list"

inductive chain_failure :: "chain \<Rightarrow> failure \<Rightarrow> chain \<Rightarrow> bool" where
  tail_lost: "0 < k \<Longrightarrow> k < length c \<Longrightarrow> state_of_int (new_state request) = Some (state_at k (k - 1)) \<Longrightarrow>
    ChangeMode request (node (c ! (k - 1))) = Some (Inr r, n, []) \<Longrightarrow>
    chain_failure c (Tail_lost k) ((take k c)[k - 1 := (c ! (k - 1))\<lparr>node := n\<rparr>])"
| middle_lost: "i + 1 < j \<Longrightarrow> j < length c \<Longrightarrow>
    state_of_int (new_state down_request) = Some (node_state (node (c ! j))) \<Longrightarrow>
    prev_addr down_request \<noteq> None \<Longrightarrow> next_addr down_request = None \<Longrightarrow>
    ChangeMode down_request (node (c ! j)) = Some (Inr received, d, []) \<Longrightarrow>
    state_of_int (new_state up_request) = Some (node_state (node (c ! i))) \<Longrightarrow>
    prev_addr up_request = None \<Longrightarrow> next_addr up_request \<noteq> None \<Longrightarrow> last_seq_num up_request = received \<Longrightarrow>
    ChangeMode up_request (node (c ! i)) = Some (Inr r, u, calls) \<Longrightarrow> deliver calls d = Some d' \<Longrightarrow>
    chain_failure c (Middle_lost i j calls)
      ((take (i + 1) c @ drop j c)[i := (c ! i)\<lparr>node := u\<rparr>, i + 1 := (c ! j)\<lparr>node := d'\<rparr>])"

text \<open>
  Resent requests carry time stamp 0. A server that has seen a request of the client refuses
  them; one that has not takes them under the wrong time stamp, which is excluded here.
\<close>

definition refused :: "replay_log \<Rightarrow> remote_call \<Rightarrow> bool" where
  "refused log call = (case call of RelayWrite_call r \<Rightarrow> fst (addToLog (rw_id r) log) < 0 | _ \<Rightarrow> True)"

definition benign_failure :: "chain \<Rightarrow> failure \<Rightarrow> bool" where
  "benign_failure c f = (case f of
     Tail_lost k \<Rightarrow> True
   | Middle_lost i j calls \<Rightarrow> \<forall>call \<in> set calls. refused (replayLog (node (c ! j))) call)"

section \<open>The invariant without the lost servers\<close>

lemma relayed_below:
  assumes "below_inv u l" and "link_inv H V b z l"
  shows "relayed l \<le> relayed u"
proof (cases "stage l")
  case Idle
  then show ?thesis using assms(1) by (simp add: below_inv_def relayed_def)
next
  case (Sending e)
  then have "seqNum e = writeSeq (node l) + 1" "seqNum e \<le> relayed u"
    using assms link_invD(3) [OF assms(2), of e] by (simp_all add: below_inv_def arrived_def)
  then show ?thesis using Sending by (simp add: relayed_def)
next
  case (Storing e)
  then have "seqNum e = writeSeq (node l) + 1" "seqNum e \<le> relayed u"
    using assms link_invD(3) [OF assms(2), of e] by (simp_all add: below_inv_def arrived_def)
  then show ?thesis using Storing by (simp add: relayed_def)
qed

lemma below_inv_trans:
  assumes "below_inv u m" and "below_inv m d" and "link_inv H V b z m"
  shows "below_inv u d"
  using below_inv_upper [OF assms(2) _ relayed_below [OF assms(1,3)]] assms(1,2) by (force simp: below_inv_def)

lemma below_inv_between:
  assumes c: "chain_inv H V b z c" and "i < j" and "j < length c"
  shows "below_inv (c ! i) (c ! j)"
proof -
  have "below_inv (c ! i) (c ! (i + 1 + k))" if "i + 1 + k < length c" for k
    using that
  proof (induction k)
    case 0
    then show ?case using chain_invD(5) [OF c, of i] by simp
  next
    case (Suc k)
    then have "below_inv (c ! (i + 1 + k)) (c ! (i + 1 + k + 1))" "link_inv H V b z (c ! (i + 1 + k))"
      using chain_invD(4,5) [OF c, of "i + 1 + k"] by simp_all
    then show ?case using below_inv_trans [OF Suc.IH] Suc.prems by simp
  qed
  from this [of "j - (i + 1)"] show ?thesis using assms by simp
qed

lemma chain_inv_take:
  assumes c: "chain_inv H V b z c" and "0 < k"
  shows "chain_inv H V b z (take k c)"
  using c assms(2) by (auto simp: chain_inv_def)

lemma chain_inv_gap:
  assumes c: "chain_inv H V b z c" and ij: "i < j" "j < length c"
  shows "chain_inv H V b z (take (i + 1) c @ drop j c)"
proof -
  let ?c = "take (i + 1) c @ drop j c"
  define p where "p k = (if k \<le> i then k else j + k - (i + 1))" for k
  have n: "?c ! k = c ! p k" "p k < length c" if "k < length ?c" for k
    using that ij by (auto simp: nth_append p_def min_def)
  have "below_inv (?c ! k) (?c ! (k + 1))" if "k + 1 < length ?c" for k
  proof -
    have "p k < p (k + 1)" using ij by (auto simp: p_def)
    then show ?thesis using below_inv_between [OF c, of "p k" "p (k + 1)"] n [of k] n [of "k + 1"] that by simp
  qed
  moreover have "p 0 = 0" by (simp add: p_def)
  ultimately show ?thesis
    using chain_invD(1-4) [OF c] n ij n(1) [of 0] by (auto simp: chain_inv_def)
qed

lemma chain_inv_same:
  assumes c: "chain_inv H V b z c" and i: "i < length c" and n: "same_tables (node (c ! i)) n"
  shows "chain_inv H V b z (c[i := (c ! i)\<lparr>node := n\<rparr>])"
  by (rule chain_inv_update [OF c i];
      use chain_invD(4) [OF c i] n in \<open>auto simp: same_tables_def link_inv_def node_inv_def below_inv_def relayed_def arrived_def\<close>)

text \<open>Refused writes change nothing.\<close>

lemma deliver_refused:
  assumes "log_wf (replayLog n)" and "deliver calls n = Some n'"
    and "\<forall>call \<in> set calls. refused (replayLog n) call"
  shows "n' = n"
  using assms(2,3)
proof (induction calls)
  case (Cons call calls)
  then obtain r where r: "call = RelayWrite_call r" by (cases call) simp_all
  then have a: "fst (addToLog (rw_id r) (replayLog n)) < 0" using Cons.prems(2) by (simp add: refused_def)
  then have "snd (addToLog (rw_id r) (replayLog n)) = replayLog n" using addToLog_refused [OF assms(1)] by simp
  then have "RelayWrite r n = (Inr (), n)" using a by (simp add: RelayWrite_def case_prod_unfold Let_def)
  then show ?case using Cons r by simp
qed simp

lemma resent_refused:
  assumes "chain_inv H V b z c" and "j < length c" and "same_tables (node (c ! j)) d" and "deliver calls d = Some d'"
    and "\<forall>call \<in> set calls. refused (replayLog (node (c ! j))) call"
  shows "d' = d"
proof (rule deliver_refused [OF _ assms(4)])
  have "log_wf (replayLog (node (c ! j)))"
    using node_invD(8) [OF link_invD(1) [OF chain_invD(4) [OF assms(1,2)]]] by (simp add: log_committed_def)
  then show "log_wf (replayLog d)" using assms(3) by (simp add: same_tables_def)
  show "\<forall>call \<in> set calls. refused (replayLog d) call" using assms(3,5) by (simp add: same_tables_def)
qed

section \<open>Failures keep the invariant\<close>

lemma chain_failure_inv:
  assumes "chain_failure c f c'" and "benign_failure c f" and inv: "chain_inv H V b z c"
  shows "chain_inv H V b z c'"
  using assms(1)
proof cases
  case (tail_lost k request r n)
  have k: "k - 1 < length (take k c)" using tail_lost by simp
  then have "same_tables (node (take k c ! (k - 1))) n" using ChangeMode_result(1) tail_lost(5,6) tail_lost(3) by simp
  from chain_inv_same [OF chain_inv_take [OF inv] k this] show ?thesis using tail_lost by simp
next
  case (middle_lost i j down_request received d up_request r u calls d')
  let ?g = "take (i + 1) c @ drop j c"
  have at: "?g ! i = c ! i" "?g ! (i + 1) = c ! j" "i < length ?g" "i + 1 < length ?g"
    using middle_lost(3,4) by (simp_all add: nth_append min_def)
  have g: "chain_inv H V b z ?g" by (rule chain_inv_gap [OF inv]) (use middle_lost in simp_all)
  have u: "same_tables (node (?g ! i)) u" using ChangeMode_result(1) [OF middle_lost(13,9)] at by simp
  have dn: "same_tables (node (c ! j)) d" using ChangeMode_result(1) [OF middle_lost(8,5)] .
  have "d' = d" by (rule resent_refused [OF inv middle_lost(4) dn middle_lost(14)]) (use assms(2) in \<open>simp add: middle_lost(1) benign_failure_def\<close>)
  then have d': "same_tables (node (?g[i := (?g ! i)\<lparr>node := u\<rparr>] ! (i + 1))) d'" using dn at by simp
  show ?thesis
    using chain_inv_same [OF chain_inv_same [OF g at(3) u] _ d'] at by (simp add: middle_lost(2))
qed

lemma chain_failure_states:
  assumes "chain_failure c f c'" and "benign_failure c f" and inv: "chain_inv H V b z c" and s: "states c = chain_states (length c)"
  shows "states c' = chain_states (length c')"
proof -
  have st: "node_state (node (c ! k)) = state_at (length c) k" if "k < length c" for k
    using that arg_cong [OF s, of "\<lambda>xs. xs ! k"] by (simp add: states_def chain_states_def)
  have "node_state (node (c' ! k)) = state_at (length c') k" if "k < length c'" for k
    using assms(1)
  proof cases
    case (tail_lost m request r n)
    have "node_state n = state_at m (m - 1)" by (rule ChangeMode_result(2) [OF tail_lost(6,5)])
    then show ?thesis
      using that st [of k] tail_lost(2-4) by (cases "k = m - 1") (auto simp: state_at_def)
  next
    case (middle_lost i j down_request received d up_request r u calls d')
    have u: "node_state u = node_state (node (c ! i))" by (rule ChangeMode_result(2) [OF middle_lost(13,9)])
    have d: "node_state d = node_state (node (c ! j))" by (rule ChangeMode_result(2) [OF middle_lost(8,5)])
    have "d' = d"
      by (rule resent_refused [OF inv middle_lost(4) ChangeMode_result(1) [OF middle_lost(8,5)] middle_lost(14)])
         (use assms(2) in \<open>simp add: middle_lost(1) benign_failure_def\<close>)
    then have l: "length c' = i + 1 + (length c - j)" and ui: "c' ! i = (c ! i)\<lparr>node := u\<rparr>" "c' ! (i + 1) = (c ! j)\<lparr>node := d\<rparr>"
      using middle_lost(3,4) by (simp_all add: middle_lost(2) nth_list_update)
    have o: "c' ! k = c ! (if k < i then k else j + k - (i + 1))" if "k \<noteq> i" "k \<noteq> i + 1"
      using that middle_lost(3,4) by (auto simp: middle_lost(2) nth_list_update nth_append min_def)
    consider "k = i" | "k = i + 1" | "k < i" | "i + 1 < k" by linarith
    then show ?thesis
    proof cases
      case 1
      then show ?thesis using ui u l st [of i] middle_lost(3,4) by (auto simp: state_at_def)
    next
      case 2
      then show ?thesis using ui d l st [of j] middle_lost(3,4) by (auto simp: state_at_def)
    next
      case 3
      then show ?thesis using o l st [of k] middle_lost(3,4) by (simp add: state_at_def)
    next
      case 4
      define m where "m = j + k - (i + 1)"
      have m: "m < length c" "m \<noteq> 0" "m + 1 = length c \<longleftrightarrow> k + 1 = length c'" "length c \<noteq> 1" "length c' \<noteq> 1" "k \<noteq> 0"
        unfolding m_def using 4 that l middle_lost(3,4) by linarith+
      have "c' ! k = c ! m" using o 4 by (simp add: m_def)
      moreover have "state_at (length c) m = state_at (length c') k" unfolding state_at_def using m(2-6) by simp
      ultimately show ?thesis using st [OF m(1)] by (simp only:)
    qed
  qed
  then show ?thesis unfolding states_def chain_states_def by (intro nth_equalityI) simp_all
qed

section \<open>Losing the head\<close>

text \<open>The first \<open>k\<close> servers are lost and the next one becomes head, or the only server.\<close>

inductive head_lost :: "nat \<Rightarrow> chain \<Rightarrow> chain \<Rightarrow> bool" where
  "0 < k \<Longrightarrow> k < length c \<Longrightarrow> state_of_int (new_state request) = Some (state_at (length c - k) 0) \<Longrightarrow>
   ChangeMode request (node (c ! k)) = Some (Inr r, n, []) \<Longrightarrow>
   head_lost k c ((drop k c)[0 := (c ! k)\<lparr>node := n\<rparr>])"

text \<open>
  A server whose relay thread waits for a write that will not come: the first entry of its
  queue is older than the writes it has stored.
\<close>

definition stalled :: "chain_link \<Rightarrow> bool" where
  "stalled l \<longleftrightarrow> stage l = Idle \<and> pq_wf (pendingQueue (node l)) \<and>
     (\<exists>e \<in> set (queue (pendingQueue (node l))). seqNum e \<le> writeSeq (node l))"

lemma stalled_take:
  assumes "stalled l"
  shows "relay_write_take (node l) = None"
proof -
  obtain e where e: "e \<in> set (queue (pendingQueue (node l)))" "seqNum e \<le> writeSeq (node l)" and wf: "pq_wf (pendingQueue (node l))"
    using assms by (auto simp: stalled_def)
  obtain x xs where x: "queue (pendingQueue (node l)) = x # xs" using e(1) by (cases "queue (pendingQueue (node l))") auto
  have "seqNum x \<le> seqNum e" using wf e(1) by (auto simp: pq_wf_def x)
  then show ?thesis using e(2) by (simp add: relay_write_take_def peekEntry_def x)
qed

lemma queue_of_handlers:
  "relay_write_ack_iteration n = Some (u, n', calls) \<Longrightarrow> pendingQueue n' = pendingQueue n \<and> writeSeq n' = writeSeq n"
  "RelayWriteAck ra n = Some (u, n', calls) \<Longrightarrow> pendingQueue n' = pendingQueue n \<and> writeSeq n' = writeSeq n"
  "WriteAck q n = (f, n', calls) \<Longrightarrow> pendingQueue n' = pendingQueue n \<and> writeSeq n' = writeSeq n"
  "AckReplayLog q n = (n', calls) \<Longrightarrow> pendingQueue n' = pendingQueue n \<and> writeSeq n' = writeSeq n"
  by (auto simp: relay_write_ack_iteration_def RelayWriteAck_def WriteAck_def AckReplayLog_def Let_def case_prod_unfold
      split: if_splits sum.splits option.splits prod.splits)

lemma Write_queue:
  assumes "Write request n = (r, n')" and "pq_wf (pendingQueue n)"
  shows "pq_wf (pendingQueue n')" "set (queue (pendingQueue n)) \<subseteq> set (queue (pendingQueue n'))" "writeSeq n' = writeSeq n"
    "r = Inr q \<Longrightarrow> q \<noteq> 0 \<Longrightarrow> q = to_uint64 (currentSeq n) \<and> (\<exists>e \<in> set (queue (pendingQueue n')). seqNum e = currentSeq n)"
  using assms pq.push_wf [OF assms(2)] pq.push_entries [OF assms(2)]
  by (auto simp: Write_def Let_def case_prod_unfold split: if_splits sum.splits)

lemma stalled_update:
  assumes "stalled (c ! 0) \<and> writeSeq (node (c ! 0)) = w"
    and "i = 0 \<Longrightarrow> stage l = stage (c ! 0) \<and> pendingQueue (node l) = pendingQueue (node (c ! 0)) \<and> writeSeq (node l) = writeSeq (node (c ! 0))"
  shows "stalled (c[i := l] ! 0) \<and> writeSeq (node (c[i := l] ! 0)) = w"
  using assms by (cases "i = 0"; cases "c = []") (auto simp: stalled_def)

lemma stalled_step:
  assumes step: "chain_step c a c'" and st: "stalled (c ! 0)" and "c \<noteq> []"
  shows "stalled (c' ! 0) \<and> writeSeq (node (c' ! 0)) = writeSeq (node (c ! 0))"
proof -
  have s: "stalled (c ! 0) \<and> writeSeq (node (c ! 0)) = writeSeq (node (c ! 0))" using st by simp
  have idle: "stage (c ! 0) = Idle" using st by (simp add: stalled_def)
  show ?thesis
    using step
  proof cases
    case (client_write request r n)
    then show ?thesis using Write_queue [OF client_write(4)] st by (auto simp: stalled_def)
  next
    case (take i e n)
    then show ?thesis using stalled_take [OF st] st by (cases i) auto
  next
    case (commit i n calls)
    show ?thesis unfolding commit(2) by (rule stalled_update [OF s]) (use queue_of_handlers(1) [OF commit(4)] in simp)
  next
    case (ack_write i r n calls)
    show ?thesis unfolding ack_write(2)
      by (rule stalled_update [OF stalled_update [OF s]]) (use queue_of_handlers(2) [OF ack_write(5)] in auto)
  next
    case (ack_write_lost i r res n calls)
    show ?thesis unfolding ack_write_lost(2)
      by (rule stalled_update [OF s]) (use queue_of_handlers(2) [OF ack_write_lost(5)] in simp)
  next
    case (client_ack i r committed n calls)
    show ?thesis unfolding client_ack(2) by (rule stalled_update [OF s]) (use queue_of_handlers(3) [OF client_ack(4)] in simp)
  next
    case (ack_log i r n calls)
    show ?thesis unfolding ack_log(2)
      by (rule stalled_update [OF stalled_update [OF s]]) (use queue_of_handlers(4) [OF ack_log(5)] in auto)
  next
    case (ack_log_lost i r n calls)
    show ?thesis unfolding ack_log_lost(2)
      by (rule stalled_update [OF s]) (use queue_of_handlers(4) [OF ack_log_lost(5)] in simp)
  next
    case (send i e request n)
    show ?thesis unfolding send(2) by (rule stalled_update [OF stalled_update [OF s]]) (use send(4) idle in auto)
  next
    case (send_lost i e request r n)
    show ?thesis unfolding send_lost(2) by (rule stalled_update [OF s]) simp
  next
    case (send_none i e)
    show ?thesis unfolding send_none(2) by (rule stalled_update [OF s]) (use send_none(4) idle in auto)
  next
    case (store i e junk n)
    show ?thesis unfolding store(2) by (rule stalled_update [OF s]) (use store(4) idle in auto)
  qed
qed

lemma stalled_run:
  assumes "chain_run c0 c" and "stalled (c0 ! 0)" and "c0 \<noteq> []"
  shows "stalled (c ! 0) \<and> writeSeq (node (c ! 0)) = writeSeq (node (c0 ! 0))"
  using assms(1)
proof induction
  case (step c a c')
  have "c \<noteq> []" using chain_run_states [OF step(1)] assms(3) by (metis length_0_conv)
  then show ?case using stalled_step [OF step(2)] step(4) by simp
qed (use assms(2) in simp)

text \<open>Only the head counts the sequence numbers.\<close>

lemma numbers_of_handlers:
  "relay_write_take n = Some (e, n') \<Longrightarrow> currentSeq n' = currentSeq n"
  "RelayWrite rr n = (u, n') \<Longrightarrow> currentSeq n' = currentSeq n"
  "relay_write_store junk e n = (u, n') \<Longrightarrow> currentSeq n' = currentSeq n"
  "relay_write_ack_iteration n = Some (u, n', calls) \<Longrightarrow> currentSeq n' = currentSeq n"
  "RelayWriteAck ra n = Some (u, n', calls) \<Longrightarrow> currentSeq n' = currentSeq n"
  "WriteAck q n = (f, n', calls) \<Longrightarrow> currentSeq n' = currentSeq n"
  "AckReplayLog q n = (n', calls) \<Longrightarrow> currentSeq n' = currentSeq n"
  by (auto simp: relay_write_take_def RelayWrite_def relay_write_store_def relay_write_ack_iteration_def
      RelayWriteAck_def WriteAck_def AckReplayLog_def Let_def case_prod_unfold
      split: if_splits sum.splits option.splits prod.splits)

lemma chain_step_number:
  assumes "chain_step c a c'" and "0 < k"
  shows "currentSeq (node (c' ! k)) = currentSeq (node (c ! k))"
proof -
  have u: "currentSeq (node (c[i := l] ! k)) = currentSeq (node (c ! k))"
    if "i = 0 \<or> currentSeq (node l) = currentSeq (node (c ! i))" for c :: chain and i l
    using that assms(2) by (cases "i < length c") (auto simp: nth_list_update list_update_beyond not_less)
  show ?thesis using assms(1) by cases (auto simp: u numbers_of_handlers)
qed

lemma chain_run_number:
  assumes "chain_run c0 c" and "0 < k"
  shows "currentSeq (node (c ! k)) = currentSeq (node (c0 ! k))"
  using assms(1) by induction (use chain_step_number assms(2) in auto)

text \<open>The servers of the chain of two after its first write, ready for another change of mode.\<close>

lemma lock_of_handlers:
  "Write request n = (r, n') \<Longrightarrow> changemode_locked n' = changemode_locked n"
  "relay_write_take n = Some (e, n') \<Longrightarrow> changemode_locked n' = changemode_locked n"
  "RelayWrite rr n = (u, n') \<Longrightarrow> changemode_locked n' = changemode_locked n"
  "relay_write_store junk e n = (u, n') \<Longrightarrow> changemode_locked n' = changemode_locked n"
  "relay_write_ack_iteration n = Some (u, n', calls) \<Longrightarrow> changemode_locked n' = changemode_locked n"
  "RelayWriteAck ra n = Some (u, n', calls) \<Longrightarrow> changemode_locked n' = changemode_locked n"
  "WriteAck q n = (f, n', calls) \<Longrightarrow> changemode_locked n' = changemode_locked n"
  "AckReplayLog q n = (n', calls) \<Longrightarrow> changemode_locked n' = changemode_locked n"
  by (auto simp: Write_def relay_write_take_def RelayWrite_def relay_write_store_def relay_write_ack_iteration_def
      RelayWriteAck_def WriteAck_def AckReplayLog_def Let_def case_prod_unfold
      split: if_splits sum.splits option.splits prod.splits)

lemma chain_run_lock:
  assumes "chain_run c0 c"
  shows "changemode_locked (node (c ! k)) = changemode_locked (node (c0 ! k))"
  using assms
proof induction
  case (step c a c')
  have u: "changemode_locked (node (c[i := l] ! k)) = changemode_locked (node (c ! k))"
    if "changemode_locked (node l) = changemode_locked (node (c ! i))" for c :: chain and i l
    using that by (cases "i < length c") (auto simp: nth_list_update list_update_beyond not_less)
  from step(2) have "changemode_locked (node (c' ! k)) = changemode_locked (node (c ! k))"
    by cases (auto simp: u lock_of_handlers)
  then show ?case using step(4) by simp
qed simp

definition to_single :: change_mode_request where
  "to_single = \<lparr>prev_addr = None, next_addr = None, new_state = int_of_state SINGLE, last_seq_num = 0\<rparr>"

lemma to_single_mode:
  assumes "\<not> changemode_locked n" and "node_state n \<noteq> SINGLE"
  obtains m where "ChangeMode to_single n = Some (Inr 0, m, [])"
proof -
  have s: "state_of_int (new_state to_single) = Some SINGLE" by (simp add: to_single_def state_of_int_def int_of_state_def)
  show ?thesis using that assms(2) ChangeMode_unfold [OF assms(1) s] by (simp add: Let_def)
qed

lemma demo_unlocked:
  assumes "chain_run new_chain c" and "i < 2"
  shows "\<not> changemode_locked (node (c ! i))" "node_state (node (c ! i)) \<noteq> SINGLE"
proof -
  have n: "length new_chain = 2" by (simp add: new_chain_def)
  have l: "length c = 2" and s: "states c = chain_states 2"
    using chain_run_states [OF assms(1)] new_chain_started unfolding started_chain_def n by simp_all
  have "node_state (node (c ! i)) = states c ! i" using l assms(2) by (simp add: states_def)
  then show "node_state (node (c ! i)) \<noteq> SINGLE" using assms(2) s by (simp add: chain_states_def state_at_def)
  show "\<not> changemode_locked (node (c ! i))"
    unfolding chain_run_lock [OF assms(1)] using assms(2)
    by (auto simp: less_2_cases_iff new_chain_def new_link_def head_server_def server_start_defs)
qed

text \<open>There is always a client a server has not heard of.\<close>

lemma fresh_client:
  obtains r where "fst (addToLog r log) = 0"
proof -
  let ?r = "\<lambda>k. \<lparr>ip = ''10.0.0.8'', pid = int k, timestamp = Timestamp 1 0\<rparr>"
  have "inj (\<lambda>k. client_identifier (?r k))"
    using client_identifier_injective [of "?r _" "?r _"] by (intro injI) fastforce
  then have "infinite (range (\<lambda>k. client_identifier (?r k)))" by (simp add: finite_image_iff)
  then have "\<not> range (\<lambda>k. client_identifier (?r k)) \<subseteq> fst ` set log" using finite_subset [of _ "fst ` set log"] by auto
  then obtain k where "client_identifier (?r k) \<notin> fst ` set log" by blast
  then have "map_of log (client_identifier (?r k)) = None" by (simp add: map_of_eq_None_iff)
  then show ?thesis using that [of "?r k"] by (simp add: addToLog_def)
qed

text \<open>
  C15. When the head is lost, the server promoted in its place goes on counting from the number it was
  started with, not from the last write of the chain: if it has stored a write since, the next write it
  accepts gets the number of an old write, and from then on its relay thread waits for ever; in
  no continuation does the new head store a write again, although clients get sequence numbers as before.
\<close>

theorem promoted_head_stalls:
  assumes "started_chain b v c0" and "chain_run c0 c" and "head_lost k c c'"
    and "currentSeq (node (c0 ! k)) = b + 1" and "b < writeSeq (node (c ! k))" and "stage (c ! k) = Idle"
    and "Write request (node (c' ! 0)) = (Inr q, n)" and "q \<noteq> 0" and "chain_run (c'[0 := (c' ! 0)\<lparr>node := n\<rparr>]) c''"
  shows "q = b + 1 \<and> relay_write_take (node (c'' ! 0)) = None \<and> writeSeq (node (c'' ! 0)) = writeSeq (node (c ! k))"
  using assms(3)
proof cases
  case (1 request' r m)
  obtain H V z where c: "chain_inv H V b z c" using chain_run_inv [OF assms(2,1)] by blast
  have z: "0 \<le> b" "b + 1 < 2 ^ 31" using assms(1) by (simp_all add: started_chain_def)
  have t: "same_tables (node (c ! k)) m" by (rule ChangeMode_result(1) [OF 1(5,4)])
  have m: "node (c' ! 0) = m" "stage (c' ! 0) = Idle" "c' \<noteq> []" using 1 assms(6) by simp_all
  have wf: "pq_wf (pendingQueue m)"
    using node_invD(1) [OF link_invD(1) [OF chain_invD(4) [OF c 1(3)]]] t by (simp add: same_tables_def queue_known_def)
  have s: "currentSeq m = b + 1"
    using chain_run_number [OF assms(2) 1(2)] assms(4) t by (simp add: same_tables_def)
  note w = Write_queue [OF assms(7) [unfolded m(1)] wf]
  have q: "q = b + 1" "\<exists>e \<in> set (queue (pendingQueue n)). seqNum e = b + 1"
    using w(4) [OF refl assms(8)] z s by simp_all
  obtain e where "e \<in> set (queue (pendingQueue n))" "seqNum e = b + 1" using q(2) by blast
  moreover have "b + 1 \<le> writeSeq n" using w(3) t assms(5) by (simp add: same_tables_def)
  ultimately have "\<exists>e \<in> set (queue (pendingQueue n)). seqNum e \<le> writeSeq n" by force
  then have "stalled (c'[0 := (c' ! 0)\<lparr>node := n\<rparr>] ! 0)" using w(1) m(2,3) by (auto simp: stalled_def)
  from stalled_run [OF assms(9) this] m(3) have "stalled (c'' ! 0)" "writeSeq (node (c'' ! 0)) = writeSeq n" by simp_all
  then show ?thesis using stalled_take q(1) w(3) t by (simp add: same_tables_def)
qed

theorem promoted_head_stalls_witness:
  "\<exists>c c' request n. chain_run new_chain c \<and> head_lost 1 c c' \<and> writeSeq (node (c ! 1)) = 1 \<and>
    Write request (node (c' ! 0)) = (Inr 1, n) \<and>
    (\<forall>c''. chain_run (c'[0 := (c' ! 0)\<lparr>node := n\<rparr>]) c'' \<longrightarrow>
      relay_write_take (node (c'' ! 0)) = None \<and> writeSeq (node (c'' ! 0)) = 1)"
proof -
  obtain c where c: "chain_run new_chain c" "length c = 2" "\<And>i. i < 2 \<Longrightarrow> settled 1 1 (c ! i)"
    using demo_run by metis
  have s: "stage (c ! 1) = Idle" "pendingQueue (node (c ! 1)) = empty_pending_queue" "writeSeq (node (c ! 1)) = 1"
    using c(3) [of 1] by (simp_all add: settled_def)
  obtain m where m: "ChangeMode to_single (node (c ! 1)) = Some (Inr 0, m, [])"
    using to_single_mode demo_unlocked [OF c(1), of 1] by (metis one_less_numeral_iff semiring_norm(76))
  have st: "state_of_int (new_state to_single) = Some SINGLE" by (simp add: to_single_def state_of_int_def int_of_state_def)
  let ?c = "(drop 1 c)[0 := (c ! 1)\<lparr>node := m\<rparr>]"
  have lost: "head_lost 1 c ?c"
    by (rule head_lost.intros [OF _ _ _ m]) (use c(2) st in \<open>simp_all add: state_at_def\<close>)
  have node: "node (?c ! 0) = m" using c(2) by simp
  have t: "same_tables (node (c ! 1)) m" by (rule ChangeMode_result(1) [OF m st])
  have k: "currentSeq (node (new_chain ! 1)) = 0 + 1" by (simp add: new_chain_def new_link_def server_start_defs)
  then have cur: "currentSeq m = 1" using chain_run_number [OF c(1), of 1] t by (simp add: same_tables_def)
  obtain r where r: "fst (addToLog r (replayLog m)) = 0" by (rule fresh_client)
  obtain n where w: "Write \<lparr>wr_data = [], wr_offset = 0, wr_id = r\<rparr> m = (Inr 1, n)"
    using r cur t s(2) by (simp add: Write_def Let_def case_prod_unfold same_tables_def pushEntry_def empty_pending_queue_def)
  then have w': "Write \<lparr>wr_data = [], wr_offset = 0, wr_id = r\<rparr> (node (?c ! 0)) = (Inr 1, n)" unfolding node .
  have "relay_write_take (node (c'' ! 0)) = None \<and> writeSeq (node (c'' ! 0)) = 1"
    if "chain_run (?c[0 := (?c ! 0)\<lparr>node := n\<rparr>]) c''" for c''
    using promoted_head_stalls [OF new_chain_started c(1) lost k _ s(1) w' _ that] s(3) by simp
  then show ?thesis using c(1) lost s(3) w' by blast
qed

end
