(* ===== verification/Storage_Cells.thy ===== *)
theory Storage_Cells
  imports Storage_Walk Storage_Marks
begin

text \<open>
  The loops of \<^verbatim>\<open>get_modified_offsets\<close> and \<^verbatim>\<open>checksum\<close> over the blocks of the committed version, as lists
  over all blocks of the volume in the order of their offsets.
\<close>

section \<open>All blocks\<close>

text \<open>The blocks of the volume in the order of the walk.\<close>

definition block_offset :: "nat \<Rightarrow> nat \<Rightarrow> nat \<Rightarrow> int" where
  "block_offset j k l = 4096 * (int l + 256 * (int k + 512 * int j))"

definition volume_cells :: "int list" where
  "volume_cells = concat (map (\<lambda>j. concat (map (\<lambda>k. map (block_offset j k) entries) slots)) slots)"

lemma block_offset_paths:
  assumes "j < 512" and "k < 512" and "l < 256"
  shows "cell (block_offset j k l)" "stamp_path (block_offset j k l) = [j, k, 2 * l]"
  using data_path_surj [OF assms] by (simp_all add: block_offset_def cell_def)

lemma in_concat_map: "v \<in> set (concat (map f xs)) \<longleftrightarrow> (\<exists>x \<in> set xs. v \<in> set (f x))"
  by simp

lemma distinct_concat_map:
  assumes "distinct xs" and "\<And>x. x \<in> set xs \<Longrightarrow> distinct (f x)"
    and "\<And>x y v. x \<in> set xs \<Longrightarrow> y \<in> set xs \<Longrightarrow> v \<in> set (f x) \<Longrightarrow> v \<in> set (f y) \<Longrightarrow> x = y"
  shows "distinct (concat (map f xs))"
  using assms
proof (induction xs)
  case (Cons x xs)
  have "v \<notin> set (f y)" if "v \<in> set (f x)" "y \<in> set xs" for v y
    using Cons.prems(1) Cons.prems(3) [of x y v] that by auto
  then have "set (f x) \<inter> (\<Union>y \<in> set xs. set (f y)) = {}" by blast
  moreover have "distinct (concat (map f xs))" 
  proof (rule Cons.IH)
    show "distinct xs" using Cons.prems(1) by simp
    show "distinct (f y)" if "y \<in> set xs" for y using Cons.prems(2) that by simp
    show "y = z" if "y \<in> set xs" "z \<in> set xs" "v \<in> set (f y)" "v \<in> set (f z)" for y z v
      using Cons.prems(3) [of y z v] that by simp
  qed
  ultimately show ?case using Cons.prems(2) [of x] by simp
qed simp

lemma volume_cells: "set volume_cells = {v. cell v}" "distinct volume_cells"
proof -
  have p: "stamp_path v = [j, k, 2 * l]" if "v = block_offset j k l" "j < 512" "k < 512" "l < 256" for v j k l
    using that block_offset_paths(2) by simp
  have mem: "block_offset j k l \<in> set volume_cells" if "j < 512" "k < 512" "l < 256" for j k l
    unfolding volume_cells_def in_concat_map using that by (intro bexI [of _ j] bexI [of _ k]) simp_all
  have "v = block_offset (idx2 v) (idx3 v) (idx4 v)" if "cell v" for v
    using offset_of_levels [of v] level_bounds [of v] that by (simp add: cell_def block_offset_def idx2_def idx3_def idx4_def)
  then have "v \<in> set volume_cells" if "cell v" for v
    using that idx_bounds [of v] mem [of "idx2 v" "idx3 v" "idx4 v"] by metis
  moreover have "cell v" if "v \<in> set volume_cells" for v
    using that block_offset_paths(1) unfolding volume_cells_def by auto
  ultimately show "set volume_cells = {v. cell v}" by blast
  show "distinct volume_cells"
    unfolding volume_cells_def
  proof (intro distinct_concat_map)
    show "distinct (map (block_offset j k) entries)" if "j \<in> set slots" "k \<in> set slots" for j k
      by (simp add: distinct_map inj_on_def block_offset_def)
    show "k = k'" if t: "j \<in> set slots" "k \<in> set slots" "k' \<in> set slots" "v \<in> set (map (block_offset j k) entries)"
      "v \<in> set (map (block_offset j k') entries)" for j k k' v
    proof -
      obtain l where "v = block_offset j k l" "l < 256" using t(4) by auto
      moreover obtain l' where "v = block_offset j k' l'" "l' < 256" using t(5) by auto
      ultimately show ?thesis using p [of v j k l] p [of v j k' l'] t(1-3) by simp
    qed
    show "j = j'" if t: "j \<in> set slots" "j' \<in> set slots" "v \<in> set (concat (map (\<lambda>k. map (block_offset j k) entries) slots))"
      "v \<in> set (concat (map (\<lambda>k. map (block_offset j' k) entries) slots))" for j j' v
    proof -
      obtain k l where "v = block_offset j k l" "k < 512" "l < 256" using t(3) by auto
      moreover obtain k' l' where "v = block_offset j' k' l'" "k' < 512" "l' < 256" using t(4) by auto
      ultimately show ?thesis using p [of v j k l] p [of v j' k' l'] t(1,2) by simp
    qed
  qed simp_all
qed

section \<open>One walk\<close>

lemma concat_map_concat: "concat (map G (concat (map F xs))) = concat (map (\<lambda>x. concat (map G (F x))) xs)"
  by (induction xs) simp_all

text \<open>
  The four nested loops visit every block of the volume that has a leaf, in order; \<open>body\<close> is what they
  do with an entry of a leaf, \<open>G v\<close> what it yields for block \<open>v\<close>.
\<close>

lemma walk_cells:
  assumes wf: "wf_tree (disk s) (file_blocks s) (committed_root s)"
    and leaf: "\<And>j k l. j < 512 \<Longrightarrow> k < 512 \<Longrightarrow> l < 256 \<Longrightarrow> addr (disk s) (committed_root s) [j, k] \<noteq> 0 \<Longrightarrow>
      body 0 (int j) (int k) (disk s (addr (disk s) (committed_root s) [j, k])) (int l) = Some (G (block_offset j k l))"
    and none: "\<And>j k l. j < 512 \<Longrightarrow> k < 512 \<Longrightarrow> l < 256 \<Longrightarrow> addr (disk s) (committed_root s) [j, k] = 0 \<Longrightarrow>
      G (block_offset j k l) = []"
  shows "collect (\<lambda>i. let n1 = first_level_block s i in
      if n1 \<noteq> 0 then do {
        b1 \<leftarrow> read_block_fresh s n1;
        collect (\<lambda>j. let n2 = indirect_block b1 j in
          if n2 \<noteq> 0 then do {
            b2 \<leftarrow> read_block_fresh s n2;
            collect (\<lambda>k. let n3 = indirect_block b2 k in
              if n3 \<noteq> 0 then do {
                b3 \<leftarrow> read_block_fresh s n3;
                collect (body i j k b3) [0..NUM_ENTRIES - 1] }
              else Some []) [0..NUM_INDIRECT - 1] }
          else Some []) [0..NUM_INDIRECT - 1] }
      else Some []) [0..NUM_FIRST_LEVEL - 1] = Some (concat (map G volume_cells))"
  unfolding upto_slots upto_entries upto_first
proof -
  let ?d = "disk s" and ?r = "committed_root s"
  let ?L = "\<lambda>j k. concat (map (G \<circ> block_offset j k) entries)"
  let ?S = "\<lambda>j. concat (map (?L j) slots)"
  let ?third = "\<lambda>i j k b3. collect (body i j k b3) (map int entries)"
  let ?second = "\<lambda>i j b2. collect (\<lambda>k. let n3 = indirect_block b2 k in
      if n3 \<noteq> 0 then do { b3 \<leftarrow> read_block_fresh s n3; ?third i j k b3 } else Some []) (map int slots)"
  let ?first = "\<lambda>i b1. collect (\<lambda>j. let n2 = indirect_block b1 j in
      if n2 \<noteq> 0 then do { b2 \<leftarrow> read_block_fresh s n2; ?second i j b2 } else Some []) (map int slots)"
  have zero: "?L j k = []" if "j < 512" "k < 512" "addr ?d ?r [j, k] = 0" for j k
    using that none by simp
  have zero2: "?S j = []" if "j < 512" "addr ?d ?r [j] = 0" for j
    using that zero addr_below_zero [of ?d ?r "[j]"] by (simp add: concat_eq_Nil_conv del: addr.simps)
  have third: "?third 0 (int j) (int k) (?d (addr ?d ?r [j, k])) = Some (?L j k)"
    if "j < 512" "k < 512" "addr ?d ?r [j, k] \<noteq> 0" for j k
    by (rule collect_entries) (use leaf that in \<open>simp add: comp_def del: addr.simps\<close>)
  have second: "?second 0 (int j) (?d (addr ?d ?r [j])) = Some (concat (map (\<lambda>k. if k < 512 then ?L j k else []) slots))"
    if "addr ?d ?r [j] \<noteq> 0" "j < 512" for j
  proof (rule collect_slots [OF wf, of "[j]"])
    show "(if i < 512 then ?L j i else []) = []" if "addr ?d ?r ([j] @ [i]) = 0" for i
      using zero [OF \<open>j < 512\<close>, of i] that by (simp del: addr.simps)
  qed (use that third in \<open>simp_all del: addr.simps\<close>)
  have S: "concat (map (\<lambda>k. if k < 512 then ?L j k else []) slots) = ?S j" for j
    by (rule arg_cong [where f = concat]) (simp cong: map_cong)
  have first: "?first 0 (?d (addr ?d ?r [])) = Some (concat (map (\<lambda>j. if j < 512 then ?S j else []) slots))" if "?r \<noteq> 0"
  proof (rule collect_slots [OF wf, of "[]"])
    show "(if i < 512 then ?S i else []) = []" if "addr ?d ?r ([] @ [i]) = 0" for i
      using zero2 [of i] that by (simp del: addr.simps)
    show "addr ?d ?r [] \<noteq> 0" using that by simp
  qed (use second S in \<open>simp_all del: addr.simps\<close>)
  have "map (\<lambda>j. if j < 512 then ?S j else []) slots = map ?S slots" by (rule map_cong) simp_all
  then have "concat (map (\<lambda>j. if j < 512 then ?S j else []) slots) = concat (map ?S slots)" by (simp only:)
  then have T: "concat (map (\<lambda>j. if j < 512 then ?S j else []) slots) = concat (map G volume_cells)"
    unfolding volume_cells_def by (simp add: concat_map_concat)
  show "collect (\<lambda>i. let n1 = first_level_block s i in
      if n1 \<noteq> 0 then do { b1 \<leftarrow> read_block_fresh s n1; ?first i b1 } else Some []) [0] = Some (concat (map G volume_cells))"
  proof (cases "?r = 0")
    case True
    then have "?S j = []" if "j < 512" for j using that zero2 by simp
    then have "concat (map (\<lambda>j. if j < 512 then ?S j else []) slots) = []" by (simp add: concat_eq_Nil_conv)
    then show ?thesis using True T by (simp add: committed_root_def)
  next
    case False
    then show ?thesis using first [OF False] read_root [OF wf False] T by (simp add: committed_root_def [symmetric])
  qed
qed

section \<open>Changed blocks and digests\<close>

text \<open>Number of the last write to a block of the committed version, and whether there was one.\<close>

definition stamp :: "storage \<Rightarrow> int \<Rightarrow> int" where
  "stamp s v = addr (disk s) (committed_root s) (stamp_path v)"

definition used :: "storage \<Rightarrow> int \<Rightarrow> bool" where
  "used s v \<longleftrightarrow> addr (disk s) (committed_root s) (data_path v) \<noteq> 0"

lemma concat_map_if: "concat (map (\<lambda>x. if P x then [f x] else []) xs) = map f (filter P xs)"
  by (induction xs) simp_all

lemma block_offset_addr:
  assumes "j < 512" and "k < 512" and "l < 256"
  shows "stamp s (block_offset j k l) = addr (disk s) (committed_root s) [j, k, 2 * l]"
    "data_path (block_offset j k l) = [j, k, 2 * l + 1]"
    "addr (disk s) (committed_root s) [j, k] = 0 \<Longrightarrow> stamp s (block_offset j k l) = 0 \<and> \<not> used s (block_offset j k l)"
proof -
  show st: "stamp s (block_offset j k l) = addr (disk s) (committed_root s) [j, k, 2 * l]"
    using block_offset_paths(2) [OF assms] by (simp add: stamp_def del: addr.simps)
  show dp: "data_path (block_offset j k l) = [j, k, 2 * l + 1]"
    using data_path_surj [OF assms] by (simp add: block_offset_def)
  show "stamp s (block_offset j k l) = 0 \<and> \<not> used s (block_offset j k l)" if "addr (disk s) (committed_root s) [j, k] = 0"
    using addr_below_zero [OF that, of "[2 * l]"] addr_below_zero [OF that, of "[2 * l + 1]"] st dp
    by (simp add: used_def del: addr.simps)
qed

lemma modified_offsets_walk:
  assumes wf: "wf_tree (disk s) (file_blocks s) (committed_root s)" and n: "0 \<le> n"
  shows "get_modified_offsets s n = Some (map (\<lambda>v. (to_int32 v, stamp s v)) (filter (\<lambda>v. n < stamp s v) volume_cells))"
  unfolding get_modified_offsets_def concat_map_if [symmetric]
proof (rule walk_cells [OF wf])
  fix j k l :: nat
  assume jkl: "j < 512" "k < 512" "l < 256"
  note a = block_offset_addr [OF jkl]
  show "(if n < stamp s (block_offset j k l) then [(to_int32 (block_offset j k l), stamp s (block_offset j k l))] else []) = []"
    if "addr (disk s) (committed_root s) [j, k] = 0"
    using a(3) [OF that] n by simp
  have "4096 * (int l + NUM_ENTRIES * (int k + NUM_INDIRECT * (int j + NUM_INDIRECT * 0))) = block_offset j k l"
    by (simp add: block_offset_def)
  then show "(let volume_offset = to_int32 (4096 * (int l + NUM_ENTRIES * (int k + NUM_INDIRECT * (int j + NUM_INDIRECT * 0))));
      data_seq_num = entry_last_updated (disk s (addr (disk s) (committed_root s) [j, k])) (int l)
      in Some (if n < data_seq_num then [(volume_offset, data_seq_num)] else [])) =
    Some (if n < stamp s (block_offset j k l) then [(to_int32 (block_offset j k l), stamp s (block_offset j k l))] else [])"
    if "addr (disk s) (committed_root s) [j, k] \<noteq> 0"
    using leaf_addr(2) [OF that] a(1) by (simp add: Let_def del: addr.simps)
qed

lemma digests_walk:
  assumes wf: "wf_tree (disk s) (file_blocks s) (committed_root s)"
  shows "block_digests md5 s = Some (concat (map (\<lambda>v. if used s v then md5 (block_at (disk s) (committed_root s) v) else []) volume_cells))"
  unfolding block_digests_def
proof (rule walk_cells [OF wf])
  fix j k l :: nat
  assume jkl: "j < 512" "k < 512" "l < 256"
  note a = block_offset_addr [OF jkl]
  show "(if used s (block_offset j k l) then md5 (block_at (disk s) (committed_root s) (block_offset j k l)) else []) = []"
    if "addr (disk s) (committed_root s) [j, k] = 0"
    using a(3) [OF that] by simp
  have t: "tree_path [j, k, 2 * l + 1]" using jkl by simp
  show "(let data_block_num = entry_file_block_num (disk s (addr (disk s) (committed_root s) [j, k])) (int l)
      in if data_block_num \<noteq> 0 then read_block_fresh s data_block_num \<bind> (\<lambda>data. Some (md5 data)) else Some []) =
    Some (if used s (block_offset j k l) then md5 (block_at (disk s) (committed_root s) (block_offset j k l)) else [])"
    if "addr (disk s) (committed_root s) [j, k] \<noteq> 0"
    using leaf_addr(1) [OF that] a(2) read_block_live(2) [OF wf t]
    by (simp add: Let_def used_def block_at_def del: addr.simps)
qed

text \<open>The checksum depends only on which blocks have been written and on their contents.\<close>

lemma checksum_cells:
  assumes "wf_tree (disk s) (file_blocks s) (committed_root s)" and "wf_tree (disk t) (file_blocks t) (committed_root t)"
    and "\<And>v. cell v \<Longrightarrow> used s v = used t v \<and> block_at (disk s) (committed_root s) v = block_at (disk t) (committed_root t) v"
  shows "storage_checksum md5 s = storage_checksum md5 t" "\<exists>x. storage_checksum md5 s = Some x"
proof -
  have "map (\<lambda>v. if used s v then md5 (block_at (disk s) (committed_root s) v) else []) volume_cells =
      map (\<lambda>v. if used t v then md5 (block_at (disk t) (committed_root t) v) else []) volume_cells"
    by (rule map_cong [OF refl]) (use volume_cells(1) assms(3) in simp)
  then show "storage_checksum md5 s = storage_checksum md5 t"
    by (simp only: storage_checksum_def digests_walk [OF assms(1)] digests_walk [OF assms(2)])
  show "\<exists>x. storage_checksum md5 s = Some x" by (simp add: storage_checksum_def digests_walk [OF assms(1)])
qed

end
