(* ===== verification/New_Tail.thy ===== *)
theory New_Tail
  imports Volume_Choice Storage_Cells Server_Node
begin

text \<open>
  A server that joins as the new tail: the old tail sends it the blocks changed since its last
  write, with \<^verbatim>\<open>Restore\<close>, and the replay log, with \<^verbatim>\<open>UpdateReplayLog\<close>. The blocks come in the order of
  their offsets and are written under the sequence numbers of their last changes, so the numbers
  go up and down. This theory shows what the new server holds afterwards.
\<close>

section \<open>Time stamps of blocks\<close>

lemma stamp_marks:
  assumes "atomic_inv w s" and "cell v"
  shows "marks s w v = (stamp s v, used s v)"
proof -
  have "root_of s w = committed_root s"
    using root_of_committed(2) [of w s] assms(1) by (simp add: atomic_inv_def volume_inv_def)
  then show ?thesis using assms(2) by (simp add: marks_def stamp_def used_def)
qed

section \<open>Writes under any number\<close>

text \<open>
  A volume without uncommitted writes can take a write under any sequence number: it behaves like
  the volume whose last committed number is one less. \<open>renumber\<close> is that volume, with everything on
  the medium; the first thing a commit does is to put everything on the medium.
\<close>

definition renumber :: "int \<Rightarrow> storage \<Rightarrow> storage" where
  "renumber x s = s\<lparr>first_block := put_i64 0 x (first_block s), disk := (disk s)(0 := put_i64 0 x (first_block s)),
     durable := (disk s)(0 := put_i64 0 x (first_block s)), durable_blocks := file_blocks s, unsynced := []\<rparr>"

lemma put_number_again:
  assumes "is_block b"
  shows "put_i64 0 q (put_i64 (Suc 0) r (put_i64 0 x b)) = put_i64 0 q (put_i64 (Suc 0) r b)"
  using assms by (simp add: put_i64_def is_block_def)

lemma renumber_fields [simp]:
  "uncommitted_writes (renumber x s) = uncommitted_writes s" "pending_blocks (renumber x s) = pending_blocks s"
  "free_blocks (renumber x s) = free_blocks s" "num_total_blocks (renumber x s) = num_total_blocks s"
  "file_blocks (renumber x s) = file_blocks s" "unalloc (renumber x s) = unalloc s" "wf_free (renumber x s) = wf_free s"
  by (simp_all add: renumber_def unalloc_def wf_free_def)

lemma renumber_block0:
  assumes "is_block (first_block s)" and "int64_range x"
  shows "last_committed (renumber x s) = x" "committed_root (renumber x s) = committed_root s"
    "is_block (first_block (renumber x s))"
  using assms by (simp_all add: renumber_def last_committed_def committed_root_def first_level_block_def get_put_same get_put_other)

lemma tree_off_zero:
  assumes "wf_tree d n r" and "\<And>i. i \<noteq> 0 \<Longrightarrow> d' i = d i"
  shows "live d' r = live d r" "raw_path p \<Longrightarrow> addr d' r p = addr d r p" "block_at d' r v = block_at d r v" "wf_tree d' n r"
proof -
  have f: "d' i = d i" if "i \<in> live d r" for i using wf_treeD(2) [OF assms(1) that] assms(2) by simp
  show l: "live d' r = live d r" by (rule live_frame [OF f])
  show a: "addr d' r p = addr d r p" if "raw_path p" for p by (rule addr_frame [OF f that])
  show "block_at d' r v = block_at d r v"
    using a [of "data_path v"] f [OF live_I [of "data_path v"]] by (simp add: block_at_def)
  show "wf_tree d' n r" using assms(1) l a unfolding wf_tree_def by (metis tree_raw)
qed

lemma renumber_inv:
  assumes inv: "storage_inv w s" and lc: "last_committed s = w" and x: "int64_range x"
  shows "storage_inv x (renumber x s)" "volume (renumber x s) x = volume s w" "tracked H x (renumber x s)"
    "root_of (renumber x s) n = committed_root s" "root_of s n = committed_root s"
proof -
  let ?t = "renumber x s"
  note b = renumber_block0 [OF storage_invD(7) [OF inv] x]
  have no: "uncommitted_writes s = Map.empty" using storage_invD(2) [OF inv] lc by auto
  show rt: "root_of ?t n = committed_root s" for n using no b(2) by (simp add: root_of_def)
  show rs: "root_of s n = committed_root s" for n using no by (simp add: root_of_def)
  have wf: "wf_tree (disk s) (file_blocks s) (committed_root s)" using storage_invD(3) [OF inv, of w] lc rs by simp
  have d: "disk ?t i = disk s i" if "i \<noteq> 0" for i using that by (simp add: renumber_def)
  note t = tree_off_zero [OF wf d]
  have sep: "live (disk s) (committed_root s) \<inter> unalloc s = {}"
    using storage_invD(4) [OF inv, of w] lc rs by (simp add: live_at_def)
  show "volume ?t x = volume s w" by (simp add: volume_def rt rs t(3) fun_eq_iff bytes_of_def)
  show "tracked H x ?t" using b(1) by (auto simp: tracked_def)
  have blk: "is_block (disk ?t n)" for n using storage_invD(6) [OF inv] b(3) by (simp add: renumber_def)
  have dur: "durable_inv ?t"
  proof -
    have f: "disk ?t 0 = first_block ?t" "durable ?t = disk ?t" "durable_blocks ?t = file_blocks s" "unsynced ?t = []"
      by (simp_all add: renumber_def)
    have "0 < file_blocks s" using storage_invD(8) [OF inv] by (simp add: durable_inv_def)
    moreover have "n < file_blocks s" if "n \<in> live (disk ?t) (committed_root ?t)" for n
      using wf_treeD(2) [OF wf, of n] that by (simp add: b(2) t(1))
    ultimately show ?thesis unfolding durable_inv_def f using blk by simp
  qed
  show "storage_inv x ?t"
    unfolding storage_inv_def live_at_def rt b(1)
    using no wf t sep dur blk b(3) storage_invD(5,9) [OF inv] rs by simp
qed

text \<open>The renumbered state after the write; only its unsynchronised writes and block 0 differ.\<close>

lemma written_renumber:
  assumes inv: "storage_inv w s" and lc: "last_committed s = w" and x: "int64_range x"
    and wr: "written s (committed_root s) v0 v1 b q f uw r' s1"
  obtains ws where "written (renumber x s) (committed_root s) v0 v1 b q f uw r' ((renumber x s1)\<lparr>durable := durable (renumber x s),
      durable_blocks := file_blocks s, unsynced := ws\<rparr>)"
proof -
  have g: "grown 7 s s1" and nv: "next_version s (committed_root s) v0 v1 f q uw r' s1"
    and rest: "{fst f, snd f} \<subseteq> unalloc s" "fst f \<noteq> 0" "snd f \<noteq> 0" "disk s1 (fst f) = fst b" "disk s1 (snd f) = snd b"
      "pending_blocks s1 = (pending_blocks s)(v0 \<mapsto> fst f, v1 \<mapsto> snd f)"
      "uncommitted_writes s1 = (uncommitted_writes s)(q \<mapsto> uw)"
    using wr by (simp_all add: written_def)
  obtain ws where ws: "unsynced s1 = unsynced s @ ws" "fst ` set ws \<subseteq> unalloc s" "\<forall>w \<in> set ws. is_block (snd w)"
    using g unfolding grown_def by (elim conjE exE)
  let ?s = "renumber x s" and ?t = "(renumber x s1)\<lparr>durable := durable (renumber x s), durable_blocks := file_blocks s, unsynced := ws\<rparr>"
  have fb: "first_block s1 = first_block s" by (rule grownD(8) [OF g])
  have isb: "is_block (first_block (renumber x s))" by (rule renumber_block0(3) [OF storage_invD(7) [OF inv] x])
  have d: "disk ?s i = disk s i" "disk ?t i = disk s1 i" if "i \<noteq> 0" for i using that by (simp_all add: renumber_def)
  have z: "disk ?t 0 = disk ?s 0" by (simp add: renumber_def fb)
  have wf: "wf_tree (disk s) (file_blocks s) (committed_root s)" "wf_tree (disk s1) (file_blocks s1) r'"
    using storage_invD(3) [OF inv, of w] lc renumber_inv(5) [OF inv lc x] nv by (simp_all add: next_version_def)
  note a = tree_off_zero [OF wf(1), of "disk ?s"] and c = tree_off_zero [OF wf(2), of "disk ?t"]
  have "grown 7 ?s ?t"
  proof -
    have "unalloc ?t = unalloc s1" "wf_free ?t = wf_free s1" by (simp_all add: unalloc_def wf_free_def renumber_def)
    moreover have "disk ?t n = disk ?s n" if "n \<notin> unalloc s" for n
      using that grownD(1) [OF g that] d z by (cases "n = 0") simp_all
    moreover have "is_block (disk ?t n)" for n
      using grownD(4) [OF g, of n] d(2) isb fb by (cases "n = 0") (simp_all add: renumber_def)
    ultimately show ?thesis
      using ws(2,3) grownD [OF g] fb unfolding grown_def by (simp add: renumber_def unalloc_def)
  qed
  moreover have "next_version ?s (committed_root s) v0 v1 f q uw r' ?t"
  proof -
    have "unalloc ?t = unalloc s1" by (simp add: unalloc_def renumber_def)
    then show ?thesis
      using nv a(1,2) [OF d(1)] c(1,2,4) [OF d(2)] unfolding next_version_def by simp
  qed
  moreover have "disk ?t (fst f) = fst b" "disk ?t (snd f) = snd b" using rest d(2) by simp_all
  ultimately show ?thesis using that [of ws] rest by (simp add: written_def)
qed

lemma commit_renumber:
  assumes "uncommitted_writes s q = Some uw" and "new_metadata_offset uw = [r, r]" and "is_block (first_block s)"
    and "0 < file_blocks s"
  shows "storage_commit q off ((renumber x s)\<lparr>durable := d, durable_blocks := n, unsynced := ws\<rparr>) = storage_commit q off s"
  using assms put_number_again [OF assms(3)]
  by (simp add: storage_commit_def commit_tables_def commit_write_def fdatasync_def write_block_def Let_def renumber_def
      set_first_level_block_def set_last_committed_def max_absorb1)

lemma put_any_number:
  assumes a: "atomic_inv w s" and room: "num_total_blocks s + 7 < 2 ^ 31" and q: "int64_range q" "int64_range (q - 1)"
    and ok: "access_ok off" and al: "aligned off" and len: "BLOCK_SIZE \<le> length buf" and st: "stray_ok j off s"
  obtains s' where "atomic_put j buf off q s = Some s'" "atomic_inv q s'" "version_at s' q = mark_write q off buf (version_at s w)"
    "num_total_blocks s' \<le> num_total_blocks s + 7"
proof -
  have inv: "storage_inv w s" and lc: "last_committed s = w" using a by (simp_all add: atomic_inv_def volume_inv_def)
  note rn = renumber_inv [OF inv lc q(2)]
  let ?r = "committed_root s"
  have off: "in_volume off" using ok by (auto simp: access_ok_def in_volume_def)
  have no: "uncommitted_writes s = Map.empty" using storage_invD(2) [OF inv] lc by auto
  have pre: "write_pre s ?r q"
    using write_pre_of_inv [OF inv room] room q no rn(5) storage_invD(3,4) [OF inv, of w] storage_invD(5,6) [OF inv] lc
    by (simp add: write_pre_def live_at_def)
  obtain f uw s1 where w1: "storage_write j buf off q s = Some s1"
    and wr: "written s ?r off off (take BLOCK_SIZE buf, take BLOCK_SIZE buf) q (f, f) uw (new_metadata_offset uw ! 0) s1"
    using write_aligned [OF pre off al len st] .
  let ?r' = "new_metadata_offset uw ! 0"
  have uw: "uncommitted_writes s1 q = Some uw" "new_metadata_offset uw = [?r', ?r']"
    and g: "grown 7 s s1" and fb: "first_block s1 = first_block s"
    using wr grownD(8) [of 7 s s1] by (simp_all add: written_def next_version_def)
  obtain ws where wt: "written (renumber (q - 1) s) ?r off off (take BLOCK_SIZE buf, take BLOCK_SIZE buf) q (f, f) uw ?r'
      ((renumber (q - 1) s1)\<lparr>durable := durable (renumber (q - 1) s), durable_blocks := file_blocks s, unsynced := ws\<rparr>)"
    using written_renumber [OF inv lc q(2) wr] .
  let ?s = "renumber (q - 1) s"
  define t where "t = (renumber (q - 1) s1)\<lparr>durable := durable ?s, durable_blocks := file_blocks s, unsynced := ws\<rparr>"
  have wt': "written ?s (root_of ?s (q - 1)) off off (take BLOCK_SIZE buf, take BLOCK_SIZE buf) (q - 1 + 1) (f, f) uw ?r' t"
    using wt by (simp add: t_def rn(4))
  have al': "off mod 4096 = 0" using al by (simp add: aligned_def)
  have inv1: "storage_inv q t" using written_inv [OF rn(1) wt' off al off al] by simp
  have vol: "volume t q = spec_write off buf (volume s w)"
    using written_volume_new [OF rn(1) len ok wt'] rn(2) al' by simp
  have tr: "tracked ((\<lambda>_. 0)(q - 1 + 1 := off)) (q - 1 + 1) t"
    by (rule tracked_write [OF rn(1,3) wt']) (use al' in simp_all)
  have n: "q = last_committed t + 1"
    using written_roots(4) [OF wt'] renumber_block0(1) [OF storage_invD(7) [OF inv] q(2)] by simp
  have tot: "num_total_blocks t < 2 ^ 31" "num_total_blocks t \<le> num_total_blocks s + 7"
    using written_total [OF wt'] room by simp_all
  obtain s' uw' where c: "storage_commit q off t = Some s'" "storage_inv q s'" "last_committed s' = q"
      "\<forall>m. q \<le> m \<and> m \<le> q \<longrightarrow> volume s' m = volume t m"
    and u: "uncommitted_writes t q = Some uw'"
    and e: "s' = (synced_state (tables_state q (off - off smod 4096) t))\<lparr>free_blocks := free_blocks t @ to_free uw'\<rparr>"
    using storage_commit_inv [OF inv1 n order_refl q(1) tot(1), of off] .
  have fl: "0 < file_blocks s1" using grownD(5) [OF g] storage_invD(8) [OF inv] by (simp add: durable_inv_def)
  have "storage_commit q off s1 = Some s'"
    using c(1) commit_renumber [OF uw _ fl, where x = "q - 1" and off = off] storage_invD(7) [OF inv] fb by (simp add: t_def)
  then have put: "atomic_put j buf off q s = Some s'" using w1 by (simp add: atomic_put_def)
  have "tracked ((\<lambda>_. 0)(q := off)) q s'"
    by (rule tracked_commit [OF inv1 _ n order_refl q(1) tot(1) _ u e]) (use tr in simp_all)
  moreover have nt: "num_total_blocks s' = num_total_blocks t" by (simp add: e synced_state_def tables_state_def)
  ultimately have "atomic_inv q s'" using c(2,3) tot(1) by (auto simp: atomic_inv_def volume_inv_def)
  moreover have "marks s' q = (marks s w)(off := (q, True))"
  proof -
    have wf: "wf_tree (disk s) (file_blocks s) ?r" using pre by (simp add: write_pre_def)
    have "addr (disk ?s) ?r p = addr (disk s) ?r p" if "raw_path p" for p
      using tree_off_zero(2) [OF wf _ that, of "disk ?s"] by (simp add: renumber_def)
    then have "marks ?s (q - 1) = marks s w" by (simp add: marks_def fun_eq_iff rn(4,5))
    moreover have "cell off" using off al by (simp add: cell_def)
    moreover have "marks s' q = marks t q"
      using commit_marks [OF inv1 n order_refl q(1) tot(1) u e _ order_refl] n by simp
    ultimately show ?thesis using written_marks_new [OF wt'] by simp
  qed
  ultimately show ?thesis using that [OF put] c(4) vol nt tot(2) by (simp add: version_at_def mark_write_def)
qed

section \<open>Blocks as strings\<close>

text \<open>
  A block survives the journey through the \<^verbatim>\<open>bytes\<close> field of the request, which is filled and read
  as a C string, when its only NUL is its last byte.
\<close>

definition text_block :: "block \<Rightarrow> bool" where
  "text_block b \<longleftrightarrow> length b = BLOCK_SIZE \<and> last b = 0 \<and> 0 \<notin> set (butlast b)"

lemma text_block_copy:
  assumes "text_block b"
  shows "c_string b = Inr (butlast b)" "string_block (butlast b) = Inr b"
proof -
  have len: "length b = BLOCK_SIZE" and no: "0 \<notin> set (butlast b)" using assms by (simp_all add: text_block_def)
  have "b \<noteq> []" using len by auto
  then have b: "butlast b @ [0] = b" using assms append_butlast_last_id [of b] by (simp add: text_block_def)
  have "takeWhile (\<lambda>x. x \<noteq> 0) (butlast b @ [0]) = butlast b"
    using no by (subst takeWhile_append2) auto
  moreover have "0 \<in> set b" by (subst b [symmetric]) simp
  ultimately show "c_string b = Inr (butlast b)" unfolding b by (simp add: c_string_def)
  show "string_block (butlast b) = Inr b" unfolding string_block_def b using len by simp
qed

section \<open>The request of the old tail\<close>

definition block_entry :: "(int \<Rightarrow> block) \<Rightarrow> (int \<Rightarrow> int) \<Rightarrow> int \<Rightarrow> restore_entry" where
  "block_entry B N v = \<lparr>re_data = butlast (B v), re_offset = v, re_seqnum = N v\<rparr>"

text \<open>What has to hold of a block for it to be sent.\<close>

definition sendable :: "(int \<Rightarrow> block) \<Rightarrow> (int \<Rightarrow> int) \<Rightarrow> int \<Rightarrow> bool" where
  "sendable B N v \<longleftrightarrow> cell v \<and> v < 2 ^ 31 \<and> text_block (B v) \<and> 0 < N v \<and> N v < 2 ^ 63 - 1"

lemma cell_access:
  assumes "cell v"
  shows "access_ok v" "aligned v" "in_volume v" "0 \<le> v"
proof -
  show a: "aligned v" "in_volume v" "0 \<le> v" using assms by (simp_all add: cell_def in_volume_def)
  obtain k where k: "v = 4096 * k" using a(1) by (auto simp: aligned_def mod_eq_0_iff_dvd)
  show "access_ok v" using a(2) unfolding k by (simp add: in_volume_def access_ok_def VOLUME_SIZE_def)
qed

lemma restore_request_blocks:
  assumes inv: "atomic_inv w s" and vs: "\<forall>v \<in> set vs. sendable (\<lambda>v. spec_read v (volume s w)) N v"
  shows "restore_request s (map (\<lambda>v. (to_int32 v, N v)) vs) = Inr (map (block_entry (\<lambda>v. spec_read v (volume s w)) N) vs)"
  using vs
proof (induction vs)
  case (Cons v vs)
  have v: "cell v" "v < 2 ^ 31" "text_block (spec_read v (volume s w))" "0 < N v" "N v < 2 ^ 63 - 1"
    using Cons.prems by (simp_all add: sendable_def)
  note c = cell_access [OF v(1)]
  have lc: "last_committed s = w" using inv by (simp add: atomic_inv_def)
  have "storage_read s (to_int32 v) = Some (spec_read v (volume s w))"
    using at.get_law [OF inv c(1)] v(2) c(4) lc by simp
  moreover have "restore_request s (map (\<lambda>v. (to_int32 v, N v)) vs) = Inr (map (block_entry (\<lambda>v. spec_read v (volume s w)) N) vs)"
    using Cons by simp
  ultimately show ?case
    using text_block_copy(1) [OF v(3)] v c(4) by (simp add: block_entry_def)
qed simp

section \<open>The new tail takes the blocks\<close>

lemma version_of_blocks:
  assumes "\<forall>v \<in> set vs. aligned v"
  shows "fst (fold (\<lambda>v. mark_write (N v) v (B v)) vs X) x =
      (if x - x mod 4096 \<in> set vs then B (x - x mod 4096) ! nat (x mod 4096) else fst X x)"
  using assms
proof (induction vs arbitrary: X)
  case (Cons v vs)
  have "x - x mod 4096 = v \<longleftrightarrow> v \<le> x \<and> x < v + 4096" by (rule block_start_eq) (use Cons.prems in simp)
  moreover have "nat (x - v) = nat (x mod 4096)" if "x - x mod 4096 = v" using that by (metis diff_diff_eq2 add_diff_cancel_left' diff_add_cancel)
  ultimately show ?case using Cons by (auto simp: spec_write_def)
qed simp

lemma marks_of_blocks:
  "snd (fold (\<lambda>v. mark_write (N v) v (B v)) vs X) u = (if u \<in> set vs then (N u, True) else snd X u)"
  by (induction vs arbitrary: X) (auto simp: mark_write_def)

lemma restore_blocks:
  assumes "atomic_inv w s" and "\<forall>v \<in> set vs. sendable B N v \<and> atomic_safe junk v k"
    and "num_total_blocks s + 7 * int (length vs) \<le> k" and "0 \<le> m" and "m < 2 ^ 63"
  shows "\<exists>s'. restore_entries junk (map (block_entry B N) vs) m s = Some (fold max (map N vs) m, s') \<and>
    atomic_inv (last (w # map N vs)) s' \<and>
    version_at s' (last (w # map N vs)) = fold (\<lambda>v. mark_write (N v) v (B v)) vs (version_at s w)"
  using assms
proof (induction vs arbitrary: w s m)
  case (Cons v vs)
  have v: "cell v" "v < 2 ^ 31" "text_block (B v)" "0 < N v" "N v < 2 ^ 63 - 1" and sf: "atomic_safe junk v k"
    using Cons.prems(2) by (simp_all add: sendable_def)
  note c = cell_access [OF v(1)]
  have room: "num_total_blocks s + 7 < 2 ^ 31" and st: "stray_ok junk v s"
    using sf Cons.prems(3) by (auto simp: atomic_safe_def stray_ok_def)
  have q: "int64_range (N v)" "int64_range (N v - 1)" using v(4,5) by (simp_all add: int64_range_def)
  have len: "BLOCK_SIZE \<le> length (B v)" using v(3) by (simp add: text_block_def)
  obtain s1 where s1: "atomic_put junk (B v) v (N v) s = Some s1" "atomic_inv (N v) s1"
      "version_at s1 (N v) = mark_write (N v) v (B v) (version_at s w)" "num_total_blocks s1 \<le> num_total_blocks s + 7"
    using put_any_number [OF Cons.prems(1) room q c(1,2) len st] .
  have m: "0 \<le> max (N v) m" "max (N v) m < 2 ^ 63" using v(4,5) Cons.prems(4,5) by simp_all
  have mm: "(if N v > to_uint64 m then to_int64 (N v) else m) = max (N v) m" using v(4,5) Cons.prems(4,5) by simp
  obtain s2 where s2: "restore_entries junk (map (block_entry B N) vs) (max (N v) m) s1 = Some (fold max (map N vs) (max (N v) m), s2)"
      "atomic_inv (last (N v # map N vs)) s2"
      "version_at s2 (last (N v # map N vs)) = fold (\<lambda>v. mark_write (N v) v (B v)) vs (version_at s1 (N v))"
    using Cons.IH [OF s1(2) _ _ m] Cons.prems(2,3) s1(4) by fastforce
  have "restore_entries junk (map (block_entry B N) (v # vs)) m s = Some (fold max (map N (v # vs)) m, s2)"
  proof -
    obtain s0 where "storage_write junk (B v) v (N v) s = Some s0" "storage_commit (N v) v s0 = Some s1"
      using s1(1) by (auto simp: atomic_put_def split: Option.bind_splits)
    moreover have "block_entry B N v = \<lparr>re_data = butlast (B v), re_offset = v, re_seqnum = N v\<rparr>" by (simp add: block_entry_def)
    ultimately show ?thesis
      using s2(1) text_block_copy(2) [OF v(3)] v c(4) mm by (simp split del: if_split cong del: if_weak_cong)
  qed
  then show ?case using s2(2,3) s1(3) by simp
qed simp

lemma latest_stamps:
  assumes a: "atomic_inv c s" and l: "latest_marks c (version_at s c)"
  shows "cell v \<Longrightarrow> stamp s v \<le> c" "0 < c \<Longrightarrow> \<exists>v. cell v \<and> stamp s v = c" "cell v \<Longrightarrow> 0 < stamp s v \<Longrightarrow> used s v"
proof -
  have m: "snd (version_at s c) v = (stamp s v, used s v)" if "cell v" for v
    using stamp_marks [OF a that] by (simp add: version_at_def)
  show "stamp s v \<le> c" if "cell v" using l that m [OF that] by (simp add: latest_marks_def) (metis fst_conv)
  show "used s v" if "cell v" "0 < stamp s v" using l that(2) m [OF that(1)] by (simp add: latest_marks_def) (metis fst_conv snd_conv)
  show "\<exists>v. cell v \<and> stamp s v = c" if "0 < c"
  proof -
    obtain u where "cell u" "fst (snd (version_at s c) u) = c" using l \<open>0 < c\<close> unfolding latest_marks_def by blast
    then show ?thesis using m [of u] by auto
  qed
qed

definition changed :: "int \<Rightarrow> storage \<Rightarrow> int list" where
  "changed L s = filter (\<lambda>v. L < stamp s v) volume_cells"

lemma changed_simps: "v \<in> set (changed L s) \<longleftrightarrow> cell v \<and> L < stamp s v"
  using volume_cells(1) by (auto simp: changed_def)

lemma max_changed:
  assumes a: "atomic_inv c s" and l: "latest_marks c (version_at s c)" and L: "0 \<le> L" "L \<le> c"
  shows "fold max (map (stamp s) (changed L s)) L = c"
proof -
  let ?S = "set (L # map (stamp s) (changed L s))"
  have "x \<le> c" if "x \<in> ?S" for x using that latest_stamps(1) [OF a l] L by (auto simp: changed_simps)
  moreover have "c \<in> ?S"
  proof (cases "L = c")
    case False
    then obtain v where "cell v" "stamp s v = c" using latest_stamps(2) [OF a l] L by auto
    then have "v \<in> set (changed L s)" using False L(2) by (simp add: changed_simps)
    then show ?thesis using \<open>stamp s v = c\<close> by auto
  qed simp
  ultimately have "Max ?S = c" by (intro Max_eqI) simp_all
  then show ?thesis by (simp only: Max.set_eq_fold)
qed

lemma atomic_tree: "atomic_inv w s \<Longrightarrow> wf_tree (disk s) (file_blocks s) (committed_root s)"
proof -
  assume "atomic_inv w s"
  then have inv: "storage_inv w s" and lc: "last_committed s = w" by (simp_all add: atomic_inv_def volume_inv_def)
  have "int64_range 0" by (simp add: int64_range_def)
  then show ?thesis using storage_invD(3) [OF inv, of w] lc renumber_inv(5) [OF inv lc, of 0 w] by simp
qed

lemma volume_of_reads: "in_volume x \<Longrightarrow> spec_read (x - x mod 4096) V ! nat (x mod 4096) = V x"
  by (simp add: spec_read_def nat_less_iff)

lemma volume_outside: "\<not> in_volume x \<Longrightarrow> volume s n x = 0"
  by (simp add: volume_def bytes_of_def)

text \<open>A volume with one block of text.\<close>

definition one_text :: block where
  "one_text = replicate 4095 65 @ [0]"

definition one_block :: "storage \<Rightarrow> bool" where
  "one_block s \<longleftrightarrow> atomic_put (\<lambda>_. 0) one_text 0 1 new_volume = Some s"

text \<open>A volume with one write: its block is the only changed one.\<close>

lemma one_stamp:
  assumes a: "atomic_inv 1 s" and v: "version_at s 1 = mark_write 1 off buf blank" and "cell off"
  shows "changed 0 s = [off]" "stamp s off = 1"
proof -
  have m: "stamp s v = fst (snd (mark_write 1 off buf blank) v)" if "cell v" for v
    using stamp_marks [OF a that] v by (simp add: version_at_def) (metis fst_conv snd_conv)
  then show "stamp s off = 1" using assms(3) by (simp add: mark_write_def)
  have "v \<in> set (changed 0 s) \<longleftrightarrow> v = off" for v
    using m [of v] assms(3) by (auto simp: changed_simps mark_write_def blank_def split: if_splits)
  then have "set (changed 0 s) = {off}" by blast
  moreover have "distinct (changed 0 s)" using volume_cells(2) by (simp add: changed_def)
  ultimately show "changed 0 s = [off]"
    by (cases "changed 0 s") (simp, metis distinct.simps(2) insert_iff list.set(2) set_empty singletonD subset_singletonD subsetI)
qed

lemma one_block:
  obtains s where "one_block s" "atomic_inv 1 s" "version_at s 1 = mark_write 1 0 one_text blank" "changed 0 s = [0]"
proof -
  have c: "cell 0" by (simp add: cell_def in_volume_def VOLUME_SIZE_def aligned_def)
  note a = cell_access [OF c]
  have len: "BLOCK_SIZE \<le> length one_text" by (simp add: one_text_def)
  have st: "stray_ok (\<lambda>_. 0) 0 new_volume" by (simp add: stray_ok_def get_second_level_def get_third_level_def)
  have q: "int64_range 1" "int64_range (1 - 1)" and room: "num_total_blocks new_volume + 7 < 2 ^ 31"
    by (simp_all add: int64_range_def new_volume_total)
  obtain s where s: "atomic_put (\<lambda>_. 0) one_text 0 1 new_volume = Some s" "atomic_inv 1 s"
      "version_at s 1 = mark_write 1 0 one_text (version_at new_volume 0)"
    using put_any_number [OF new_volumes(1) room q a(1,2) len st] by metis
  then have v: "version_at s 1 = mark_write 1 0 one_text blank" by (simp add: new_volume_blank)
  then show ?thesis using that s one_stamp(1) [OF s(2) v c] by (simp add: one_block_def)
qed

section \<open>The new tail\<close>

text \<open>\<open>x\<close> agrees with \<open>y\<close> on every block that \<open>y\<close> did not change after write \<open>L\<close>.\<close>

definition up_to :: "int \<Rightarrow> version \<Rightarrow> version \<Rightarrow> bool" where
  "up_to L x y \<longleftrightarrow> (\<forall>u. cell u \<and> fst (snd y u) \<le> L \<longrightarrow> snd x u = snd y u) \<and>
     (\<forall>b. in_volume b \<and> fst (snd y (b - b mod 4096)) \<le> L \<longrightarrow> fst x b = fst y b)"

lemma up_to_refl: "up_to L x x"
  by (simp add: up_to_def)

lemma up_to_write:
  assumes "up_to L x y" and "L < q" and "cell off"
  shows "up_to L x (mark_write q off buf y)"
proof -
  have o: "aligned off" using assms(3) by (simp add: cell_def)
  have "fst x b = spec_write off buf (fst y) b"
    if "in_volume b" "fst (snd (mark_write q off buf y) (b - b mod 4096)) \<le> L" for b
    using that assms(1,2) block_start_eq [OF o, of b] by (auto simp: up_to_def mark_write_def spec_write_def split: if_splits)
  then show ?thesis using assms(1,2) by (auto simp: up_to_def mark_write_def split: if_splits)
qed

text \<open>What the blocks not older than \<open>L\<close> add to such a version.\<close>

lemma up_to_restore:
  assumes o: "atomic_inv c s" and l: "latest_marks c (version_at s c)" and L: "0 \<le> L" and u: "up_to L (version_at t q) (version_at s c)"
  shows "fold (\<lambda>v. mark_write (stamp s v) v (spec_read v (volume s c))) (changed L s) (version_at t q) = version_at s c"
    (is "?X = _")
proof (rule prod_eqI; rule ext)
  have m: "snd (version_at s c) v = (stamp s v, used s v)" if "cell v" for v
    using stamp_marks [OF o that] by (simp add: version_at_def)
  show "snd ?X v = snd (version_at s c) v" for v
  proof (cases "cell v")
    case True
    then show ?thesis
      using u m [OF True] latest_stamps(3) [OF o l True] L by (auto simp: marks_of_blocks changed_simps up_to_def)
  qed (simp add: marks_of_blocks changed_simps version_at_def marks_def)
  show "fst ?X x = fst (version_at s c) x" for x
  proof (cases "in_volume x")
    case True
    have "\<forall>v \<in> set (changed L s). aligned v" using cell_access(2) by (simp add: changed_simps)
    moreover have c: "cell (x - x mod 4096)" using block_start True by (simp add: cell_def)
    ultimately show ?thesis
      using u m [OF c] True volume_of_reads [OF True, of "volume s c"]
      by (auto simp: version_of_blocks changed_simps up_to_def not_less version_at_def)
  next
    case False
    have al: "\<forall>v \<in> set (changed L s). aligned v" using cell_access(2) by (simp add: changed_simps)
    have "\<not> cell (x - x mod 4096)"
    proof
      assume "cell (x - x mod 4096)"
      then have "access_ok (x - x mod 4096)" by (rule cell_access(1))
      moreover have "0 \<le> x mod 4096" "x mod 4096 < 4096" by simp_all
      ultimately have "0 \<le> x" "x < VOLUME_SIZE" unfolding access_ok_def by linarith+
      then show False using False by (simp add: in_volume_def)
    qed
    then show ?thesis using False by (simp add: version_of_blocks [OF al] changed_simps version_at_def volume_outside)
  qed
qed

lemma tail_restored:
  assumes old: "atomic_inv c (vol old)" "latest_marks c (version_at (vol old) c)" "log_wf (replayLog old)"
    and new: "atomic_inv L (vol new)" "0 \<le> L" "L \<le> c" "c < 2 ^ 63 - 1"
    and same: "up_to L (version_at (vol new) L) (version_at (vol old) c)"
    and send: "\<forall>v. cell v \<and> L < stamp (vol old) v \<longrightarrow> v < 2 ^ 31 \<and> text_block (spec_read v (volume (vol old) c)) \<and>
      atomic_safe junk v (num_total_blocks (vol new) + 7 * int (length (changed L (vol old))))"
    and q: "q = last (L # map (stamp (vol old)) (changed L (vol old)))"
  obtains es msgs s' log where "new_tail_calls L old = Inr [Restore_call es, UpdateReplayLog_call msgs]"
    "Restore junk es new = Inr (new\<lparr>vol := s', writeSeq := c, commitSeq := c, currentSeq := c + 1\<rparr>)"
    "\<And>n. replayLog n = replayLog new \<Longrightarrow> UpdateReplayLog msgs n = Inr (n\<lparr>replayLog := log\<rparr>)"
    "atomic_inv q s'" "version_at s' q = version_at (vol old) c"
    "log_wf log" "status log = status (replayLog old)"
proof -
  let ?o = "vol old" and ?B = "\<lambda>v. spec_read v (volume (vol old) c)" and ?vs = "changed L (vol old)"
  let ?N = "stamp (vol old)" and ?k = "num_total_blocks (vol new) + 7 * int (length (changed L (vol old)))"
  let ?es = "map (block_entry ?B ?N) ?vs" and ?msgs = "getRelayLogContent (replayLog old)"
  have s: "sendable ?B ?N v \<and> atomic_safe junk v ?k" if "v \<in> set ?vs" for v
  proof -
    have v: "cell v" "L < ?N v" using that by (simp_all add: changed_simps)
    then have "?N v \<le> c" using latest_stamps(1) [OF old(1,2)] by simp
    then show ?thesis using v send new by (simp add: sendable_def)
  qed
  have "get_modified_offsets ?o L = Some (map (\<lambda>v. (to_int32 v, ?N v)) ?vs)"
    unfolding changed_def by (rule modified_offsets_walk [OF atomic_tree [OF old(1)] new(2)])
  moreover have "restore_request ?o (map (\<lambda>v. (to_int32 v, ?N v)) ?vs) = Inr ?es"
    by (rule restore_request_blocks [OF old(1)]) (use s in blast)
  ultimately have calls: "new_tail_calls L old = Inr [Restore_call ?es, UpdateReplayLog_call ?msgs]"
    using new(2-4) by (simp add: new_tail_calls_def)
  have lc: "last_committed (vol new) = L" using new(1) by (simp add: atomic_inv_def)
  obtain s' where s': "restore_entries junk ?es L (vol new) = Some (c, s')" "atomic_inv q s'"
      "version_at s' q = fold (\<lambda>v. mark_write (?N v) v (?B v)) ?vs (version_at (vol new) L)"
    using restore_blocks [OF new(1) _ order_refl new(2), of ?vs ?B ?N junk] s new(3,4) max_changed [OF old(1,2) new(2,3)] q by auto
  have V: "version_at s' q = version_at ?o c" using up_to_restore [OF old(1,2) new(2) same] s'(3) by simp
  obtain log where log: "initRelayLogContent ?msgs (replayLog new) = Inr log" "log_wf log" "status log = status (replayLog old)"
    using copied_log [OF old(3)] by blast
  have r: "Restore junk ?es new = Inr (new\<lparr>vol := s', writeSeq := c, commitSeq := c, currentSeq := c + 1\<rparr>)"
    using s'(1) lc new(2-4) by (simp add: Restore_def get_sequence_number_def)
  show ?thesis
  proof (rule that [OF calls r _ s'(2) V log(2,3)])
    show "UpdateReplayLog ?msgs n = Inr (n\<lparr>replayLog := log\<rparr>)" if "replayLog n = replayLog new" for n
      using log(1) that by (simp add: UpdateReplayLog_def)
  qed
qed

text \<open>
  C17. Bringing a new tail up to date. The old tail holds the version after write \<open>c\<close> and has no uncommitted writes; the new one
  stopped after write \<open>L\<close> and agrees with it on every block not changed since. Then the old tail's
  \<^verbatim>\<open>Restore\<close> and \<^verbatim>\<open>UpdateReplayLog\<close> requests can be built, both are carried out, and afterwards the new tail holds exactly
  the old tail's version (contents, time stamps of the blocks and which blocks are in use), continues after \<open>c\<close> and
  knows the same requests. On its disk, though, the
  last committed number is the one of the changed block with the highest offset. The changed blocks have to lie
  below 2 GiB and to end in their only NUL, and the new volume needs room for them.
\<close>

theorem new_tail_restored:
  assumes old: "atomic_inv c (vol old)" "latest_marks c (version_at (vol old) c)" "log_wf (replayLog old)"
    and new: "atomic_inv L (vol new)" "0 \<le> L" "L \<le> c" "c < 2 ^ 63 - 1"
    and same: "up_to L (version_at (vol new) L) (version_at (vol old) c)"
    and send: "\<forall>v. cell v \<and> L < stamp (vol old) v \<longrightarrow> v < 2 ^ 31 \<and> text_block (spec_read v (volume (vol old) c)) \<and>
      atomic_safe junk v (num_total_blocks (vol new) + 7 * int (length (changed L (vol old))))"
  shows "\<exists>es msgs new' new''. new_tail_calls L old = Inr [Restore_call es, UpdateReplayLog_call msgs] \<and>
    Restore junk es new = Inr new' \<and> UpdateReplayLog msgs new' = Inr new'' \<and>
    version_at (vol new'') (last_committed (vol new'')) = version_at (vol old) c \<and>
    commitSeq new'' = c \<and> writeSeq new'' = c \<and> currentSeq new'' = c + 1 \<and>
    status (replayLog new'') = status (replayLog old) \<and>
    last_committed (vol new'') = last (L # map (stamp (vol old)) (changed L (vol old)))"
proof -
  let ?q = "last (L # map (stamp (vol old)) (changed L (vol old)))"
  obtain es msgs s' log where r: "new_tail_calls L old = Inr [Restore_call es, UpdateReplayLog_call msgs]"
    "Restore junk es new = Inr (new\<lparr>vol := s', writeSeq := c, commitSeq := c, currentSeq := c + 1\<rparr>)"
    "\<And>n. replayLog n = replayLog new \<Longrightarrow> UpdateReplayLog msgs n = Inr (n\<lparr>replayLog := log\<rparr>)"
    "atomic_inv ?q s'" "version_at s' ?q = version_at (vol old) c" "status log = status (replayLog old)"
    using tail_restored [OF old new same send refl] by metis
  have "last_committed s' = ?q" using r(4) by (simp add: atomic_inv_def)
  with r show ?thesis by simp
qed

theorem new_tail_restored_witness:
  "\<exists>s es msgs new' new''. one_block s \<and>
    new_tail_calls 0 (start_server ''10.0.0.1'' 60051 s) = Inr [Restore_call es, UpdateReplayLog_call msgs] \<and>
    Restore (\<lambda>_. 0) es (start_server ''10.0.0.2'' 60051 new_volume) = Inr new' \<and> UpdateReplayLog msgs new' = Inr new'' \<and>
    volume (vol new'') (last_committed (vol new'')) = spec_write 0 one_text (\<lambda>_. 0) \<and> commitSeq new'' = 1 \<and> currentSeq new'' = 2 \<and>
    status (replayLog new'') = status []"
proof -
  obtain s where s: "one_block s" "atomic_inv 1 s" "version_at s 1 = mark_write 1 0 one_text blank" "changed 0 s = [0]"
    by (rule one_block)
  let ?old = "start_server ''10.0.0.1'' 60051 s" and ?new = "start_server ''10.0.0.2'' 60051 new_volume"
  have f: "vol ?old = s" "vol ?new = new_volume" "replayLog ?old = []" by (simp_all add: start_server_def Let_def)
  have ch: "cell v \<and> 0 < stamp s v \<longleftrightarrow> v = 0" for v using changed_simps [of v 0 s] s(4) by auto
  have V: "volume s 1 = spec_write 0 one_text (\<lambda>_. 0)" using s(3) by (simp add: version_at_def mark_write_def blank_def)
  have c: "cell 0" using ch by blast
  have l: "latest_marks 1 (version_at s 1)" using latest_marks_write [OF latest_marks_blank _ c] s(3) by simp
  have u: "up_to 0 (version_at new_volume 0) (version_at s 1)" using up_to_write [OF up_to_refl _ c] s(3) new_volume_blank by simp
  have "text_block (spec_read 0 (volume s 1))"
    using V spec_read_write [of one_text 0 "\<lambda>_. 0"] by (simp add: one_text_def text_block_def butlast_append)
  moreover have "atomic_safe (\<lambda>_. 0) 0 (num_total_blocks new_volume + 7 * int (length (changed 0 s)))"
    using s(4) by (simp add: atomic_safe_def new_volume_total get_second_level_def get_third_level_def)
  ultimately have send: "\<forall>v. cell v \<and> 0 < stamp (vol ?old) v \<longrightarrow> v < 2 ^ 31 \<and> text_block (spec_read v (volume (vol ?old) 1)) \<and>
      atomic_safe (\<lambda>_. 0) v (num_total_blocks (vol ?new) + 7 * int (length (changed 0 (vol ?old))))"
    using ch by (auto simp: f)
  have o: "atomic_inv 1 (vol ?old)" "latest_marks 1 (version_at (vol ?old) 1)" "log_wf (replayLog ?old)"
    "atomic_inv 0 (vol ?new)" "up_to 0 (version_at (vol ?new) 0) (version_at (vol ?old) 1)"
    using s(2) l u new_volumes(1) by (simp_all add: f log_wf_def)
  have "version_at t n = version_at s 1 \<Longrightarrow> volume t n = spec_write 0 one_text (\<lambda>_. 0)" for t n
    using V by (simp add: version_at_def)
  then show ?thesis
    using new_tail_restored [OF o(1-4) _ _ _ o(5) send] s(1) by (simp add: f(1,3)) (metis f(2))
qed

end
