(* ===== verification/Master.thy ===== *)
theory Master
  imports Server_Node
begin

text \<open>
  The master (\<^verbatim>\<open>master_main.cpp\<close>, \<^verbatim>\<open>masterService/NodeListenerImpl.cpp\<close>, \<^verbatim>\<open>ClientListenerImpl.cpp\<close>):
  the list of servers, their registration and the handling of failures. Nodes are objects shared
  by the list and the two pointers \<^verbatim>\<open>head\<close> and \<^verbatim>\<open>tail\<close>, so they live in a store and the list holds
  their addresses. The calls the master makes are recorded in order; the status of the \<open>k\<close>-th call
  is \<open>env k\<close> and the sequence number in its reply \<open>seqs k\<close>, so every behaviour of the servers and
  of the network is covered.
\<close>

section \<open>State and calls\<close>

record master_node =
  mn_ip :: string
  mn_port :: int
  mn_state :: node_state

datatype rpc_status = OK | UNAVAILABLE | UNIMPLEMENTED | OTHER_ERROR

datatype master_call = HeartBeat_call nat | ChangeMode_call nat change_mode_request

record master_state =
  nodes :: "nat \<Rightarrow> master_node"
  nodeList :: "nat list"
  head :: "nat option"
  tail :: "nat option"
  next_node :: nat
  reg_locked :: bool
  sent :: "master_call list"

definition start_master :: master_state where
  "start_master = \<lparr>nodes = (\<lambda>_. \<lparr>mn_ip = '''', mn_port = 0, mn_state = INITIALIZE\<rparr>), nodeList = [], head = None,
     tail = None, next_node = 0, reg_locked = False, sent = []\<rparr>"

definition rpc :: "(nat \<Rightarrow> rpc_status) \<Rightarrow> master_call \<Rightarrow> master_state \<Rightarrow> rpc_status \<times> master_state" where
  "rpc env c m = (env (length (sent m)), m\<lparr>sent := sent m @ [c]\<rparr>)"

definition address_of :: "master_node \<Rightarrow> server_ip" where
  "address_of n = \<lparr>si_ip = mn_ip n, si_port = mn_port n\<rparr>"

definition set_state :: "nat \<Rightarrow> node_state \<Rightarrow> master_state \<Rightarrow> master_state" where
  "set_state x s m = m\<lparr>nodes := (nodes m)(x := (nodes m x)\<lparr>mn_state := s\<rparr>)\<rparr>"

section \<open>Failures\<close>

text \<open>
  A failed head or tail: the nodes after it are asked one after the other to take over, the last
  one as the only server left. Without that last one in the list the iterator runs off its end.
\<close>

fun endpoint_failure ::
  "(nat \<Rightarrow> rpc_status) \<Rightarrow> node_state \<Rightarrow> nat option \<Rightarrow> nat list \<Rightarrow> nat list \<Rightarrow> master_state \<Rightarrow>
     (nat list \<times> master_state) option" where
  "endpoint_failure env st endpoint [] drops m = None"
| "endpoint_failure env st endpoint (x # xs) drops m =
     (let keep_going = (Some x \<noteq> endpoint);
          newState = (if keep_going then st else SINGLE);
          (result, m) = rpc env (ChangeMode_call x
            \<lparr>prev_addr = None, next_addr = None, new_state = int_of_state newState, last_seq_num = 0\<rparr>) m
      in if result = OK
         then (let m = set_state x newState m
               in Some (drops, if st = HEAD then m\<lparr>head := Some x\<rparr> else m\<lparr>tail := Some x\<rparr>))
         else if keep_going then endpoint_failure env st endpoint xs (drops @ [x]) m
         else Some (drops @ [x], m))"

text \<open>
  The search for the next live node in one direction: its position is one of \<open>ps\<close>. \<open>Inl p\<close> is an
  end of the chain that does not answer.
\<close>

fun find_alive ::
  "(nat \<Rightarrow> rpc_status) \<Rightarrow> nat list \<Rightarrow> nat option \<Rightarrow> nat list \<Rightarrow> nat list \<Rightarrow> master_state \<Rightarrow>
     ((nat + nat) \<times> nat list \<times> master_state) option" where
  "find_alive env copy endpoint [] drops m = None"
| "find_alive env copy endpoint (p # ps) drops m =
     (let try_next = copy ! p;
          past_endpoint = (Some try_next = endpoint);
          (result, m) = rpc env (HeartBeat_call try_next) m
      in if result = OK then Some (Inr try_next, drops, m)
         else if past_endpoint then Some (Inl p, drops @ [try_next], m)
         else find_alive env copy endpoint ps (drops @ [try_next]) m)"

text \<open>Connecting the neighbours of a failed middle node; the result tells whether both answered.\<close>

definition connect_neighbours ::
  "(nat \<Rightarrow> rpc_status) \<Rightarrow> (nat \<Rightarrow> int) \<Rightarrow> nat \<Rightarrow> nat \<Rightarrow> master_state \<Rightarrow> bool \<times> master_state" where
  "connect_neighbours env seqs down up m =
     (let last_received = seqs (length (sent m));
          (down_status, m) = rpc env (ChangeMode_call down
            \<lparr>prev_addr = Some (address_of (nodes m up)), next_addr = None,
             new_state = int_of_state (mn_state (nodes m down)), last_seq_num = 0\<rparr>) m
      in if down_status \<noteq> OK then (False, m)
         else
           (let (up_status, m) = rpc env (ChangeMode_call up
              \<lparr>prev_addr = None, next_addr = Some (address_of (nodes m down)),
               new_state = int_of_state (mn_state (nodes m up)), last_seq_num = last_received\<rparr>) m
            in (up_status = OK, m)))"

definition remove_nodes :: "nat list \<Rightarrow> master_state \<Rightarrow> master_state" where
  "remove_nodes drops m = m\<lparr>nodeList := filter (\<lambda>x. x \<notin> set drops) (nodeList m)\<rparr>"

text \<open>
  \<^verbatim>\<open>hlp_Manage_Failure\<close> for the node at position \<open>i\<close> of the heartbeat's copy of the list. The
  function calls itself when the search of a middle failure meets a dead end of the chain; the
  first argument bounds the depth.
\<close>

fun hlp_Manage_Failure ::
  "nat \<Rightarrow> (nat \<Rightarrow> rpc_status) \<Rightarrow> (nat \<Rightarrow> int) \<Rightarrow> nat list \<Rightarrow> nat \<Rightarrow> master_state \<Rightarrow> (int \<times> master_state) option" where
  "hlp_Manage_Failure 0 env seqs copy i m = None"
| "hlp_Manage_Failure (Suc fuel) env seqs copy i m =
     (let current = copy ! i;
          drops = [current]
      in case mn_state (nodes m current) of
           SINGLE \<Rightarrow> Some (0, remove_nodes drops m)
         | HEAD \<Rightarrow>
             (case endpoint_failure env HEAD (tail m) (drop (i + 1) copy) drops m of
                None \<Rightarrow> None | Some (drops, m) \<Rightarrow> Some (0, remove_nodes drops m))
         | TAIL \<Rightarrow>
             (case endpoint_failure env TAIL (head m) (rev (take i copy)) drops m of
                None \<Rightarrow> None | Some (drops, m) \<Rightarrow> Some (0, remove_nodes drops m))
         | MIDDLE \<Rightarrow>
             (case find_alive env copy (tail m) [i + 1..<length copy] drops m of
                None \<Rightarrow> None
              | Some (Inl p, _, m) \<Rightarrow>
                  (case hlp_Manage_Failure fuel env seqs copy p m of
                     None \<Rightarrow> None | Some (_, m) \<Rightarrow> Some (- 1, m))
              | Some (Inr down, drops, m) \<Rightarrow>
                  (case find_alive env copy (head m) (rev [0..<i]) drops m of
                     None \<Rightarrow> None
                   | Some (Inl p, _, m) \<Rightarrow>
                       (case hlp_Manage_Failure fuel env seqs copy p m of
                          None \<Rightarrow> None | Some (_, m) \<Rightarrow> Some (- 1, m))
                   | Some (Inr up, drops, m) \<Rightarrow>
                       (let (connected, m) = connect_neighbours env seqs down up m
                        in if connected then Some (0, remove_nodes drops m) else Some (- 1, m))))
         | _ \<Rightarrow> Some (0, remove_nodes drops m))"

text \<open>
  One round of \<^verbatim>\<open>run_heartbeat\<close> over the positions \<open>is\<close> of the copied list: it stops at the first
  node that is unavailable; \<open>Inl\<close> is the exit of the master on an unexpected status.
\<close>

fun heartbeat_round ::
  "(nat \<Rightarrow> rpc_status) \<Rightarrow> (nat \<Rightarrow> int) \<Rightarrow> nat list \<Rightarrow> nat list \<Rightarrow> master_state \<Rightarrow> (unit + master_state) option" where
  "heartbeat_round env seqs copy [] m = Some (Inr m)"
| "heartbeat_round env seqs copy (i # is) m =
     (let (result, m) = rpc env (HeartBeat_call (copy ! i)) m
      in if result = UNAVAILABLE
         then (case hlp_Manage_Failure 2 env seqs copy i m of None \<Rightarrow> None | Some (_, m) \<Rightarrow> Some (Inr m))
         else if result = OTHER_ERROR then Some (Inl ())
         else heartbeat_round env seqs copy is m)"

definition run_heartbeat ::
  "(nat \<Rightarrow> rpc_status) \<Rightarrow> (nat \<Rightarrow> int) \<Rightarrow> master_state \<Rightarrow> (unit + master_state) option" where
  "run_heartbeat env seqs m = heartbeat_round env seqs (nodeList m) [0..<length (nodeList m)] m"

section \<open>Registration\<close>

record register_request =
  reg_ip :: server_ip
  reg_last_seq_num :: int

text \<open>
  The loop of \<^verbatim>\<open>HeartBeat\<close> calls, each with a context of its own: the call is repeated while the new server is unavailable
  or has not exposed its services; \<open>None\<close> when that has happened \<open>fuel\<close> times.
\<close>

fun rpc_retry :: "nat \<Rightarrow> (nat \<Rightarrow> rpc_status) \<Rightarrow> master_call \<Rightarrow> master_state \<Rightarrow> (rpc_status \<times> master_state) option" where
  "rpc_retry 0 env c m = None"
| "rpc_retry (Suc fuel) env c m =
     (let (result, m) = rpc env c m
      in if result = UNAVAILABLE \<or> result = UNIMPLEMENTED then rpc_retry fuel env c m else Some (result, m))"

text \<open>
  \<^verbatim>\<open>Register\<close>: \<open>None\<close> is a call that waits, for the mutex or for an answer. On an error the status
  is returned with the mutex still locked (\<open>Refused\<close>). The reply is the address of the old tail, if there is one. The
  loop around \<^verbatim>\<open>ChangeMode\<close> uses one context for all its calls. gRPC allows a context to be used for one call only,
  so a second round of that loop is undefined; \<open>Context_reused\<close> is the state in which the code enters it.
\<close>

datatype register_result = Registered "server_ip option" | Refused rpc_status | Context_reused

definition add_node :: "nat \<Rightarrow> node_state \<Rightarrow> master_state \<Rightarrow> master_state" where
  "add_node new old_tail_state m =
     (let m = m\<lparr>nodeList := nodeList m @ [new]\<rparr>;
          m = (if length (nodeList m) = 1 then (set_state new SINGLE m)\<lparr>head := Some new\<rparr>
               else set_state new TAIL (case tail m of Some t \<Rightarrow> set_state t old_tail_state m | None \<Rightarrow> m))
      in m\<lparr>tail := Some new\<rparr>)"

definition Register ::
  "nat \<Rightarrow> (nat \<Rightarrow> rpc_status) \<Rightarrow> register_request \<Rightarrow> master_state \<Rightarrow>
     (register_result \<times> master_state) option" where
  "Register fuel env request m =
     (if reg_locked m then None
      else
        (let new = next_node m;
             m = m\<lparr>reg_locked := True, next_node := new + 1, nodes := (nodes m)(new :=
               \<lparr>mn_ip = si_ip (reg_ip request), mn_port = si_port (reg_ip request), mn_state = INITIALIZE\<rparr>)\<rparr>
         in case rpc_retry fuel env (HeartBeat_call new) m of
              None \<Rightarrow> None
            | Some (result, m) \<Rightarrow>
                if result \<noteq> OK then Some (Refused result, m)
                else
                  (let old_tail_state = (if tail m = head m then HEAD else MIDDLE)
                   in case nodeList m of
                        [] \<Rightarrow> Some (Registered None, (add_node new old_tail_state m)\<lparr>reg_locked := False\<rparr>)
                      | _ # _ \<Rightarrow>
                          (case tail m of
                             None \<Rightarrow> None
                           | Some t \<Rightarrow>
                               (let (result, m) = rpc env (ChangeMode_call t
                                  \<lparr>prev_addr = None, next_addr = Some (address_of (nodes m new)),
                                   new_state = int_of_state old_tail_state, last_seq_num = reg_last_seq_num request\<rparr>) m
                                in case result of
                                     OK \<Rightarrow> Some (Registered (Some (address_of (nodes m t))),
                                             (add_node new old_tail_state m)\<lparr>reg_locked := False\<rparr>)
                                   | OTHER_ERROR \<Rightarrow> Some (Refused result, m)
                                   | _ \<Rightarrow> Some (Context_reused, m))))))"

section \<open>Configuration for clients\<close>

definition head_port :: int where "head_port = 1000"
definition tail_port :: int where "tail_port = 2000"

text \<open>The reply's head and tail; the branch without a tail overwrites the head.\<close>

definition GetConfig :: "master_state \<Rightarrow> server_ip \<times> server_ip" where
  "GetConfig m =
     (let reply_head = (case head m of
            None \<Rightarrow> \<lparr>si_ip = ''localhost'', si_port = - 1\<rparr>
          | Some h \<Rightarrow> \<lparr>si_ip = mn_ip (nodes m h), si_port = to_int32 (mn_port (nodes m h) + head_port)\<rparr>);
          reply_tail = \<lparr>si_ip = '''', si_port = 0\<rparr>
      in case tail m of
           None \<Rightarrow> (\<lparr>si_ip = ''localhost'', si_port = - 1\<rparr>, reply_tail)
         | Some t \<Rightarrow> (reply_head, \<lparr>si_ip = mn_ip (nodes m t), si_port = to_int32 (mn_port (nodes m t) + tail_port)\<rparr>))"

end
