(* ===== verification/Master_Inv.thy ===== *)
theory Master_Inv
  imports Master
begin

text \<open>
  The master's view of the chain: the list of servers, the pointers to its ends and the states in
  it fit together, and registration and the handling of failures keep them so.
\<close>

section \<open>The invariant\<close>

definition master_inv :: "master_state \<Rightarrow> bool" where
  "master_inv m \<longleftrightarrow> distinct (nodeList m) \<and> (\<forall>x \<in> set (nodeList m). x < next_node m) \<and>
     (nodeList m \<noteq> [] \<longrightarrow> head m = Some (hd (nodeList m)) \<and> tail m = Some (last (nodeList m))) \<and>
     map (\<lambda>x. mn_state (nodes m x)) (nodeList m) = chain_states (length (nodeList m))"

lemma master_inv_state:
  assumes "master_inv m" and "i < length (nodeList m)"
  shows "mn_state (nodes m (nodeList m ! i)) = state_at (length (nodeList m)) i"
proof -
  have "map (\<lambda>x. mn_state (nodes m x)) (nodeList m) ! i = chain_states (length (nodeList m)) ! i"
    using assms(1) by (simp add: master_inv_def)
  then show ?thesis using assms(2) by (simp add: chain_states_def)
qed

lemma master_invI:
  assumes "distinct (nodeList m)" and "\<And>x. x \<in> set (nodeList m) \<Longrightarrow> x < next_node m"
    and "nodeList m \<noteq> [] \<Longrightarrow> head m = Some (hd (nodeList m)) \<and> tail m = Some (last (nodeList m))"
    and "\<And>i. i < length (nodeList m) \<Longrightarrow> mn_state (nodes m (nodeList m ! i)) = state_at (length (nodeList m)) i"
  shows "master_inv m"
proof -
  have "map (\<lambda>x. mn_state (nodes m x)) (nodeList m) = chain_states (length (nodeList m))"
    by (rule nth_equalityI) (use assms(4) in \<open>simp_all add: chain_states_def\<close>)
  then show ?thesis using assms(1-3) unfolding master_inv_def by blast
qed

lemma master_inv_sent [simp]: "master_inv (m\<lparr>sent := s\<rparr>) = master_inv m"
  "master_inv (m\<lparr>reg_locked := r\<rparr>) = master_inv m"
  by (simp_all add: master_inv_def)

section \<open>Removing a stretch of the list\<close>

lemma set_segment:
  assumes "b \<le> length L"
  shows "set (take (b - a) (drop a L)) = (!) L ` {a..<b}"
proof -
  have "set (take (b - a) (drop a L)) = (!) (drop a L) ` {0..<b - a}"
    by (rule nth_image [symmetric]) (use assms in simp)
  also have "\<dots> = (\<lambda>i. L ! (a + i)) ` {0..<b - a}"
    using assms by (intro image_cong) simp_all
  also have "\<dots> = (!) L ` {a..<b}"
  proof -
    have "(+) a ` {0..<b - a} = {a..<b}" if "a \<le> b" using that by simp
    then show ?thesis by (cases "a \<le> b") (simp_all add: image_image [symmetric, of "(!) L" "(+) a"])
  qed
  finally show ?thesis .
qed

lemma filter_segment:
  assumes "distinct L" and "a \<le> b" "b \<le> length L" and "set ds = (!) L ` {a..<b}"
  shows "filter (\<lambda>x. x \<notin> set ds) L = take a L @ drop b L"
proof -
  let ?B = "take (b - a) (drop a L)"
  have L: "L = take a L @ ?B @ drop b L"
    using assms(2) append_take_drop_id [of "b - a" "drop a L"] by (simp add: drop_drop)
  have dist: "distinct (take a L @ ?B @ drop b L)" using assms(1) L by simp
  have "filter (\<lambda>x. x \<notin> set ds) L = filter (\<lambda>x. x \<notin> set ?B) (take a L @ ?B @ drop b L)"
    using L set_segment [OF assms(3), of a] assms(4) by simp
  also have "\<dots> = take a L @ drop b L"
  proof -
    have "filter (\<lambda>x. x \<notin> set ?B) (take a L) = take a L" "filter (\<lambda>x. x \<notin> set ?B) (drop b L) = drop b L"
      using dist by (intro filter_True; auto)+
    moreover have "filter (\<lambda>x. x \<notin> set ?B) ?B = []" by (simp add: filter_empty_conv)
    ultimately show ?thesis by simp
  qed
  finally show ?thesis .
qed

section \<open>Failed ends of the chain\<close>

definition promote :: "node_state \<Rightarrow> node_state \<Rightarrow> nat \<Rightarrow> master_state \<Rightarrow> master_state" where
  "promote st new x m = (let m = set_state x new m in if st = HEAD then m\<lparr>head := Some x\<rparr> else m\<lparr>tail := Some x\<rparr>)"

lemma endpoint_failure_result:
  assumes "rest \<noteq> []" and "distinct rest" and "endpoint = Some (last rest)"
  shows "\<exists>k s. k \<le> length rest \<and> endpoint_failure env st endpoint rest ds m = Some (ds @ take k rest,
    if k < length rest then promote st (if k + 1 = length rest then SINGLE else st) (rest ! k) (m\<lparr>sent := s\<rparr>)
    else m\<lparr>sent := s\<rparr>)"
  using assms
proof (induction rest arbitrary: ds m)
  case (Cons x xs)
  show ?case
  proof (cases "fst (rpc env (ChangeMode_call x \<lparr>prev_addr = None, next_addr = None,
      new_state = int_of_state (if Some x \<noteq> endpoint then st else SINGLE), last_seq_num = 0\<rparr>) m) = OK")
    case True
    have "Some x \<noteq> endpoint \<longleftrightarrow> xs \<noteq> []" using Cons.prems by auto
    then show ?thesis using True
      by (intro exI [of _ "0 :: nat"], intro exI [of _ "sent m @ [ChangeMode_call x \<lparr>prev_addr = None, next_addr = None,
          new_state = int_of_state (if Some x \<noteq> endpoint then st else SINGLE), last_seq_num = 0\<rparr>]"])
         (cases "xs = []"; simp add: rpc_def promote_def Let_def)
  next
    case False
    show ?thesis
    proof (cases "xs = []")
      case True
      with False Cons.prems show ?thesis
        by (intro exI [of _ "1 :: nat"] exI) (auto simp: rpc_def Let_def)
    next
      case xs: False
      have ne: "Some x \<noteq> endpoint" using Cons.prems xs by auto
      define m1 where "m1 = snd (rpc env (ChangeMode_call x \<lparr>prev_addr = None, next_addr = None,
        new_state = int_of_state st, last_seq_num = 0\<rparr>) m)"
      have step: "endpoint_failure env st endpoint (x # xs) ds m = endpoint_failure env st endpoint xs (ds @ [x]) m1"
        using False ne by (simp add: rpc_def m1_def Let_def)
      obtain k s where k: "k \<le> length xs" "endpoint_failure env st endpoint xs (ds @ [x]) m1 = Some ((ds @ [x]) @ take k xs,
          if k < length xs then promote st (if k + 1 = length xs then SINGLE else st) (xs ! k) (m1\<lparr>sent := s\<rparr>)
          else m1\<lparr>sent := s\<rparr>)"
        using Cons.IH [OF xs, of "ds @ [x]" m1] Cons.prems xs by auto
      have "m1\<lparr>sent := s\<rparr> = m\<lparr>sent := s\<rparr>" by (simp add: m1_def rpc_def)
      with k step show ?thesis by (intro exI [of _ "Suc k"] exI [of _ s]) simp
    qed
  qed
qed simp

lemma promote_fields [simp]:
  "nodeList (promote st new x m) = nodeList m" "next_node (promote st new x m) = next_node m"
  "nodes (promote st new x m) = (nodes m)(x := (nodes m x)\<lparr>mn_state := new\<rparr>)"
  "head (promote st new x m) = (if st = HEAD then Some x else head m)"
  "tail (promote st new x m) = (if st = HEAD then tail m else Some x)"
  by (simp_all add: promote_def set_state_def Let_def)

text \<open>What every handled failure leaves: a well-formed list without the failed node.\<close>

definition recovered :: "master_state \<Rightarrow> nat \<Rightarrow> master_state \<Rightarrow> bool" where
  "recovered m i m' \<longleftrightarrow> master_inv m' \<and> set (nodeList m') \<subseteq> set (nodeList m) \<and> nodeList m ! i \<notin> set (nodeList m')"

text \<open>
  Removing the positions from \<open>a\<close> to \<open>b\<close>, after the state \<open>m\<close> has changed to \<open>M\<close>, gives a well-formed list
  if the pointers and states in \<open>M\<close> fit it.
\<close>

lemma remove_segment_inv:
  assumes inv: "master_inv m" and ab: "a \<le> i" "i < b" "b \<le> length (nodeList m)"
    and ds: "set ds = (!) (nodeList m) ` {a..<b}"
    and M: "nodeList M = nodeList m" "next_node M = next_node m"
    and ends: "take a (nodeList m) @ drop b (nodeList m) \<noteq> [] \<Longrightarrow>
      head M = Some (hd (take a (nodeList m) @ drop b (nodeList m))) \<and>
      tail M = Some (last (take a (nodeList m) @ drop b (nodeList m)))"
    and states: "\<And>j. j < a + (length (nodeList m) - b) \<Longrightarrow>
      mn_state (nodes M ((take a (nodeList m) @ drop b (nodeList m)) ! j)) = state_at (a + (length (nodeList m) - b)) j"
  shows "recovered m i (remove_nodes ds M)"
proof -
  let ?L = "nodeList m"
  have d: "distinct ?L" using inv by (simp add: master_inv_def)
  have l: "nodeList (remove_nodes ds M) = take a ?L @ drop b ?L"
    using filter_segment [OF d _ ab(3) ds] ab M(1) by (simp add: remove_nodes_def)
  have len: "length (take a ?L @ drop b ?L) = a + (length ?L - b)" using ab by simp
  have sub: "set (take a ?L @ drop b ?L) \<subseteq> set ?L" using set_take_subset set_drop_subset by fastforce
  have "master_inv (remove_nodes ds M)"
  proof (rule master_invI)
    show "distinct (nodeList (remove_nodes ds M))" using d M(1) by (simp add: remove_nodes_def)
    show "x < next_node (remove_nodes ds M)" if "x \<in> set (nodeList (remove_nodes ds M))" for x
      using that inv sub M(2) unfolding l by (auto simp: master_inv_def remove_nodes_def)
    show "head (remove_nodes ds M) = Some (hd (nodeList (remove_nodes ds M))) \<and>
        tail (remove_nodes ds M) = Some (last (nodeList (remove_nodes ds M)))" if "nodeList (remove_nodes ds M) \<noteq> []"
      using that ends unfolding l by (simp add: remove_nodes_def)
    show "mn_state (nodes (remove_nodes ds M) (nodeList (remove_nodes ds M) ! j)) =
        state_at (length (nodeList (remove_nodes ds M))) j" if "j < length (nodeList (remove_nodes ds M))" for j
      using that states unfolding l len by (simp add: remove_nodes_def)
  qed
  moreover have "?L ! i \<in> set ds" using ds ab by simp
  then have "?L ! i \<notin> set (nodeList (remove_nodes ds M))" by (simp add: remove_nodes_def)
  ultimately show ?thesis using sub l by (simp add: recovered_def)
qed

lemma head_failure:
  assumes inv: "master_inv m" and n: "1 < length (nodeList m)"
  shows "\<exists>ds m'. endpoint_failure env HEAD (tail m) (drop 1 (nodeList m)) [nodeList m ! 0] m = Some (ds, m') \<and>
    recovered m 0 (remove_nodes ds m')"
proof -
  let ?L = "nodeList m" let ?rest = "drop 1 ?L"
  have L: "distinct ?L" "tail m = Some (last ?L)" using inv n by (auto simp: master_inv_def)
  have r: "?rest \<noteq> []" "distinct ?rest" "tail m = Some (last ?rest)" using n L by auto
  obtain k s where k: "k \<le> length ?rest" "endpoint_failure env HEAD (tail m) ?rest [?L ! 0] m = Some ([?L ! 0] @ take k ?rest,
      if k < length ?rest then promote HEAD (if k + 1 = length ?rest then SINGLE else HEAD) (?rest ! k) (m\<lparr>sent := s\<rparr>)
      else m\<lparr>sent := s\<rparr>)"
    using endpoint_failure_result [OF r] by blast
  define M where "M = (if k < length ?rest then promote HEAD (if k + 1 = length ?rest then SINGLE else HEAD) (?rest ! k) (m\<lparr>sent := s\<rparr>)
      else m\<lparr>sent := s\<rparr>)"
  have ds: "set ([?L ! 0] @ take k ?rest) = (!) ?L ` {0..<k + 1}"
  proof -
    have "set (take k ?rest) = (!) ?L ` {1..<k + 1}" using set_segment [of "k + 1" ?L 1] k(1) n by simp
    moreover have "{0..<k + 1} = insert 0 {1..<k + 1}" by auto
    ultimately show ?thesis by simp
  qed
  have "recovered m 0 (remove_nodes ([?L ! 0] @ take k ?rest) M)"
  proof (rule remove_segment_inv [OF inv _ _ _ ds])
    show "k + 1 \<le> length ?L" using k(1) n by simp
    show "head M = Some (hd (take 0 ?L @ drop (k + 1) ?L)) \<and> tail M = Some (last (take 0 ?L @ drop (k + 1) ?L))"
      if "take 0 ?L @ drop (k + 1) ?L \<noteq> []"
      using that L(2) by (auto simp: M_def hd_drop_conv_nth)
    show "mn_state (nodes M ((take 0 ?L @ drop (k + 1) ?L) ! j)) = state_at (0 + (length ?L - (k + 1))) j"
      if "j < 0 + (length ?L - (k + 1))" for j
    proof -
      have j: "k + 1 + j < length ?L" using that by simp
      have "?L ! (k + 1 + j) \<noteq> ?L ! (k + 1)" if "j \<noteq> 0" using that j L(1) by (simp add: nth_eq_iff_index_eq)
      then show ?thesis using j master_inv_state [OF inv j] by (cases "j = 0") (auto simp: M_def state_at_def)
    qed
  qed (simp_all add: M_def)
  then show ?thesis using k(2) unfolding M_def by blast
qed

lemma tail_failure:
  assumes inv: "master_inv m" and n: "length (nodeList m) = i + 1" "0 < i"
  shows "\<exists>ds m'. endpoint_failure env TAIL (head m) (rev (take i (nodeList m))) [nodeList m ! i] m = Some (ds, m') \<and>
    recovered m i (remove_nodes ds m')"
proof -
  let ?L = "nodeList m" let ?rest = "rev (take i ?L)"
  have L: "distinct ?L" "head m = Some (hd ?L)" using inv n by (auto simp: master_inv_def)
  have len: "length ?rest = i" using n by simp
  have r: "?rest \<noteq> []" "distinct ?rest" "head m = Some (last ?rest)" using n L by (auto simp: last_rev hd_take)
  obtain k s where k: "k \<le> length ?rest" "endpoint_failure env TAIL (head m) ?rest [?L ! i] m = Some ([?L ! i] @ take k ?rest,
      if k < length ?rest then promote TAIL (if k + 1 = length ?rest then SINGLE else TAIL) (?rest ! k) (m\<lparr>sent := s\<rparr>)
      else m\<lparr>sent := s\<rparr>)"
    using endpoint_failure_result [OF r] by blast
  define M where "M = (if k < length ?rest then promote TAIL (if k + 1 = length ?rest then SINGLE else TAIL) (?rest ! k) (m\<lparr>sent := s\<rparr>)
      else m\<lparr>sent := s\<rparr>)"
  have ds: "set ([?L ! i] @ take k ?rest) = (!) ?L ` {i - k..<i + 1}"
  proof -
    have "take k ?rest = rev (take (i - (i - k)) (drop (i - k) ?L))" using n k(1) by (simp add: take_rev drop_take)
    then have "set (take k ?rest) = (!) ?L ` {i - k..<i}" using set_segment [of i ?L "i - k"] n by simp
    moreover have "{i - k..<i + 1} = insert i {i - k..<i}" by auto
    ultimately show ?thesis by simp
  qed
  have nth: "?rest ! k = ?L ! (i - k - 1)" if "k < i" using that n by (simp add: rev_nth)
  have "recovered m i (remove_nodes ([?L ! i] @ take k ?rest) M)"
  proof (rule remove_segment_inv [OF inv _ _ _ ds])
    show "i + 1 \<le> length ?L" using n by simp
    show "head M = Some (hd (take (i - k) ?L @ drop (i + 1) ?L)) \<and> tail M = Some (last (take (i - k) ?L @ drop (i + 1) ?L))"
      if "take (i - k) ?L @ drop (i + 1) ?L \<noteq> []"
      using that L(2) n nth by (auto simp: M_def last_conv_nth hd_take)
    show "mn_state (nodes M ((take (i - k) ?L @ drop (i + 1) ?L) ! j)) = state_at (i - k + (length ?L - (i + 1))) j"
      if "j < i - k + (length ?L - (i + 1))" for j
    proof -
      have j: "j < i - k" "j < length ?L" "k < i" using that n by simp_all
      have "?L ! j \<noteq> ?L ! (i - k - 1)" if "j \<noteq> i - k - 1" using that j n L(1) by (simp add: nth_eq_iff_index_eq)
      then show ?thesis using j n nth master_inv_state [OF inv j(2)] by (cases "j = i - k - 1") (auto simp: M_def state_at_def)
    qed
  qed (use n in \<open>simp_all add: M_def\<close>)
  then show ?thesis using k(2) unfolding M_def by blast
qed

section \<open>Failed middle nodes\<close>

lemma find_alive_result:
  assumes "ps \<noteq> []" and "distinct ps" and "\<forall>p \<in> set ps. p < length copy" and "distinct copy"
    and "endpoint = Some (copy ! last ps)"
  shows "\<exists>s. (\<exists>k < length ps. find_alive env copy endpoint ps ds m =
        Some (Inr (copy ! (ps ! k)), ds @ map ((!) copy) (take k ps), m\<lparr>sent := s\<rparr>)) \<or>
      (\<exists>ds'. find_alive env copy endpoint ps ds m = Some (Inl (last ps), ds', m\<lparr>sent := s\<rparr>))"
  using assms
proof (induction ps arbitrary: ds m)
  case (Cons p ps)
  have end_iff: "Some (copy ! p) = endpoint \<longleftrightarrow> ps = []"
    using Cons.prems by (auto simp: nth_eq_iff_index_eq last_in_set)
  let ?m = "snd (rpc env (HeartBeat_call (copy ! p)) m)"
  show ?case
  proof (cases "fst (rpc env (HeartBeat_call (copy ! p)) m) = OK")
    case True
    then have "find_alive env copy endpoint (p # ps) ds m =
        Some (Inr (copy ! p), ds, m\<lparr>sent := sent m @ [HeartBeat_call (copy ! p)]\<rparr>)"
      by (simp add: rpc_def Let_def)
    then show ?thesis by (intro exI [of _ "sent m @ [HeartBeat_call (copy ! p)]"] disjI1 exI [of _ 0]) simp
  next
    case False
    show ?thesis
    proof (cases "ps = []")
      case True
      with False end_iff show ?thesis by (auto simp: rpc_def Let_def)
    next
      case ps: False
      have step: "find_alive env copy endpoint (p # ps) ds m = find_alive env copy endpoint ps (ds @ [copy ! p]) ?m"
        using False end_iff ps by (simp add: rpc_def Let_def)
      have m: "?m\<lparr>sent := s\<rparr> = m\<lparr>sent := s\<rparr>" for s by (simp add: rpc_def)
      have "\<exists>s. (\<exists>k < length ps. find_alive env copy endpoint ps (ds @ [copy ! p]) ?m =
            Some (Inr (copy ! (ps ! k)), (ds @ [copy ! p]) @ map ((!) copy) (take k ps), ?m\<lparr>sent := s\<rparr>)) \<or>
          (\<exists>ds'. find_alive env copy endpoint ps (ds @ [copy ! p]) ?m = Some (Inl (last ps), ds', ?m\<lparr>sent := s\<rparr>))"
        by (rule Cons.IH [OF ps]) (use Cons.prems ps in auto)
      then obtain s where "(\<exists>k < length ps. find_alive env copy endpoint ps (ds @ [copy ! p]) ?m =
            Some (Inr (copy ! (ps ! k)), (ds @ [copy ! p]) @ map ((!) copy) (take k ps), m\<lparr>sent := s\<rparr>)) \<or>
          (\<exists>ds'. find_alive env copy endpoint ps (ds @ [copy ! p]) ?m = Some (Inl (last ps), ds', m\<lparr>sent := s\<rparr>))"
        unfolding m by blast
      then show ?thesis
      proof (elim disjE)
        assume "\<exists>k < length ps. find_alive env copy endpoint ps (ds @ [copy ! p]) ?m =
            Some (Inr (copy ! (ps ! k)), (ds @ [copy ! p]) @ map ((!) copy) (take k ps), m\<lparr>sent := s\<rparr>)"
        then obtain k where k: "k < length ps" "find_alive env copy endpoint ps (ds @ [copy ! p]) ?m =
            Some (Inr (copy ! (ps ! k)), (ds @ [copy ! p]) @ map ((!) copy) (take k ps), m\<lparr>sent := s\<rparr>)" by blast
        show ?thesis unfolding step k(2) using k(1)
          by (intro exI [of _ s] disjI1 exI [of _ "Suc k"]) simp
      next
        assume "\<exists>ds'. find_alive env copy endpoint ps (ds @ [copy ! p]) ?m = Some (Inl (last ps), ds', m\<lparr>sent := s\<rparr>)"
        then show ?thesis unfolding step using ps by auto
      qed
    qed
  qed
qed simp

lemma connect_neighbours_sent:
  "\<exists>c s. connect_neighbours env seqs down up m = (c, m\<lparr>sent := s\<rparr>)"
  unfolding connect_neighbours_def rpc_def Let_def by auto

lemma middle_removed:
  assumes inv: "master_inv m" and i: "k2 < i" "i + 1 + k1 < length (nodeList m)"
    and ds: "ds = ([nodeList m ! i] @ map ((!) (nodeList m)) (take k1 [i + 1..<length (nodeList m)])) @
      map ((!) (nodeList m)) (take k2 (rev [0..<i]))"
  shows "recovered m i (remove_nodes ds (m\<lparr>sent := s\<rparr>))"
proof (rule remove_segment_inv [OF inv, of "i - k2" i "i + 1 + k1"])
  let ?L = "nodeList m"
  have "set (take k1 [i + 1..<length ?L]) = {i + 1..<i + 1 + k1}" using i by (simp add: take_upt del: upt_Suc)
  moreover have "set (take k2 (rev [0..<i])) = {i - k2..<i}" using i by (simp add: take_rev drop_upt)
  moreover have "{i - k2..<i + 1 + k1} = insert i ({i + 1..<i + 1 + k1} \<union> {i - k2..<i})" by auto
  moreover have "set ds = insert (?L ! i) ((!) ?L ` set (take k1 [i + 1..<length ?L]) \<union> (!) ?L ` set (take k2 (rev [0..<i])))"
    by (simp add: ds)
  ultimately show "set ds = (!) ?L ` {i - k2..<i + 1 + k1}" by (simp only: image_Un image_insert)
  have L: "head m = Some (hd ?L)" "tail m = Some (last ?L)" using inv i by (auto simp: master_inv_def)
  show "head (m\<lparr>sent := s\<rparr>) = Some (hd (take (i - k2) ?L @ drop (i + 1 + k1) ?L)) \<and>
      tail (m\<lparr>sent := s\<rparr>) = Some (last (take (i - k2) ?L @ drop (i + 1 + k1) ?L))"
    using L i by (auto simp: hd_append hd_take)
  show "mn_state (nodes (m\<lparr>sent := s\<rparr>) ((take (i - k2) ?L @ drop (i + 1 + k1) ?L) ! j)) =
      state_at (i - k2 + (length ?L - (i + 1 + k1))) j" if "j < i - k2 + (length ?L - (i + 1 + k1))" for j
  proof (cases "j < i - k2")
    case True
    have "j + 1 \<noteq> i - k2 + (length ?L - (i + 1 + k1))" "i - k2 + (length ?L - (i + 1 + k1)) \<noteq> 1" "j < length ?L"
      "j + 1 \<noteq> length ?L" "length ?L \<noteq> 1"
      using True i by linarith+
    then show ?thesis using True i master_inv_state [OF inv, of j] by (simp only: state_at_def) (simp add: nth_append)
  next
    case False
    let ?p = "i + 1 + k1 + (j - (i - k2))"
    have p: "?p < length ?L" "length (take (i - k2) ?L) = i - k2" using that False i by simp_all
    have nth: "(take (i - k2) ?L @ drop (i + 1 + k1) ?L) ! j = ?L ! ?p"
      using False p i by (simp add: nth_append del: length_take)
    show ?thesis unfolding nth using that False i master_inv_state [OF inv p(1)] by (auto simp: state_at_def)
  qed
qed (use i in simp_all)

text \<open>Every failure is handled with one level of recursion at most.\<close>

definition handled :: "master_state \<Rightarrow> nat \<Rightarrow> int \<times> master_state \<Rightarrow> bool" where
  "handled m i r \<longleftrightarrow> master_inv (snd r) \<and> set (nodeList (snd r)) \<subseteq> set (nodeList m) \<and>
     (fst r = 0 \<longrightarrow> nodeList m ! i \<notin> set (nodeList (snd r)))"

declare hlp_Manage_Failure.simps(2) [simp del]

lemmas manage_unfold = hlp_Manage_Failure.simps(2)

lemma handled_endpoint:
  assumes inv: "master_inv m" and i: "i < length (nodeList m)" and st: "i = 0 \<or> i + 1 = length (nodeList m)"
  shows "\<exists>r. hlp_Manage_Failure (Suc fuel) env seqs (nodeList m) i m = Some r \<and> handled m i r"
proof -
  note s = master_inv_state [OF inv i]
  consider "length (nodeList m) = 1" | "i = 0" "1 < length (nodeList m)" | "0 < i" "length (nodeList m) = i + 1"
    using i st by linarith
  then show ?thesis
  proof cases
    case 1
    then have "mn_state (nodes m (nodeList m ! i)) = SINGLE" "i = 0" using s i by (simp_all add: state_at_def)
    moreover have "recovered m 0 (remove_nodes [nodeList m ! 0] m)"
      by (rule remove_segment_inv [OF inv, of 0 0 1]) (use 1 in simp_all)
    ultimately show ?thesis by (auto simp: manage_unfold recovered_def handled_def)
  next
    case 2
    then have st: "mn_state (nodes m (nodeList m ! i)) = HEAD" using s by (simp add: state_at_def)
    obtain ds m' where "endpoint_failure env HEAD (tail m) (drop 1 (nodeList m)) [nodeList m ! 0] m = Some (ds, m')"
      and "recovered m 0 (remove_nodes ds m')" using head_failure [OF inv 2(2)] by blast
    then show ?thesis using st 2(1) by (auto simp: manage_unfold recovered_def handled_def)
  next
    case 3
    then have st: "mn_state (nodes m (nodeList m ! i)) = TAIL" using s by (simp add: state_at_def)
    obtain ds m' where "endpoint_failure env TAIL (head m) (rev (take i (nodeList m))) [nodeList m ! i] m = Some (ds, m')"
      and "recovered m i (remove_nodes ds m')" using tail_failure [OF inv 3(2,1)] by blast
    then show ?thesis using st by (auto simp: manage_unfold recovered_def handled_def)
  qed
qed

lemma handled_dead_end:
  assumes inv: "master_inv m" and p: "p < length (nodeList m)" "p = 0 \<or> p + 1 = length (nodeList m)"
  shows "\<exists>m'. hlp_Manage_Failure (Suc fuel) env seqs (nodeList m) p (m\<lparr>sent := s\<rparr>) = Some m' \<and>
    handled m i (- 1, snd m')"
  using handled_endpoint [of "m\<lparr>sent := s\<rparr>" p fuel env seqs] assms by (auto simp: handled_def)

lemma handled_middle:
  assumes inv: "master_inv m" and i: "0 < i" "i + 1 < length (nodeList m)"
  shows "\<exists>r. hlp_Manage_Failure (Suc (Suc fuel)) env seqs (nodeList m) i m = Some r \<and> handled m i r"
proof -
  let ?L = "nodeList m" and ?down = "find_alive env (nodeList m) (tail m) [i + 1..<length (nodeList m)] [nodeList m ! i] m"
  have st: "mn_state (nodes m (?L ! i)) = MIDDLE" using master_inv_state [OF inv, of i] i by (simp add: state_at_def)
  have L: "distinct ?L" "head m = Some (?L ! 0)" "tail m = Some (?L ! (length ?L - 1))"
    using inv i by (auto simp: master_inv_def hd_conv_nth last_conv_nth)
  have up0: "last (rev [0..<i]) = 0" "last [i + 1..<length ?L] = length ?L - 1" using i by (simp_all add: last_rev)
  have lt: "k < length [i + 1..<length ?L] \<longleftrightarrow> i + 1 + k < length ?L" for k by auto
  have "\<exists>s. (\<exists>k < length [i + 1..<length ?L]. ?down = Some (Inr (?L ! ([i + 1..<length ?L] ! k)),
        [?L ! i] @ map ((!) ?L) (take k [i + 1..<length ?L]), m\<lparr>sent := s\<rparr>)) \<or>
      (\<exists>ds'. ?down = Some (Inl (last [i + 1..<length ?L]), ds', m\<lparr>sent := s\<rparr>))"
    by (rule find_alive_result) (use i L up0 in auto)
  then obtain s where "(\<exists>k < length [i + 1..<length ?L]. ?down = Some (Inr (?L ! ([i + 1..<length ?L] ! k)),
        [?L ! i] @ map ((!) ?L) (take k [i + 1..<length ?L]), m\<lparr>sent := s\<rparr>)) \<or>
      (\<exists>ds'. ?down = Some (Inl (last [i + 1..<length ?L]), ds', m\<lparr>sent := s\<rparr>))" ..
  then consider (dead) ds' where "?down = Some (Inl (length ?L - 1), ds', m\<lparr>sent := s\<rparr>)"
    | (alive) d k1 where "i + 1 + k1 < length ?L" "?down = Some (Inr d,
        [?L ! i] @ map ((!) ?L) (take k1 [i + 1..<length ?L]), m\<lparr>sent := s\<rparr>)"
    unfolding up0 lt by blast
  then show ?thesis
  proof cases
    case dead
    have p: "length ?L - 1 < length ?L" "length ?L - 1 = 0 \<or> length ?L - 1 + 1 = length ?L" using i by simp_all
    obtain r where "hlp_Manage_Failure (Suc fuel) env seqs ?L (length ?L - 1) (m\<lparr>sent := s\<rparr>) = Some r"
      "handled m i (- 1, snd r)"
      using handled_dead_end [OF inv p] by blast
    then show ?thesis using st dead by (cases r) (auto simp: manage_unfold [of "Suc fuel"])
  next
    case alive
    define ds where "ds = [?L ! i] @ map ((!) ?L) (take k1 [i + 1..<length ?L])"
    let ?m = "m\<lparr>sent := s\<rparr>"
    have m2: "?m\<lparr>sent := s'\<rparr> = m\<lparr>sent := s'\<rparr>" for s' by simp
    let ?up = "find_alive env ?L (head m) (rev [0..<i]) ds ?m"
    have "\<exists>s'. (\<exists>k < length (rev [0..<i]). ?up = Some (Inr (?L ! (rev [0..<i] ! k)),
          ds @ map ((!) ?L) (take k (rev [0..<i])), ?m\<lparr>sent := s'\<rparr>)) \<or>
        (\<exists>ds'. ?up = Some (Inl (last (rev [0..<i])), ds', ?m\<lparr>sent := s'\<rparr>))"
      by (rule find_alive_result) (use i L up0 in auto)
    then obtain s' where "(\<exists>k < length (rev [0..<i]). ?up = Some (Inr (?L ! (rev [0..<i] ! k)),
          ds @ map ((!) ?L) (take k (rev [0..<i])), ?m\<lparr>sent := s'\<rparr>)) \<or>
        (\<exists>ds'. ?up = Some (Inl (last (rev [0..<i])), ds', ?m\<lparr>sent := s'\<rparr>))" ..
    then consider (dead') ds' where "?up = Some (Inl 0, ds', m\<lparr>sent := s'\<rparr>)"
      | (both) u k2 where "k2 < i" "?up = Some (Inr u, ds @ map ((!) ?L) (take k2 (rev [0..<i])), m\<lparr>sent := s'\<rparr>)"
      unfolding up0 length_rev length_upt diff_zero m2 by blast
    then show ?thesis
    proof cases
      case dead'
      have p: "0 < length ?L" using i by linarith
      obtain r where "hlp_Manage_Failure (Suc fuel) env seqs ?L 0 (m\<lparr>sent := s'\<rparr>) = Some r" "handled m i (- 1, snd r)"
        using handled_dead_end [OF inv p] by blast
      then show ?thesis using st alive(2) dead' by (cases r) (auto simp: manage_unfold [of "Suc fuel"] ds_def)
    next
      case both
      obtain c s'' where c: "connect_neighbours env seqs d u (m\<lparr>sent := s'\<rparr>) = (c, m\<lparr>sent := s''\<rparr>)"
        using connect_neighbours_sent [of env seqs d u "m\<lparr>sent := s'\<rparr>"] by auto
      have "recovered m i (remove_nodes (ds @ map ((!) ?L) (take k2 (rev [0..<i]))) (m\<lparr>sent := s''\<rparr>))"
        by (rule middle_removed [OF inv both(1) alive(1)]) (simp add: ds_def)
      then show ?thesis using st alive(2) both(2) c inv
        by (cases c) (auto simp: manage_unfold [of "Suc fuel"] ds_def recovered_def handled_def)
    qed
  qed
qed

lemma failure_handled:
  assumes "master_inv m" and "i < length (nodeList m)"
  shows "\<exists>r. hlp_Manage_Failure 2 env seqs (nodeList m) i m = Some r \<and> handled m i r"
proof (cases "i = 0 \<or> i + 1 = length (nodeList m)")
  case True
  then show ?thesis using handled_endpoint [OF assms, of 1] by (simp add: numeral_2_eq_2)
next
  case False
  then show ?thesis using handled_middle [OF assms(1), of i 0] assms(2) by (simp add: numeral_2_eq_2)
qed

section \<open>Heartbeats\<close>

lemma heartbeat_round_ok:
  assumes "master_inv m" and "\<forall>i \<in> set is. i < length (nodeList m)"
  shows "\<exists>r. heartbeat_round env seqs (nodeList m) is m = Some r \<and>
    (case r of Inl _ \<Rightarrow> True | Inr m' \<Rightarrow> master_inv m' \<and> set (nodeList m') \<subseteq> set (nodeList m))"
  using assms
proof (induction "is" arbitrary: m)
  case (Cons i "is")
  define m1 where "m1 = snd (rpc env (HeartBeat_call (nodeList m ! i)) m)"
  have m1: "master_inv m1" "nodeList m1 = nodeList m" using Cons.prems(1) by (simp_all add: m1_def rpc_def)
  show ?case
  proof (cases "fst (rpc env (HeartBeat_call (nodeList m ! i)) m) = UNAVAILABLE")
    case True
    have i: "i < length (nodeList m1)" using Cons.prems(2) m1(2) by simp
    obtain r where "hlp_Manage_Failure 2 env seqs (nodeList m) i m1 = Some r" "handled m1 i r"
      using failure_handled [OF m1(1) i] unfolding m1(2) by blast
    then show ?thesis using True m1(2)
      by (cases r) (simp add: rpc_def m1_def handled_def Let_def)
  next
    case False
    have "\<exists>r. heartbeat_round env seqs (nodeList m1) is m1 = Some r \<and>
        (case r of Inl _ \<Rightarrow> True | Inr m' \<Rightarrow> master_inv m' \<and> set (nodeList m') \<subseteq> set (nodeList m1))"
      by (rule Cons.IH) (use m1 Cons.prems(2) in simp_all)
    then show ?thesis using False unfolding m1(2)
      by (cases "fst (rpc env (HeartBeat_call (nodeList m ! i)) m) = OTHER_ERROR")
        (auto simp: rpc_def m1_def Let_def)
  qed
qed simp

section \<open>Registration\<close>

lemma rpc_retry_returns:
  assumes "d < fuel" and "env (length (sent m) + d) \<noteq> UNAVAILABLE" "env (length (sent m) + d) \<noteq> UNIMPLEMENTED"
  shows "\<exists>r s. rpc_retry fuel env c m = Some (r, m\<lparr>sent := s\<rparr>) \<and> s \<noteq> [] \<and> r = env (length s - 1) \<and> (r = OK \<or> r = OTHER_ERROR)"
  using assms
proof (induction fuel arbitrary: d m)
  case (Suc fuel)
  show ?case
  proof (cases "env (length (sent m)) = UNAVAILABLE \<or> env (length (sent m)) = UNIMPLEMENTED")
    case True
    then obtain d' where d: "d = Suc d'" using Suc.prems by (cases d) auto
    have "\<exists>r s. rpc_retry fuel env c (m\<lparr>sent := sent m @ [c]\<rparr>) = Some (r, m\<lparr>sent := sent m @ [c]\<rparr>\<lparr>sent := s\<rparr>) \<and>
        s \<noteq> [] \<and> r = env (length s - 1) \<and> (r = OK \<or> r = OTHER_ERROR)"
      by (rule Suc.IH [of d']) (use Suc.prems d in simp_all)
    then show ?thesis using True by (auto simp: rpc_def Let_def)
  next
    case False
    then have "env (length (sent m)) = OK \<or> env (length (sent m)) = OTHER_ERROR" by (cases "env (length (sent m))") simp_all
    then show ?thesis using False by (intro exI [of _ "env (length (sent m))"] exI [of _ "sent m @ [c]"]) (auto simp: rpc_def Let_def)
  qed
qed simp

text \<open>The next call to be answered is among the next \<open>fuel\<close> ones.\<close>

definition answers_within :: "nat \<Rightarrow> (nat \<Rightarrow> rpc_status) \<Rightarrow> nat \<Rightarrow> bool" where
  "answers_within fuel env k \<longleftrightarrow> (\<exists>d < fuel. env (k + d) \<noteq> UNAVAILABLE \<and> env (k + d) \<noteq> UNIMPLEMENTED)"

text \<open>The request the old tail gets when server \<open>new\<close> registers.\<close>

definition join_call :: "register_request \<Rightarrow> nat list \<Rightarrow> master_call" where
  "join_call request L = ChangeMode_call (last L) \<lparr>prev_addr = None, next_addr = Some (reg_ip request),
     new_state = int_of_state (state_at (length L + 1) (length L - 1)), last_seq_num = reg_last_seq_num request\<rparr>"

text \<open>What a registration may come to, seen from the list before it.\<close>

definition register_outcome ::
  "(nat \<Rightarrow> rpc_status) \<Rightarrow> register_request \<Rightarrow> master_state \<Rightarrow> register_result \<Rightarrow> master_state \<Rightarrow> bool" where
  "register_outcome env request m r m' \<longleftrightarrow>
     (let told = (nodeList m \<noteq> [] \<and> last (sent m') = join_call request (nodeList m));
          status = env (length (sent m') - 1)
      in case r of
           Registered prev \<Rightarrow> nodeList m' = nodeList m @ [next_node m] \<and> \<not> reg_locked m' \<and> status = OK \<and>
             (if nodeList m = [] then prev = None
              else prev = Some (address_of (nodes m (last (nodeList m)))) \<and> told)
         | Refused e \<Rightarrow> nodeList m' = nodeList m \<and> reg_locked m' \<and> e = OTHER_ERROR \<and> status = OTHER_ERROR
         | Context_reused \<Rightarrow> nodeList m' = nodeList m \<and> reg_locked m' \<and> told \<and> (status = UNAVAILABLE \<or> status = UNIMPLEMENTED))"

lemma add_node_inv:
  assumes inv: "master_inv m" and x: "x \<notin> set (nodeList m)" "x < next_node m"
    and st: "nodeList m \<noteq> [] \<Longrightarrow> st = state_at (length (nodeList m) + 1) (length (nodeList m) - 1)"
  shows "master_inv (add_node x st m)" "nodeList (add_node x st m) = nodeList m @ [x]"
proof -
  let ?m = "add_node x st m" and ?L = "nodeList m"
  show l: "nodeList ?m = ?L @ [x]" by (simp add: add_node_def Let_def set_state_def split: option.splits)
  have n: "next_node ?m = next_node m" by (simp add: add_node_def Let_def set_state_def split: option.splits)
  show "master_inv ?m"
  proof (cases "?L = []")
    case True
    then show ?thesis using x by (simp add: master_inv_def add_node_def Let_def set_state_def chain_states_def state_at_def)
  next
    case False
    then have L: "distinct ?L" "head m = Some (hd ?L)" "tail m = Some (last ?L)" "last ?L \<in> set ?L"
      using inv by (auto simp: master_inv_def)
    then have lx: "last ?L \<noteq> x" using x(1) by auto
    then have nd: "mn_state (nodes ?m y) = (if y = x then TAIL else if y = last ?L then st else mn_state (nodes m y))" for y
      using False L(3) by (simp add: add_node_def Let_def set_state_def)
    have hd: "head ?m = head m" "tail ?m = Some x" using False L(3) by (simp_all add: add_node_def Let_def set_state_def)
    show ?thesis
    proof (rule master_invI)
      show "distinct (nodeList ?m)" using L(1) x(1) l by simp
      show "y < next_node ?m" if "y \<in> set (nodeList ?m)" for y
        using that inv x(2) l n by (auto simp: master_inv_def)
      show "head ?m = Some (hd (nodeList ?m)) \<and> tail ?m = Some (last (nodeList ?m))"
        using hd L(2) False l by simp
      show "mn_state (nodes ?m (nodeList ?m ! j)) = state_at (length (nodeList ?m)) j" if j: "j < length (nodeList ?m)" for j
      proof -
        have "j < length ?L + 1" using j l by simp
        then consider "j = length ?L" | "j + 1 = length ?L" | "j + 1 < length ?L" by linarith
        then show ?thesis
        proof cases
          case 1
          then show ?thesis using False by (simp add: l nd state_at_def)
        next
          case 2
          then have "j = length ?L - 1" by simp
          then have "?L ! j = last ?L" "j = length ?L - 1" using False by (simp_all add: last_conv_nth)
          then have nl: "nodeList ?m ! j = last ?L" and sj: "state_at (length (nodeList ?m)) j = st"
            unfolding l using 2 st [OF False] by (simp_all add: nth_append)
          have "mn_state (nodes ?m (last ?L)) = st" using nd lx by simp
          then show ?thesis unfolding nl sj .
        next
          case 3
          then have "?L ! j \<noteq> last ?L" using L(1) False by (simp add: last_conv_nth nth_eq_iff_index_eq)
          moreover have "?L ! j \<noteq> x" using 3 x(1) by (metis Suc_lessD Suc_eq_plus1 nth_mem)
          ultimately show ?thesis using 3 False master_inv_state [OF inv, of j] by (simp add: l nd nth_append state_at_def)
        qed
      qed
    qed
  qed
qed

lemma register_result:
  assumes inv: "master_inv m" and unlocked: "\<not> reg_locked m" and env: "answers_within fuel env (length (sent m))"
  shows "\<exists>r m'. Register fuel env request m = Some (r, m') \<and> master_inv m' \<and> register_outcome env request m r m'"
proof -
  let ?new = "next_node m" and ?L = "nodeList m"
  define m1 where "m1 = m\<lparr>reg_locked := True, next_node := ?new + 1, nodes := (nodes m)(?new :=
      \<lparr>mn_ip = si_ip (reg_ip request), mn_port = si_port (reg_ip request), mn_state = INITIALIZE\<rparr>)\<rparr>"
  have fresh: "?new \<notin> set ?L" using inv by (auto simp: master_inv_def)
  have "mn_state (nodes m1 x) = mn_state (nodes m x)" "nodes m1 x = nodes m x" if "x \<in> set ?L" for x
    using that fresh by (auto simp: m1_def)
  then have inv1: "master_inv (m1\<lparr>sent := s\<rparr>)" and nd: "\<And>x. x \<in> set ?L \<Longrightarrow> nodes m1 x = nodes m x" for s
    using inv by (auto simp: master_inv_def m1_def cong: map_cong)
  have m1: "nodeList m1 = ?L" "next_node m1 = ?new + 1" "reg_locked m1" "tail m1 = tail m" "head m1 = head m"
    by (simp_all add: m1_def)
  have s1: "sent m1 = sent m" by (simp add: m1_def)
  obtain d where d: "d < fuel" "env (length (sent m1) + d) \<noteq> UNAVAILABLE" "env (length (sent m1) + d) \<noteq> UNIMPLEMENTED"
    using env unfolding answers_within_def s1 by blast
  obtain r s where r: "rpc_retry fuel env (HeartBeat_call ?new) m1 = Some (r, m1\<lparr>sent := s\<rparr>)" "r = env (length s - 1)"
      "r = OK \<or> r = OTHER_ERROR"
    using rpc_retry_returns [where m = m1 and c = "HeartBeat_call ?new" and env = env, OF d] by blast
  note reg = Register_def [of fuel env request m, unfolded Let_def, folded m1_def]
  show ?thesis
  proof (cases "r = OK")
    case False
    then have "Register fuel env request m = Some (Refused r, m1\<lparr>sent := s\<rparr>)"
      using unlocked r(1) by (simp add: reg Let_def)
    then show ?thesis using inv1 m1 False r(2,3) by (auto simp: register_outcome_def)
  next
    case ok: True
    define st where "st = (if tail m = head m then HEAD else MIDDLE)"
    have stL: "st = state_at (length ?L + 1) (length ?L - 1)" if "?L \<noteq> []"
    proof -
      have "tail m = head m \<longleftrightarrow> length ?L = 1"
        using that inv by (cases ?L rule: rev_cases) (auto simp: master_inv_def hd_append split: if_splits)
      moreover have "length ?L \<noteq> 0" using that by simp
      then have "length ?L - 1 = 0 \<longleftrightarrow> length ?L = 1" by linarith
      ultimately show ?thesis using that by (simp add: st_def state_at_def)
    qed
    have add: "master_inv (add_node ?new st (m1\<lparr>sent := s'\<rparr>))" "nodeList (add_node ?new st (m1\<lparr>sent := s'\<rparr>)) = ?L @ [?new]"
      "sent (add_node ?new st (m1\<lparr>sent := s'\<rparr>)) = s'" for s'
      using add_node_inv [OF inv1 [of s'], of ?new st] fresh m1 stL
      by (simp_all add: add_node_def Let_def set_state_def split: option.splits)
    show ?thesis
    proof (cases "?L = []")
      case True
      then have "Register fuel env request m = Some (Registered None, (add_node ?new st (m1\<lparr>sent := s\<rparr>))\<lparr>reg_locked := False\<rparr>)"
        using unlocked r(1) ok m1 by (simp add: reg Let_def st_def)
      then show ?thesis using add [of s] True r(2) ok by (auto simp: register_outcome_def)
    next
      case False
      then have t: "tail m = Some (last ?L)" "last ?L \<in> set ?L" using inv by (simp_all add: master_inv_def)
      let ?call = "ChangeMode_call (last ?L) \<lparr>prev_addr = None, next_addr = Some (address_of (nodes m1 ?new)),
           new_state = int_of_state st, last_seq_num = reg_last_seq_num request\<rparr>"
      let ?m2 = "m1\<lparr>sent := s @ [?call]\<rparr>"
      have call: "?call = join_call request ?L" using stL [OF False] by (simp add: join_call_def address_of_def m1_def)
      have "Register fuel env request m = (case env (length s) of
            OK \<Rightarrow> Some (Registered (Some (address_of (nodes m1 (last ?L)))), (add_node ?new st ?m2)\<lparr>reg_locked := False\<rparr>)
          | OTHER_ERROR \<Rightarrow> Some (Refused (env (length s)), ?m2) | _ \<Rightarrow> Some (Context_reused, ?m2))"
        using unlocked r(1) ok m1 False t by (cases ?L; cases "env (length s)") (simp_all add: reg Let_def st_def rpc_def)
      then show ?thesis
        using add [of "s @ [?call]"] False inv1 [of "s @ [?call]"] m1 nd [OF t(2)]
        by (cases "env (length s)") (auto simp: register_outcome_def call)
    qed
  qed
qed

section \<open>Properties\<close>

text \<open>Three registered servers, for the examples.\<close>

definition three_servers :: master_state where
  "three_servers = \<lparr>nodes = (\<lambda>x. \<lparr>mn_ip = ''10.0.0.1'', mn_port = 18001 + int x,
      mn_state = (if x = 0 then HEAD else if x = 1 then MIDDLE else TAIL)\<rparr>),
    nodeList = [0, 1, 2], head = Some 0, tail = Some 2, next_node = 3, reg_locked = False, sent = []\<rparr>"

lemma three_servers_inv: "master_inv three_servers"
  by (simp add: master_inv_def three_servers_def chain_states_def state_at_def upt_rec)

text \<open>
  C6. The handling of a failed server returns for every behaviour of the other servers and leaves
  a well-formed chain: the list has no duplicates, \<^verbatim>\<open>head\<close> and \<^verbatim>\<open>tail\<close> point to its ends and the
  states are those of a chain of its length. No server is added, and when the result is 0 the failed
  one is gone.
\<close>

theorem failure_keeps_chain:
  assumes "master_inv m" and "i < length (nodeList m)"
  shows "\<exists>r m'. hlp_Manage_Failure 2 env seqs (nodeList m) i m = Some (r, m') \<and> master_inv m' \<and>
    set (nodeList m') \<subseteq> set (nodeList m) \<and> (r = 0 \<longrightarrow> nodeList m ! i \<notin> set (nodeList m'))"
  using failure_handled [OF assms, of env seqs] unfolding handled_def by (metis fst_conv snd_conv surj_pair)

theorem failure_keeps_chain_witness:
  "\<exists>r m'. hlp_Manage_Failure 2 (\<lambda>k. if k = 0 then UNAVAILABLE else OK) (\<lambda>_. 0) (nodeList three_servers) 1 three_servers =
      Some (r, m') \<and> master_inv m' \<and>
    set (nodeList m') \<subseteq> set (nodeList three_servers) \<and> (r = 0 \<longrightarrow> nodeList three_servers ! 1 \<notin> set (nodeList m'))"
  by (rule failure_keeps_chain [OF three_servers_inv]) (simp add: three_servers_def)

text \<open>
  C27. A round of heartbeats returns, or stops the master on an unexpected status; it keeps the
  chain well-formed.
\<close>

theorem heartbeat_keeps_chain:
  assumes "master_inv m"
  shows "\<exists>r. run_heartbeat env seqs m = Some r \<and>
    (case r of Inl _ \<Rightarrow> True | Inr m' \<Rightarrow> master_inv m' \<and> set (nodeList m') \<subseteq> set (nodeList m))"
  unfolding run_heartbeat_def by (rule heartbeat_round_ok [OF assms]) simp

theorem heartbeat_keeps_chain_witness:
  "\<exists>r. run_heartbeat (\<lambda>k. if k = 1 then UNAVAILABLE else OK) (\<lambda>_. 0) three_servers = Some r \<and>
    (case r of Inl _ \<Rightarrow> True | Inr m' \<Rightarrow> master_inv m' \<and> set (nodeList m') \<subseteq> set (nodeList three_servers))"
  by (rule heartbeat_keeps_chain [OF three_servers_inv])

text \<open>
  C21. When a middle server fails and its neighbours answer, the master tells the server below its
  new upstream address, then the one above its new downstream address and the number of the last
  write the server below has received; both keep their states, and the failed server leaves the list.
\<close>

theorem middle_failure_connects:
  assumes "master_inv m" and "0 < i" and "i + 1 < length (nodeList m)"
  shows "\<exists>m'. hlp_Manage_Failure 2 (\<lambda>_. OK) seqs (nodeList m) i m = Some (0, m') \<and>
    nodeList m' = take i (nodeList m) @ drop (i + 1) (nodeList m) \<and> nodes m' = nodes m \<and>
    sent m' = sent m @ (let up = nodeList m ! (i - 1); down = nodeList m ! (i + 1) in
      [HeartBeat_call down, HeartBeat_call up,
       ChangeMode_call down \<lparr>prev_addr = Some (address_of (nodes m up)), next_addr = None,
         new_state = int_of_state (mn_state (nodes m down)), last_seq_num = 0\<rparr>,
       ChangeMode_call up \<lparr>prev_addr = None, next_addr = Some (address_of (nodes m down)),
         new_state = int_of_state (mn_state (nodes m up)), last_seq_num = seqs (length (sent m) + 2)\<rparr>])"
proof -
  let ?L = "nodeList m"
  have st: "mn_state (nodes m (?L ! i)) = MIDDLE" using master_inv_state [OF assms(1), of i] assms by (simp add: state_at_def)
  have down: "find_alive (\<lambda>_. OK) ?L (tail m) [Suc i..<length ?L] ds m' =
      Some (Inr (?L ! Suc i), ds, m'\<lparr>sent := sent m' @ [HeartBeat_call (?L ! Suc i)]\<rparr>)" for ds m'
    using assms(3) by (simp add: upt_conv_Cons rpc_def Let_def)
  have up: "find_alive (\<lambda>_. OK) ?L (head m) (rev [0..<i]) ds m' =
      Some (Inr (?L ! (i - 1)), ds, m'\<lparr>sent := sent m' @ [HeartBeat_call (?L ! (i - 1))]\<rparr>)" for ds m'
    using assms(2) by (cases i) (simp_all add: rpc_def Let_def)
  have "filter (\<lambda>x. x \<notin> set [?L ! i]) ?L = take i ?L @ drop (i + 1) ?L"
    by (rule filter_segment) (use assms in \<open>simp_all add: master_inv_def\<close>)
  then have f: "filter (\<lambda>x. x \<noteq> ?L ! i) ?L = take i ?L @ drop (Suc i) ?L" by simp
  show ?thesis
    unfolding numeral_2_eq_2
    by (simp add: manage_unfold [of "Suc 0"] st down up rpc_def connect_neighbours_def Let_def remove_nodes_def f)
qed

theorem middle_failure_connects_witness:
  "\<exists>m'. hlp_Manage_Failure 2 (\<lambda>_. OK) (\<lambda>_. 7) (nodeList three_servers) 1 three_servers = Some (0, m') \<and>
    nodeList m' = take 1 (nodeList three_servers) @ drop (1 + 1) (nodeList three_servers) \<and> nodes m' = nodes three_servers \<and>
    sent m' = sent three_servers @ (let up = nodeList three_servers ! (1 - 1); down = nodeList three_servers ! (1 + 1) in
      [HeartBeat_call down, HeartBeat_call up,
       ChangeMode_call down \<lparr>prev_addr = Some (address_of (nodes three_servers up)), next_addr = None,
         new_state = int_of_state (mn_state (nodes three_servers down)), last_seq_num = 0\<rparr>,
       ChangeMode_call up \<lparr>prev_addr = None, next_addr = Some (address_of (nodes three_servers down)),
         new_state = int_of_state (mn_state (nodes three_servers up)), last_seq_num = 7\<rparr>])"
  by (rule middle_failure_connects [OF three_servers_inv, where seqs = "\<lambda>_. 7"]) (simp_all add: three_servers_def)

text \<open>
  C13. A registration whose heartbeat is answered within \<open>fuel\<close> calls comes to one of three ends, and the chain stays
  well-formed. The new server is appended and the reply is the address of the old tail, which has
  been told the new server's address, its last write and its own new state; or an unexpected
  status is returned and the list is as before; or the old tail was unavailable at the one \<^verbatim>\<open>ChangeMode\<close> call the
  context is good for, and the loop goes on to use the context again.
\<close>

theorem register_keeps_chain:
  assumes "master_inv m" and "\<not> reg_locked m" and "answers_within fuel env (length (sent m))"
  shows "\<exists>r m'. Register fuel env request m = Some (r, m') \<and> master_inv m' \<and> register_outcome env request m r m'"
  by (rule register_result [OF assms])

theorem register_keeps_chain_witness:
  "let request = \<lparr>reg_ip = \<lparr>si_ip = ''10.0.0.4'', si_port = 18001\<rparr>, reg_last_seq_num = 0\<rparr>;
       env = (\<lambda>k. if k = 0 then UNAVAILABLE else if k = 1 then UNIMPLEMENTED else OK) in
   \<exists>r m'. Register 3 env request three_servers = Some (r, m') \<and> master_inv m' \<and>
     register_outcome env request three_servers r m' \<and> length (sent m') = 4 \<and> nodeList m' = [0, 1, 2, 3] \<and>
     r = Registered (Some \<lparr>si_ip = ''10.0.0.1'', si_port = 18003\<rparr>)"
proof -
  let ?r = "\<lparr>reg_ip = \<lparr>si_ip = ''10.0.0.4'', si_port = 18001\<rparr>, reg_last_seq_num = 0\<rparr>"
  let ?env = "\<lambda>k :: nat. if k = 0 then UNAVAILABLE else if k = 1 then UNIMPLEMENTED else OK"
  have "answers_within 3 ?env (length (sent three_servers))" unfolding answers_within_def by (intro exI [of _ 2]) (simp add: three_servers_def)
  then obtain r m' where r: "Register 3 ?env ?r three_servers = Some (r, m')" "master_inv m'" "register_outcome ?env ?r three_servers r m'"
    using register_keeps_chain [OF three_servers_inv, of 3 ?env ?r] by (auto simp: three_servers_def)
  moreover have "length (sent m') = 4 \<and> r = Registered (Some \<lparr>si_ip = ''10.0.0.1'', si_port = 18003\<rparr>)"
    using r(1) by (auto simp: Register_def Let_def rpc_def three_servers_def numeral_3_eq_3 address_of_def add_node_def set_state_def)
  moreover from this r(3) have "nodeList m' = [0, 1, 2, 3]" by (auto simp: register_outcome_def three_servers_def)
  ultimately show ?thesis unfolding Let_def by blast
qed

text \<open>
  A registration that fails with an unexpected status never releases the mutex: no later
  registration returns.
\<close>

theorem failed_registration_blocks:
  assumes "Register fuel env request m = Some (Refused e, m')"
  shows "Register fuel' env' request' m' = None"
proof -
  have keep: "rpc_retry f v c s = Some (r, s') \<Longrightarrow> reg_locked s' = reg_locked s" for f v c s r s'
    by (induction f arbitrary: s) (auto simp: rpc_def Let_def split: if_splits)
  have "reg_locked m'"
    using assms keep by (fastforce simp: Register_def Let_def rpc_def split: if_splits option.splits list.splits prod.splits rpc_status.splits)
  then show ?thesis by (simp add: Register_def)
qed

theorem failed_registration_blocks_witness:
  "let request = \<lparr>reg_ip = \<lparr>si_ip = ''10.0.0.4'', si_port = 18001\<rparr>, reg_last_seq_num = 0\<rparr>;
       m' = snd (the (Register 1 (\<lambda>_. OTHER_ERROR) request start_master)) in
   Register 1 (\<lambda>_. OTHER_ERROR) request start_master = Some (Refused OTHER_ERROR, m') \<and> Register 1 (\<lambda>_. OK) request m' = None"
proof -
  let ?r = "\<lparr>reg_ip = \<lparr>si_ip = ''10.0.0.4'', si_port = 18001\<rparr>, reg_last_seq_num = 0\<rparr>"
  have r: "Register 1 (\<lambda>_. OTHER_ERROR) ?r start_master =
      Some (Refused OTHER_ERROR, snd (the (Register 1 (\<lambda>_. OTHER_ERROR) ?r start_master)))"
    by (simp add: Register_def Let_def rpc_def start_master_def)
  show ?thesis unfolding Let_def using r failed_registration_blocks [OF r] by blast
qed

text \<open>
  Clients are sent to the head and tail services of the first and the last server of the
  chain.
\<close>

theorem config_names_ends:
  assumes "master_inv m" and "nodeList m \<noteq> []"
    and "\<forall>x \<in> set (nodeList m). 0 \<le> mn_port (nodes m x) \<and> mn_port (nodes m x) < 65536"
  shows "GetConfig m =
    (\<lparr>si_ip = mn_ip (nodes m (hd (nodeList m))), si_port = mn_port (nodes m (hd (nodeList m))) + 1000\<rparr>,
     \<lparr>si_ip = mn_ip (nodes m (last (nodeList m))), si_port = mn_port (nodes m (last (nodeList m))) + 2000\<rparr>)"
proof -
  have e: "head m = Some (hd (nodeList m))" "tail m = Some (last (nodeList m))" using assms by (simp_all add: master_inv_def)
  have "0 \<le> mn_port (nodes m (hd (nodeList m)))" "mn_port (nodes m (hd (nodeList m))) < 65536"
    "0 \<le> mn_port (nodes m (last (nodeList m)))" "mn_port (nodes m (last (nodeList m))) < 65536"
    using assms(2,3) by simp_all
  then show ?thesis by (simp add: GetConfig_def e head_port_def tail_port_def)
qed

theorem config_names_ends_witness:
  "GetConfig three_servers =
    (\<lparr>si_ip = mn_ip (nodes three_servers (hd (nodeList three_servers))),
      si_port = mn_port (nodes three_servers (hd (nodeList three_servers))) + 1000\<rparr>,
     \<lparr>si_ip = mn_ip (nodes three_servers (last (nodeList three_servers))),
      si_port = mn_port (nodes three_servers (last (nodeList three_servers))) + 2000\<rparr>)"
  by (rule config_names_ends [OF three_servers_inv]) (simp_all add: three_servers_def)

end
