(* ===== verification/Startup.thy ===== *)
theory Startup
  imports Master_Inv Storage_Crash Mode_Change
begin

text \<open>
  How the processes start and stop: the command line and \<^verbatim>\<open>main\<close> of a server up to its
  registration, what the master prints and how it ends, and the clock arithmetic of \<^verbatim>\<open>timing.h\<close>.
\<close>

section \<open>Reading numbers\<close>

text \<open>\<^verbatim>\<open>std::stoi\<close>: blanks, a sign and digits; what follows the digits is ignored.\<close>

definition stoi :: "string \<Rightarrow> cpp_error + int" where
  "stoi str =
     (let str = dropWhile is_space str;
          (negative, str) = (case str of
             c # cs \<Rightarrow> if c = CHR ''-'' then (True, cs) else if c = CHR ''+'' then (False, cs) else (False, str)
           | [] \<Rightarrow> (False, str));
          digits = takeWhile is_digit str;
          value = (if negative then - int (digits_value 0 digits) else int (digits_value 0 digits))
      in if digits = [] then Inl (Invalid_argument ''stoi'')
         else if - (2 ^ 31) \<le> value \<and> value < 2 ^ 31 then Inr value else Inl (Out_of_range ''stoi''))"

section \<open>The command line of a server\<close>

record options =
  master_ip :: string
  opt_port :: int
  opt_ip :: string
  start_clean :: bool
  def_volume_name :: string

definition default_options :: options where
  "default_options = \<lparr>master_ip = '''', opt_port = 18001, opt_ip = ''0.0.0.0'', start_clean = False,
     def_volume_name = ''volume''\<rparr>"

text \<open>
  \<^verbatim>\<open>parse_args\<close> on the arguments after the program name. An option without its value makes a string
  of the null pointer at the end of \<^verbatim>\<open>argv\<close>.
\<close>

fun parse_args :: "string list \<Rightarrow> options \<Rightarrow> (cpp_error + int) \<times> options" where
  "parse_args [] opts = (Inr (if master_ip opts = '''' then - 1 else 0), opts)"
| "parse_args (argx # args) opts =
     (if argx = ''-master'' then
        (case args of [] \<Rightarrow> (Inl Undefined, opts) | v # args \<Rightarrow> parse_args args (opts\<lparr>master_ip := v\<rparr>))
      else if argx = ''-port'' then
        (case args of
           [] \<Rightarrow> (Inl Undefined, opts)
         | v # args \<Rightarrow> (case stoi v of Inl e \<Rightarrow> (Inl e, opts) | Inr p \<Rightarrow> parse_args args (opts\<lparr>opt_port := p\<rparr>)))
      else if argx = ''-ip'' then
        (case args of [] \<Rightarrow> (Inl Undefined, opts) | v # args \<Rightarrow> parse_args args (opts\<lparr>opt_ip := v\<rparr>))
      else if argx = ''-clean'' then parse_args args (opts\<lparr>start_clean := True\<rparr>)
      else if argx = ''-v'' then
        (case args of [] \<Rightarrow> (Inl Undefined, opts) | v # args \<Rightarrow> parse_args args (opts\<lparr>def_volume_name := v\<rparr>))
      else (Inr (- 1), opts))"

section \<open>Start of a server\<close>

text \<open>
  \<^verbatim>\<open>main\<close> up to the registration; \<open>files name\<close> is the state of a process that has opened the file. \<open>Inr None\<close> is the
  exit with \<open>-1\<close>.
\<close>

definition server_main :: "(string \<Rightarrow> storage) \<Rightarrow> string list \<Rightarrow> cpp_error + server_node option" where
  "server_main files args =
     (case parse_args args default_options of
        (Inl e, _) \<Rightarrow> Inl e
      | (Inr r, opts) \<Rightarrow>
          if r < 0 then Inr None
          else
            (case (if start_clean opts then init_volume (files (def_volume_name opts))
                   else open_volume (files (def_volume_name opts))) of
               None \<Rightarrow> Inl Undefined
             | Some s \<Rightarrow> Inr (Some (start_server (opt_ip opts) (opt_port opts) s))))"

text \<open>
  \<^verbatim>\<open>register_server\<close>: the request, and the loop over the answers of the master (\<open>None\<close> is a call that
  failed); \<open>None\<close> is a server that is still trying.
\<close>

definition register_message :: "server_node \<Rightarrow> register_request" where
  "register_message n = \<lparr>reg_ip = \<lparr>si_ip = my_ip n, si_port = my_port n\<rparr>, reg_last_seq_num = to_uint64 (commitSeq n)\<rparr>"

fun register_server :: "server_ip option option list \<Rightarrow> server_node \<Rightarrow> server_node option" where
  "register_server [] n = None"
| "register_server (None # answers) n = register_server answers n"
| "register_server (Some prev # answers) n = Some (registered prev n)"

section \<open>What the master prints, and how it ends\<close>

definition print_state_name :: "node_state \<Rightarrow> string" where
  "print_state_name state = get_state state"

text \<open>The part of the address after its last dot: \<^verbatim>\<open>rfind\<close> gives \<open>-1\<close> when there is none.\<close>

definition last_part :: "string \<Rightarrow> string" where
  "last_part str = rev (takeWhile (\<lambda>c. c \<noteq> CHR ''.'') (rev str))"

definition node_label :: "master_node \<Rightarrow> string" where
  "node_label n = print_state_name (mn_state n) @ ''('' @ last_part (mn_ip n) @ '':'' @ to_string (mn_port n) @ '')''"

fun print_nodes :: "master_node list \<Rightarrow> string" where
  "print_nodes [] = ''''"
| "print_nodes [n] = node_label n"
| "print_nodes (n # ns) = node_label n @ ''-'' @ print_nodes ns"

text \<open>
  The end of the master's \<^verbatim>\<open>main\<close>: the loop that empties the list goes on with an iterator it
  has just erased.
\<close>

definition shutdown_master :: "master_state \<Rightarrow> cpp_error + master_state" where
  "shutdown_master m = (if nodeList m = [] then Inr m else Inl Undefined)"

section \<open>Clock differences\<close>

record timespec =
  tv_sec :: int
  tv_nsec :: int

text \<open>\<^verbatim>\<open>nanos_diff\<close> in \<^verbatim>\<open>unsigned long\<close>.\<close>

definition nanos_diff :: "timespec \<Rightarrow> timespec \<Rightarrow> 64 word" where
  "nanos_diff start stop =
     (let nanos = word_of_int (tv_nsec stop - tv_nsec start);
          secs = word_of_int (tv_sec stop - tv_sec start);
          (nanos, secs) = (if tv_nsec stop < tv_nsec start then (nanos + 1000000000, secs - 1) else (nanos, secs))
      in nanos + 1000000000 * secs)"

section \<open>Numbers are read back\<close>

lemma digit_not_sign: "is_digit c \<Longrightarrow> c \<noteq> CHR ''-'' \<and> c \<noteq> CHR ''+'' \<and> \<not> is_space c"
  by (auto simp: is_digit_def is_space_def)

lemma stoi_to_string:
  assumes "- (2 ^ 31) \<le> i" and "i < 2 ^ 31"
  shows "stoi (to_string i) = Inr i"
proof -
  have *: "takeWhile is_digit (nat_to_string n) = nat_to_string n" "nat_to_string n \<noteq> []" for n
    using nat_to_string_digits [of n] by (simp_all add: takeWhile_eq_all_conv list_all_iff)
  obtain c cs where c: "nat_to_string (nat \<bar>i\<bar>) = c # cs" using *(2) by (meson neq_Nil_conv)
  then have d: "is_digit c" using nat_to_string_digits [of "nat \<bar>i\<bar>"] by simp
  have sp: "\<not> is_space (CHR ''-'')" by (simp add: is_space_def)
  show ?thesis
  proof (cases "i < 0")
    case True
    then show ?thesis
      using assms sp by (simp add: stoi_def to_string_def Let_def * digits_value_nat_to_string)
  next
    case False
    then have "to_string i = c # cs" "digits_value 0 (c # cs) = nat i" "takeWhile is_digit (c # cs) = c # cs"
      using c *(1) [of "nat i"] digits_value_nat_to_string [of "nat i"] by (simp_all add: to_string_def)
    then show ?thesis using assms False digit_not_sign [OF d] by (simp add: stoi_def Let_def)
  qed
qed

text \<open>A command line that states its options is read as them.\<close>

definition command_line :: "options \<Rightarrow> string list" where
  "command_line opts = [''-master'', master_ip opts, ''-port'', to_string (opt_port opts), ''-ip'', opt_ip opts,
     ''-v'', def_volume_name opts] @ (if start_clean opts then [''-clean''] else [])"

theorem command_line_read:
  assumes "master_ip opts \<noteq> ''''" and "- (2 ^ 31) \<le> opt_port opts" and "opt_port opts < 2 ^ 31"
  shows "parse_args (command_line opts) default_options = (Inr 0, opts)"
  using assms stoi_to_string [OF assms(2,3)] by (cases "start_clean opts") (simp_all add: command_line_def default_options_def)

section \<open>A restarted server\<close>

lemma register_server_answer:
  "Some prev \<in> set answers \<Longrightarrow> \<exists>prev. Some prev \<in> set answers \<and> register_server answers n = Some (registered prev n)"
  by (induction answers n rule: register_server.induct) auto

lemma registered_numbers [simp]:
  "commitSeq (registered prev n) = commitSeq n" "writeSeq (registered prev n) = writeSeq n"
  "currentSeq (registered prev n) = currentSeq n" "vol (registered prev n) = vol n"
  by (simp_all add: registered_def launch_tail_def launch_head_def split: option.splits)

text \<open>
  C19. A server that has crashed at any point and is started again from the command line opens its
  volume, asks the master to be registered with the number of its last committed write, and
  once the master answers goes on from there: its contents are the last committed version, its numbers
  continue after it, and it is the tail of the chain, or the only server, with the services of that state.
\<close>

theorem restarted_server_committed:
  assumes "storage_inv w s" and "crash_image s d n" and "n < 2 ^ 31" and "0 \<le> last_committed s" and "last_committed s < 2 ^ 63 - 1"
    and "master_ip opts \<noteq> ''''" and "- (2 ^ 31) \<le> opt_port opts" and "opt_port opts < 2 ^ 31" and "\<not> start_clean opts"
    and "files (def_volume_name opts) = new_process d n" and "Some prev \<in> set answers"
  shows "\<exists>m m'. server_main files (command_line opts) = Inr (Some m) \<and>
    reg_last_seq_num (register_message m) = last_committed s \<and> register_server answers m = Some m' \<and>
    volume (vol m') (commitSeq m') = volume s (last_committed s) \<and> commitSeq m' = last_committed s \<and>
    writeSeq m' = last_committed s \<and> currentSeq m' = last_committed s + 1 \<and>
    (node_state m' = TAIL \<or> node_state m' = SINGLE) \<and> services_ok m'"
proof -
  obtain s' where s': "open_volume (new_process d n) = Some s'" "last_committed s' = last_committed s"
      "volume s' (last_committed s) = volume s (last_committed s)"
    using crash_recovers [OF assms(1-3)] by (auto simp: recovers_def)
  let ?m = "start_server (opt_ip opts) (opt_port opts) s'"
  have "server_main files (command_line opts) = Inr (Some ?m)"
    using command_line_read [OF assms(6-8)] assms(9,10) s'(1) by (simp add: server_main_def)
  moreover have f: "commitSeq ?m = last_committed s" "writeSeq ?m = last_committed s" "currentSeq ?m = last_committed s + 1" "vol ?m = s'"
    using assms(4,5) s'(2) by (simp_all add: start_server_def get_sequence_number_def Let_def)
  moreover obtain p where p: "register_server answers ?m = Some (registered p ?m)"
    using register_server_answer [OF assms(11)] by blast
  moreover have "reg_last_seq_num (register_message ?m) = last_committed s"
    using f(1) assms(4,5) by (simp add: register_message_def)
  ultimately show ?thesis
    using s'(3) registered_services [of p "opt_ip opts" "opt_port opts" s'] by (cases "p = None") auto
qed

theorem restarted_server_committed_witness:
  "\<exists>s1 m m'. storage_write (\<lambda>_. 0) (replicate 4096 7) 100 1 new_volume = Some s1 \<and>
    server_main (\<lambda>_. new_process (durable s1) 1)
      [''-master'', ''10.0.0.1'', ''-port'', to_string 18001, ''-ip'', ''10.0.0.2'', ''-v'', ''volume''] = Inr (Some m) \<and>
    reg_last_seq_num (register_message m) = 0 \<and> register_server [None, Some None] m = Some m' \<and>
    volume (vol m') 0 = volume s1 0 \<and> currentSeq m' = 1 \<and> services_ok m'"
proof -
  obtain s1 where w: "storage_write (\<lambda>_. 0) (replicate 4096 7) 100 1 new_volume = Some s1"
    and s1: "storage_inv 1 s1" "tracked (\<lambda>_. 100) 1 s1" "last_committed s1 = 0"
      "num_total_blocks s1 + 7 < 2 ^ 31" "num_total_blocks s1 < 2 ^ 31"
      "volume s1 1 = spec_write 100 (replicate 4096 7) (\<lambda>x. 0)" "durable_blocks s1 = 0"
    by (rule first_write [of 100 "\<lambda>_. 0" "replicate 4096 7"])
       (simp_all add: access_ok_def VOLUME_SIZE_def stray_ok_def aligned_def)
  have c: "crash_image s1 (durable s1) 1"
    using storage_invD(8) [OF s1(1)] s1(7) by (simp add: crash_image_def durable_inv_def)
  let ?o = "\<lparr>master_ip = ''10.0.0.1'', opt_port = 18001, opt_ip = ''10.0.0.2'', start_clean = False, def_volume_name = ''volume''\<rparr>"
  have l: "command_line ?o = [''-master'', ''10.0.0.1'', ''-port'', to_string 18001, ''-ip'', ''10.0.0.2'', ''-v'', ''volume'']"
    by (simp add: command_line_def)
  show ?thesis
    using restarted_server_committed [OF s1(1) c, of ?o "\<lambda>_. new_process (durable s1) 1" None "[None, Some None]"] w s1(3)
    unfolding l by auto
qed

section \<open>A clean start on an old file\<close>

text \<open>The numbers of the next blocks a process hands out.\<close>

fun next_blocks :: "nat \<Rightarrow> storage \<Rightarrow> int list" where
  "next_blocks 0 s = []"
| "next_blocks (Suc k) s = (case get_free_block_num s of None \<Rightarrow> [] | Some (n, s) \<Rightarrow> n # next_blocks k s)"

lemma next_blocks_free: "next_blocks (length (free_blocks s) + k) s = free_blocks s @ next_blocks k (s\<lparr>free_blocks := []\<rparr>)"
proof (induction "free_blocks s" arbitrary: s)
  case (Cons x xs)
  from Cons(1) [of "s\<lparr>free_blocks := xs\<rparr>"] Cons(2) [symmetric] show ?case by (simp add: get_free_block_num_def)
next
  case Nil
  then have "s\<lparr>free_blocks := []\<rparr> = s" by simp
  then show ?case using Nil by (simp only: list.size append_Nil add_0)
qed

text \<open>
  \<^verbatim>\<open>init_volume\<close> on a file of \<open>n\<close> blocks puts the old blocks on the free list but counts one block in total:
  after the last of them the process hands out block 2 again.
\<close>

theorem clean_start_reuses_blocks:
  assumes "3 \<le> n"
  shows "\<exists>s. init_volume (new_process d n) = Some s \<and> next_blocks (nat n) s = [1..n - 1] @ [2]"
proof -
  define s where "s = the (init_volume (new_process d n))"
  have s: "init_volume (new_process d n) = Some s" "free_blocks s = [1..n - 1]" "num_total_blocks s = 1"
    using assms unfolding s_def by (simp_all add: init_volume_def write_block_def new_process_def)
  have "nat n = length (free_blocks s) + 1" using assms by (simp add: s(2))
  then have "next_blocks (nat n) s = [1..n - 1] @ next_blocks (Suc 0) (s\<lparr>free_blocks := []\<rparr>)"
    using next_blocks_free [of s 1] s(2) by simp
  then show ?thesis using s(1,3) by (simp add: get_free_block_num_def)
qed

section \<open>Labels and clocks\<close>

text \<open>The label of a server shows its address from the last dot on, all of it when there is no dot.\<close>

lemma last_part_suffix:
  "(\<exists>p. str = p @ last_part str \<and> (p = [] \<or> last p = CHR ''.'')) \<and> CHR ''.'' \<notin> set (last_part str)"
proof -
  let ?t = "takeWhile (\<lambda>c. c \<noteq> CHR ''.'') (rev str)" and ?d = "dropWhile (\<lambda>c. c \<noteq> CHR ''.'') (rev str)"
  have "str = rev ?d @ last_part str"
    unfolding last_part_def rev_append [symmetric] takeWhile_dropWhile_id by simp
  moreover have "rev ?d = [] \<or> last (rev ?d) = CHR ''.''" using hd_dropWhile [of "\<lambda>c. c \<noteq> CHR ''.''" "rev str"] by (auto simp: last_rev)
  moreover have "CHR ''.'' \<notin> set (last_part str)" by (auto simp: last_part_def dest: set_takeWhileD)
  ultimately show ?thesis by blast
qed

text \<open>The borrow is right: \<^verbatim>\<open>nanos_diff\<close> is the difference of the two times whenever it fits.\<close>

theorem nanos_diff_exact:
  assumes "t = (tv_sec stop * 1000000000 + tv_nsec stop) - (tv_sec start * 1000000000 + tv_nsec start)" and "0 \<le> t" and "t < 2 ^ 64"
  shows "uint (nanos_diff start stop) = t"
proof -
  have "nanos_diff start stop = word_of_int t"
    unfolding nanos_diff_def Let_def assms(1) by (simp add: algebra_simps)
  then show ?thesis using assms(2,3) by (simp add: uint_word_of_int take_bit_int_eq_self unsigned_of_int)
qed

end
