(* ===== verification/Chain_Life.thy ===== *)
theory Chain_Life
  imports Failures New_Tail Startup
begin

text \<open>
  The life of a chain: the steps of its servers, losses of servers at the end or in the middle, and
  servers that join as the new tail. All of them keep the invariant of the chain.
\<close>

section \<open>A new tail joins\<close>

text \<open>
  A server starts on volume \<open>s\<close> and registers with the number of its last write. The master tells the
  old tail with \<^verbatim>\<open>ChangeMode\<close>; the old tail sends the changed blocks and its replay log, both are carried out, and
  then the master answers the registration.
\<close>

inductive chain_join :: "chain \<Rightarrow> (nat \<Rightarrow> int) \<Rightarrow> storage \<Rightarrow> chain \<Rightarrow> bool" where
  tail_joined: "c \<noteq> [] \<Longrightarrow> new = start_server address port s \<Longrightarrow>
    state_of_int (new_state request) = Some (state_at (length c + 1) (length c - 1)) \<Longrightarrow>
    last_seq_num request = reg_last_seq_num (register_message new) \<Longrightarrow>
    ChangeMode request (node (last c)) = Some (Inr r, n, [Restore_call es, UpdateReplayLog_call msgs]) \<Longrightarrow>
    Restore junk es new = Inr new1 \<Longrightarrow> UpdateReplayLog msgs new1 = Inr new2 \<Longrightarrow>
    chain_join c junk s (c[length c - 1 := (last c)\<lparr>node := n\<rparr>] @ [new_link (registered (Some prev) new2)])"

text \<open>
  What the theorems ask of a join: the old tail has no uncommitted writes, the new volume agrees with it on
  the blocks not changed since its own last write, the changed blocks fit through the request, there
  is room for them, and the last of them is the latest (the new volume takes its number).
\<close>

definition benign_join :: "chain \<Rightarrow> (nat \<Rightarrow> int) \<Rightarrow> storage \<Rightarrow> bool" where
  "benign_join c junk s \<longleftrightarrow>
     (let n = node (last c); old = vol n; m = commitSeq n; L = last_committed s; vs = changed L old
      in writeSeq n = m \<and> atomic_inv L s \<and> 0 \<le> L \<and> L \<le> m \<and> up_to L (version_at s L) (version_at old m) \<and>
         (\<forall>v \<in> set vs. v < 2 ^ 31 \<and> text_block (spec_read v (volume old m)) \<and>
            atomic_safe junk v (num_total_blocks s + 7 * int (length vs))) \<and>
         last (L # map (stamp old) vs) = m)"

text \<open>A volume that stopped at an earlier version of the same history agrees in this sense.\<close>

lemma history_up_to:
  assumes h: "history H V b z" and "b \<le> L" and "L \<le> m" and "m \<le> z"
  shows "up_to L (V L) (V m)"
  using assms(3,4)
proof (induction m rule: int_ge_induct)
  case (step m)
  have e: "history_entry H V (m + 1)" using h assms(2) step by (simp add: history_def)
  have "cell (volumeOffset (H (m + 1)))" using e by (intro cell_of_access) (simp_all add: history_entry_def)
  then have "up_to L (V L) (mark_write (m + 1) (volumeOffset (H (m + 1))) (stored_block (data (H (m + 1)))) (V m))"
    using up_to_write [of L "V L" "V m" "m + 1"] step by simp
  then show ?case using e by (simp add: history_entry_def)
qed (simp add: up_to_refl)

section \<open>Joining keeps the invariant\<close>

text \<open>A server without uncommitted writes.\<close>

lemma quiet_volume:
  assumes n: "node_inv H V b z n" and w: "writeSeq n = commitSeq n"
  shows "atomic_inv (commitSeq n) (vol n)" "version_at (vol n) (commitSeq n) = V (commitSeq n)"
  using node_invD(2,3) [OF n] w by (auto simp: st.holds_def atomic_inv_def tracked_def)

lemma new_tail_neighbours: "new_tail_calls q (with_neighbours request n) = new_tail_calls q n"
proof -
  have f: "vol (with_neighbours request n) = vol n" "replayLog (with_neighbours request n) = replayLog n"
    using tables_of_changes(1) [of n request] by (simp_all add: same_tables_def)
  show ?thesis unfolding new_tail_calls_def f by (rule refl)
qed

lemma ChangeMode_new_tail:
  assumes "ChangeMode request n = Some (Inr r, n', [Restore_call es, UpdateReplayLog_call msgs])"
    and "state_of_int (new_state request) = Some st" and st: "st \<noteq> TAIL \<and> st \<noteq> SINGLE" "node_state n = TAIL \<or> node_state n = SINGLE"
  shows "new_tail_calls (last_seq_num request) n = Inr [Restore_call es, UpdateReplayLog_call msgs]"
proof -
  have free: "\<not> changemode_locked n" using assms(1) by (auto simp: ChangeMode_def)
  have "st \<noteq> node_state n" using st by auto
  then show ?thesis
    using assms(1) st new_tail_neighbours unfolding ChangeMode_unfold [OF free assms(2)] by (simp add: Let_def split: sum.splits)
qed

lemma start_server_fields:
  assumes "last_committed s = L" and "0 \<le> L" and "L < 2 ^ 63 - 1"
  shows "vol (start_server a p s) = s" "replayLog (start_server a p s) = []" "sentList (start_server a p s) = []"
    "pendingQueue (start_server a p s) = empty_pending_queue" "reg_last_seq_num (register_message (start_server a p s)) = L"
  using assms by (simp_all add: start_server_def Let_def register_message_def get_sequence_number_def)

lemma chain_inv_append:
  assumes c: "chain_inv H V b z c" and "link_inv H V b z l" and "below_inv (last c) l"
  shows "chain_inv H V b z (c @ [l])"
proof -
  note d = chain_invD [OF c]
  have "below_inv ((c @ [l]) ! i) ((c @ [l]) ! (i + 1))" if "i + 1 < length (c @ [l])" for i
  proof (cases "i + 1 = length c")
    case True
    then have "last c = c ! i" using d(1) by (simp add: last_conv_nth flip: True)
    then show ?thesis using True assms(3) by (simp add: nth_append flip: True)
  qed (use that d(5) [of i] in \<open>simp add: nth_append\<close>)
  moreover have "link_inv H V b z ((c @ [l]) ! i)" if "i < length (c @ [l])" for i
    using that d(4) [of i] assms(2) by (auto simp: nth_append)
  ultimately show ?thesis using d(1-3) by (simp add: chain_inv_def nth_append)
qed

text \<open>The new server holds the version of the old tail and knows its requests.\<close>

lemma joined_link:
  assumes n: "node_inv H V b z n" and v: "volume_inv m s'" "last_committed s' = m" "version_at s' m = V m" and m: "commitSeq n = m"
    and log: "log_wf log" "status log = status (replayLog n)"
  shows "link_inv H V b z (new_link (registered (Some prev) ((start_server a p s)
    \<lparr>vol := s', writeSeq := m, commitSeq := m, currentSeq := q, replayLog := log\<rparr>)))"
proof -
  have "st.holds V m s'" unfolding st.holds_def v(2) using v(1,3) by (metis order.antisym)
  moreover have "log_committed H b m log" using node_invD(8) [OF n] log m by (simp add: log_committed_def)
  moreover have "sent_between H m m []" by (simp add: sent_between_def map_wf_def)
  moreover have "queue_known H b z empty_pending_queue" by (simp add: queue_known_def empty_pending_queue_def pq_wf_def)
  ultimately show ?thesis
    using v(2) node_invD(4-6) [OF n] m
    by (simp add: link_inv_def node_inv_def new_link_def registered_def launch_tail_def start_server_def Let_def)
qed

lemma below_joined:
  assumes "commitSeq (node u) \<le> m" and "m \<le> writeSeq (node u)"
  shows "below_inv u (new_link (registered (Some prev) ((start_server a p s)
    \<lparr>vol := s', writeSeq := m, commitSeq := m, currentSeq := q, replayLog := log\<rparr>)))"
  using assms by (simp add: below_inv_def relayed_def arrived_def new_link_def registered_def launch_tail_def start_server_def
      Let_def empty_pending_queue_def)

text \<open>The two requests of a benign join and what they do to the new server.\<close>

lemma join_requests:
  assumes c: "chain_inv H V b z c" and l: "latest_marks b (V b)" and ok: "benign_join c junk s" and m: "m = commitSeq (node (last c))"
  obtains es msgs s' log where
    "new_tail_calls (reg_last_seq_num (register_message (start_server a p s))) (node (last c)) =
       Inr [Restore_call es, UpdateReplayLog_call msgs]"
    "Restore junk es (start_server a p s) = Inr ((start_server a p s)\<lparr>vol := s', writeSeq := m, commitSeq := m, currentSeq := m + 1\<rparr>)"
    "UpdateReplayLog msgs ((start_server a p s)\<lparr>vol := s', writeSeq := m, commitSeq := m, currentSeq := m + 1\<rparr>) =
       Inr ((start_server a p s)\<lparr>vol := s', writeSeq := m, commitSeq := m, currentSeq := m + 1, replayLog := log\<rparr>)"
    "volume_inv m s'" "last_committed s' = m" "version_at s' m = V m" "log_wf log" "status log = status (replayLog (node (last c)))"
proof -
  let ?n = "node (last c)" and ?L = "last_committed s" and ?new = "start_server a p s"
  have ni: "node_inv H V b z ?n"
    using link_invD(1) [OF chain_invD(4) [OF c, of "length c - 1"]] chain_invD(1) [OF c] by (simp add: last_conv_nth)
  have ws: "writeSeq ?n = m" and L: "atomic_inv ?L s" "0 \<le> ?L" "?L \<le> m" "up_to ?L (version_at s ?L) (version_at (vol ?n) m)"
    and send: "\<forall>v \<in> set (changed ?L (vol ?n)). v < 2 ^ 31 \<and> text_block (spec_read v (volume (vol ?n) m)) \<and>
      atomic_safe junk v (num_total_blocks s + 7 * int (length (changed ?L (vol ?n))))"
    and q: "m = last (?L # map (stamp (vol ?n)) (changed ?L (vol ?n)))"
    using ok unfolding benign_join_def Let_def m [symmetric] by auto
  have mz: "b \<le> m" "m \<le> z" "z + 1 < 2 ^ 31" using node_invD(4-6) [OF ni] chain_invD(2) [OF c] m by (simp_all add: history_def)
  have o: "atomic_inv m (vol ?n)" "version_at (vol ?n) m = V m" using quiet_volume [OF ni] ws m by simp_all
  have lt: "latest_marks m (version_at (vol ?n) m)" using history_latest [OF chain_invD(2) [OF c] l mz(1,2)] o(2) by simp
  have wf: "log_wf (replayLog ?n)" using node_invD(8) [OF ni] by (simp add: log_committed_def)
  have L63: "?L < 2 ^ 63 - 1" "m < 2 ^ 63 - 1" using L(3) mz by simp_all
  note f = start_server_fields [OF refl L(2) L63(1), of a p]
  have send': "\<forall>v. cell v \<and> ?L < stamp (vol ?n) v \<longrightarrow> v < 2 ^ 31 \<and> text_block (spec_read v (volume (vol ?n) m)) \<and>
      atomic_safe junk v (num_total_blocks (vol ?new) + 7 * int (length (changed ?L (vol ?n))))"
    using send by (simp add: f(1) changed_simps)
  have new: "atomic_inv ?L (vol ?new)" "up_to ?L (version_at (vol ?new) ?L) (version_at (vol ?n) m)" using L by (simp_all add: f(1))
  obtain es msgs s' log where r: "new_tail_calls ?L ?n = Inr [Restore_call es, UpdateReplayLog_call msgs]"
      "Restore junk es ?new = Inr (?new\<lparr>vol := s', writeSeq := m, commitSeq := m, currentSeq := m + 1\<rparr>)"
      "\<And>n. replayLog n = replayLog ?new \<Longrightarrow> UpdateReplayLog msgs n = Inr (n\<lparr>replayLog := log\<rparr>)"
      "atomic_inv m s'" "version_at s' m = version_at (vol ?n) m" "log_wf log" "status log = status (replayLog ?n)"
    by (rule tail_restored [OF o(1) lt wf new(1) L(2,3) L63(2) new(2) send' q]) blast
  have "volume_inv m s'" "last_committed s' = m" using r(4) by (simp_all add: atomic_inv_def)
  with that [of es msgs s' log] r o(2) f(5) show ?thesis by simp
qed

text \<open>A benign join goes through when no change of mode is under way at the old tail.\<close>

lemma tail_states:
  assumes st: "states c = chain_states (length c)" and "c \<noteq> []"
  shows "node_state (node (last c)) = TAIL \<or> node_state (node (last c)) = SINGLE"
    "state_at (length c + 1) (length c - 1) \<noteq> TAIL \<and> state_at (length c + 1) (length c - 1) \<noteq> SINGLE"
  using states_nth(1) [OF st, of "length c - 1"] assms(2) by (auto simp: last_conv_nth state_at_def)

lemma join_exists:
  assumes c: "chain_inv H V b z c" and st: "states c = chain_states (length c)" and l: "latest_marks b (V b)"
    and ok: "benign_join c junk s" and free: "\<not> changemode_locked (node (last c))"
  obtains c' n where "chain_join c junk s c'" "c' = c[length c - 1 := (last c)\<lparr>node := n\<rparr>] @ [last c']"
    "same_tables (node (last c)) n" "commitSeq (node (last c')) = commitSeq (node (last c))"
    "writeSeq (node (last c')) = commitSeq (node (last c))"
    "status (replayLog (node (last c'))) = status (replayLog (node (last c)))" "log_wf (replayLog (node (last c')))"
proof -
  let ?n = "node (last c)" and ?m = "commitSeq (node (last c))" and ?new = "start_server ''10.0.0.3'' 60051 s"
  have ne: "c \<noteq> []" by (rule chain_invD(1) [OF c])
  let ?st = "state_at (length c + 1) (length c - 1)"
  let ?next = "\<lparr>si_ip = ''10.0.0.3'', si_port = 60051\<rparr>"
  define rq where "rq = \<lparr>prev_addr = None, next_addr = Some ?next, new_state = int_of_state ?st,
      last_seq_num = reg_last_seq_num (register_message ?new)\<rparr>"
  have s: "state_of_int (new_state rq) = Some ?st" by (cases ?st) (simp_all add: rq_def)
  have q: "last_seq_num rq = reg_last_seq_num (register_message ?new)" by (simp add: rq_def)
  obtain es msgs s' log where r: "new_tail_calls (last_seq_num rq) ?n = Inr [Restore_call es, UpdateReplayLog_call msgs]"
    "Restore junk es ?new = Inr (?new\<lparr>vol := s', writeSeq := ?m, commitSeq := ?m, currentSeq := ?m + 1\<rparr>)"
    "UpdateReplayLog msgs (?new\<lparr>vol := s', writeSeq := ?m, commitSeq := ?m, currentSeq := ?m + 1\<rparr>) =
       Inr (?new\<lparr>vol := s', writeSeq := ?m, commitSeq := ?m, currentSeq := ?m + 1, replayLog := log\<rparr>)"
    "volume_inv ?m s'" "last_committed s' = ?m" "version_at s' ?m = V ?m" "log_wf log" "status log = status (replayLog ?n)"
    unfolding q by (rule join_requests [OF c l ok refl])
  obtain n where n: "ChangeMode rq ?n = Some (Inr 0, n, [Restore_call es, UpdateReplayLog_call msgs])"
    using ChangeMode_unfold [OF free s] tail_states [OF st ne] r(1) new_tail_neighbours by (auto simp: Let_def)
  show ?thesis
    by (rule that [OF tail_joined [OF ne refl s _ n r(2,3), of "\<lparr>si_ip = ''10.0.0.1'', si_port = 60051\<rparr>"]])
       (use ChangeMode_result(1) [OF n s] r(7,8) q in
         \<open>simp_all add: new_link_def registered_def launch_tail_def start_server_def Let_def\<close>)
qed

lemma chain_join_inv:
  assumes "chain_join c junk s c'" and ok: "benign_join c junk s" and c: "chain_inv H V b z c"
    and st: "states c = chain_states (length c)" and l: "latest_marks b (V b)"
  shows "chain_inv H V b z c'" "states c' = chain_states (length c')"
proof -
  from assms(1) have "chain_inv H V b z c' \<and> states c' = chain_states (length c')"
  proof cases
    case (tail_joined new address port request r n es msgs new1 new2 prev)
    let ?k = "length c - 1" and ?m = "commitSeq (node (last c))"
    have k: "?k < length c" "c ! ?k = last c" using tail_joined(2) by (simp_all add: last_conv_nth)
    have ni: "node_inv H V b z (node (last c))" using link_invD(1) [OF chain_invD(4) [OF c k(1)]] k(2) by simp
    obtain es' msgs' s' log where r: "new_tail_calls (last_seq_num request) (node (last c)) = Inr [Restore_call es', UpdateReplayLog_call msgs']"
        "Restore junk es' new = Inr (new\<lparr>vol := s', writeSeq := ?m, commitSeq := ?m, currentSeq := ?m + 1\<rparr>)"
        "UpdateReplayLog msgs' (new\<lparr>vol := s', writeSeq := ?m, commitSeq := ?m, currentSeq := ?m + 1\<rparr>) =
           Inr (new\<lparr>vol := s', writeSeq := ?m, commitSeq := ?m, currentSeq := ?m + 1, replayLog := log\<rparr>)"
      and s': "volume_inv ?m s'" "last_committed s' = ?m" "version_at s' ?m = V ?m" "log_wf log" "status log = status (replayLog (node (last c)))"
      unfolding tail_joined(5) tail_joined(3) by (rule join_requests [OF c l ok refl])
    have "new_tail_calls (last_seq_num request) (node (last c)) = Inr [Restore_call es, UpdateReplayLog_call msgs]"
      by (rule ChangeMode_new_tail [OF tail_joined(6,4)]) (use tail_states [OF st tail_joined(2)] in simp_all)
    then have new2: "new2 = (start_server address port s)\<lparr>vol := s', writeSeq := ?m, commitSeq := ?m, currentSeq := ?m + 1,
        replayLog := log\<rparr>"
      using r tail_joined(7,8) by (simp add: tail_joined(3))
    have t: "same_tables (node (c ! ?k)) n" "node_state n = state_at (length c + 1) ?k"
      using ChangeMode_result [OF tail_joined(6,4)] k(2) by simp_all
    let ?c = "c[?k := (c ! ?k)\<lparr>node := n\<rparr>]" and ?l = "new_link (registered (Some prev) new2)"
    have c': "c' = ?c @ [?l]" using tail_joined(1) k(2) by simp
    have "?m \<le> writeSeq (node (last c))" by (rule node_invD(5) [OF ni])
    moreover have "last ?c = (c ! ?k)\<lparr>node := n\<rparr>" using tail_joined(2) by (simp add: last_list_update)
    ultimately have "below_inv (last ?c) ?l"
      unfolding new2 by (intro below_joined) (use t(1) k(2) in \<open>simp_all add: same_tables_def\<close>)
    moreover have "link_inv H V b z ?l" unfolding new2 by (rule joined_link [OF ni s'(1-3) refl s'(4,5)])
    ultimately have "chain_inv H V b z c'"
      unfolding c' using chain_inv_append [OF chain_inv_same [OF c k(1) t(1)]] by blast
    moreover have "node_state (node (c' ! i)) = state_at (length c') i" if i: "i < length c'" for i
    proof -
      have "node_state (node (c ! i)) = state_at (length c) i" if "i < length c"
        using that arg_cong [OF st, of "\<lambda>xs. xs ! i"] by (simp add: states_def chain_states_def)
      note old = this
      have l: "node_state (node ?l) = TAIL" by (simp add: new_link_def registered_def launch_tail_def)
      have n: "length c' = length c + 1" by (simp add: c')
      consider "i = length c" | "i = ?k" | "i < ?k" using i k(1) n by linarith
      then show ?thesis
      proof cases
        case 1
        then have "c' ! i = ?l" by (simp add: c' nth_append)
        then show ?thesis using l 1 tail_joined(2) by (simp add: n state_at_def)
      next
        case 2
        then have "node (c' ! i) = n" using k(1) by (simp add: c' nth_append)
        then show ?thesis using t(2) 2 by (simp add: n)
      next
        case 3
        then have "c' ! i = c ! i" using k(1) by (simp add: c' nth_append)
        moreover have "Suc i < length c" using 3 by simp
        ultimately show ?thesis using old tail_joined(2) unfolding n by (simp add: state_at_def)
      qed
    qed
    then have "states c' = chain_states (length c')" unfolding states_def chain_states_def by (intro nth_equalityI) simp_all
    ultimately show ?thesis by blast
  qed
  then show "chain_inv H V b z c'" "states c' = chain_states (length c')" by simp_all
qed

section \<open>The life of a chain\<close>

inductive chain_life :: "chain \<Rightarrow> chain \<Rightarrow> bool" for c0 where
  start: "chain_life c0 c0"
| step: "chain_life c0 c \<Longrightarrow> chain_step c a c' \<Longrightarrow> benign c a \<Longrightarrow> chain_life c0 c'"
| lost: "chain_life c0 c \<Longrightarrow> chain_failure c f c' \<Longrightarrow> benign_failure c f \<Longrightarrow> chain_life c0 c'"
| joined: "chain_life c0 c \<Longrightarrow> chain_join c junk s c' \<Longrightarrow> benign_join c junk s \<Longrightarrow> chain_life c0 c'"

lemma chain_life_run: "chain_run c c' \<Longrightarrow> chain_life c0 c \<Longrightarrow> chain_life c0 c'"
  by (induction rule: chain_run.induct) (auto intro: chain_life.step)

lemmas chain_run_life = chain_life_run [OF _ chain_life.start]

text \<open>Whatever happens to a chain only adds writes to its history.\<close>

lemma chain_life_extends:
  assumes "chain_life c c'" and c: "chain_inv H V b z c" "states c = chain_states (length c)" and l: "latest_marks b (V b)"
  shows "(\<exists>H' V' z'. extends z V z' V' \<and> chain_inv H' V' b z' c') \<and> states c' = chain_states (length c')"
  using assms(1)
proof induction
  case start
  show ?case using c extends_refl by blast
next
  case (step d a d')
  obtain H' V' z' where d: "extends z V z' V'" "chain_inv H' V' b z' d" using step(4) by blast
  have "states d' = chain_states (length d')"
    using chain_step_states [OF step(2)] step(4) by (metis length_map states_def)
  then show ?case using chain_step_inv [OF step(2,3) d(2)] step(4) extends_trans [OF d(1)] by blast
next
  case (lost d f d')
  then show ?case using chain_failure_inv chain_failure_states by metis
next
  case (joined d junk s d')
  obtain H' V' z' where d: "extends z V z' V'" "chain_inv H' V' b z' d" using joined(4) by blast
  have "latest_marks b (V' b)" using l d(1) chain_invD(2) [OF c(1)] by (simp add: extends_def history_def)
  then show ?case using chain_join_inv [OF joined(2,3) d(2)] joined(4) d(1) by blast
qed

lemma chain_life_inv:
  assumes "chain_life c0 c" and "started_chain b v c0"
  shows "(\<exists>H V z. V b = v \<and> chain_inv H V b z c) \<and> states c = chain_states (length c)"
proof -
  have "states c0 = chain_states (length c0)" "latest_marks b ((\<lambda>_. v) b)" using assms(2) by (simp_all add: started_chain_def)
  from chain_life_extends [OF assms(1) started_chain_inv [OF assms(2)] this] show ?thesis
    by (auto simp: extends_def)
qed

lemma chain_life_trans: "chain_life c c' \<Longrightarrow> chain_life c0 c \<Longrightarrow> chain_life c0 c'"
  by (induction rule: chain_life.induct) (auto intro: chain_life.intros)

section \<open>A life with a loss and a join\<close>

text \<open>
  The chain of two makes its first write and loses its tail; then a new server joins, with an empty
  volume.
\<close>

lemma demo_lost:
  obtains l where "chain_life new_chain [l]" "commitSeq (node l) = 1" "writeSeq (node l) = 1"
    "fst (WriteAck (wr_id demo_request) (node l))" "\<not> changemode_locked (node l)"
    "version_at (vol (node l)) 1 = mark_write 1 8192 (replicate 4095 7 @ [0]) blank"
proof -
  obtain c where c: "chain_run new_chain c" "length c = 2" "\<And>i. i < 2 \<Longrightarrow> settled 1 1 (c ! i)"
      "\<And>i. i < 2 \<Longrightarrow> version_at (vol (node (c ! i))) 1 = mark_write 1 8192 (replicate 4095 7 @ [0]) blank"
      "\<And>i. i < 2 \<Longrightarrow> fst (WriteAck (wr_id demo_request) (node (c ! i)))"
    using demo_run by metis
  obtain m where m: "ChangeMode to_single (node (c ! 0)) = Some (Inr 0, m, [])"
    using to_single_mode demo_unlocked [OF c(1), of 0] by (metis zero_less_numeral)
  have s: "state_of_int (new_state to_single) = Some SINGLE" by (simp add: to_single_def)
  have "chain_failure c (Tail_lost 1) ((take 1 c)[1 - 1 := (c ! (1 - 1))\<lparr>node := m\<rparr>])"
    by (rule tail_lost [of 1 c to_single 0]) (use c(2) s m in \<open>simp_all add: state_at_def\<close>)
  moreover have "(take 1 c)[1 - 1 := (c ! (1 - 1))\<lparr>node := m\<rparr>] = [(c ! 0)\<lparr>node := m\<rparr>]"
    using c(2) by (cases c) simp_all
  ultimately have "chain_life new_chain [(c ! 0)\<lparr>node := m\<rparr>]"
    using chain_life.lost [OF chain_run_life [OF c(1)]] by (simp add: benign_failure_def)
  moreover have t: "same_tables (node (c ! 0)) m" by (rule ChangeMode_result(1) [OF m s])
  moreover have "\<not> changemode_locked m"
    using m demo_unlocked [OF c(1), of 0] ChangeMode_unfold [OF _ s, of "node (c ! 0)"] by (auto simp: Let_def)
  ultimately show ?thesis
    using that [of "(c ! 0)\<lparr>node := m\<rparr>"] c(3-5) [of 0] by (simp add: same_tables_def settled_def WriteAck_def Let_def case_prod_unfold)
qed

lemma demo_join:
  assumes l: "writeSeq (node l) = 1" "commitSeq (node l) = 1" and a: "atomic_inv 1 (vol (node l))"
    and v: "version_at (vol (node l)) 1 = mark_write 1 8192 (replicate 4095 7 @ [0]) blank"
  shows "benign_join [l] (\<lambda>_. 0) new_volume"
proof -
  have c: "cell 8192" by (simp add: cell_def in_volume_def VOLUME_SIZE_def aligned_def)
  note s = one_stamp [OF a v c]
  have n: "last_committed new_volume = 0" by (simp add: new_volume_committed)
  have u: "up_to 0 (version_at new_volume 0) (version_at (vol (node l)) 1)"
    unfolding v new_volume_blank by (rule up_to_write [OF up_to_refl _ c]) simp
  have V: "volume (vol (node l)) 1 = spec_write 8192 (replicate 4095 7 @ [0]) (fst blank)"
    using v by (simp add: version_at_def mark_write_def)
  have "text_block (spec_read 8192 (volume (vol (node l)) 1))"
    unfolding V by (subst spec_read_write) (simp_all add: text_block_def butlast_append)
  moreover have "atomic_safe (\<lambda>_. 0) 8192 (num_total_blocks new_volume + 7)"
    by (simp add: atomic_safe_def new_volume_total get_second_level_def get_third_level_def)
  ultimately show ?thesis
    unfolding benign_join_def Let_def n using l u s new_volumes(1) by simp
qed

lemma demo_life:
  obtains c where "chain_life new_chain c" "length c = 2" "\<And>l. l \<in> set c \<Longrightarrow> commitSeq (node l) = 1"
    "\<And>l. l \<in> set c \<Longrightarrow> writeSeq (node l) = 1" "\<And>l. l \<in> set c \<Longrightarrow> fst (WriteAck (wr_id demo_request) (node l))"
proof -
  obtain l where l: "chain_life new_chain [l]" "commitSeq (node l) = 1" "writeSeq (node l) = 1"
    "fst (WriteAck (wr_id demo_request) (node l))" "\<not> changemode_locked (node l)"
    "version_at (vol (node l)) 1 = mark_write 1 8192 (replicate 4095 7 @ [0]) blank"
    by (rule demo_lost)
  obtain H V z where c: "V 0 = blank" "chain_inv H V 0 z [l]" and st: "states [l] = chain_states (length [l])"
    using chain_life_inv [OF l(1) new_chain_started] by blast
  have n: "node_inv H V 0 z (node l)" using link_invD(1) [OF chain_invD(4) [OF c(2), of 0]] by simp
  have j: "benign_join [l] (\<lambda>_. 0) new_volume"
    by (rule demo_join) (use quiet_volume(1) [OF n] l in simp_all)
  have "latest_marks 0 (V 0)" by (simp add: c(1) latest_marks_blank)
  from join_exists [OF c(2) st this j] l(5) obtain c' m where c': "chain_join [l] (\<lambda>_. 0) new_volume c'" "c' = [l\<lparr>node := m\<rparr>, last c']"
      "same_tables (node l) m" "commitSeq (node (last c')) = 1" "writeSeq (node (last c')) = 1"
      "status (replayLog (node (last c'))) = status (replayLog (node l))" "log_wf (replayLog (node (last c')))"
    using l(2) by auto
  have w: "fst (WriteAck r n) \<longleftrightarrow> fst (spec_ack (request_key r) (status (replayLog n))) = 0" if "log_wf (replayLog n)" for r n
    using ackLogEntry_result [OF that] by (simp add: WriteAck_def Let_def case_prod_unfold)
  have wf: "log_wf (replayLog (node l))" "log_wf (replayLog m)" "replayLog m = replayLog (node l)"
    using node_invD(8) [OF n] c'(3) by (simp_all add: log_committed_def same_tables_def)
  have ack: "fst (WriteAck (wr_id demo_request) m)" "fst (WriteAck (wr_id demo_request) (node (last c')))"
    using l(4) c'(6) wf w [OF wf(1)] w [OF wf(2)] w [OF c'(7)] by simp_all
  have mem: "x = l\<lparr>node := m\<rparr> \<or> x = last c'" if "x \<in> set c'" for x using that by (subst (asm) c'(2)) auto
  show ?thesis
  proof (rule that [of c'])
    show "chain_life new_chain c'" by (rule chain_life.joined [OF l(1) c'(1) j])
    show "length c' = 2" by (subst c'(2)) simp
    show "commitSeq (node x) = 1" "writeSeq (node x) = 1" "fst (WriteAck (wr_id demo_request) (node x))" if "x \<in> set c'" for x
      using mem [OF that] c'(3-5) l(2,3) ack by (auto simp: same_tables_def)
  qed
qed

end
