(* ===== verification/Chain_Writes.thy ===== *)
theory Chain_Writes
  imports Chain_Life
begin

text \<open>
  The life of a chain together with the writes its clients were told are accepted: \<open>served c0 ws c\<close> is \<open>chain_life\<close> with
  the list \<open>ws\<close> of the accepted requests, each with the sequence number the head's \<^verbatim>\<open>Write\<close> returned. The history the servers hold
  is exactly this list.
\<close>

section \<open>Accepted writes\<close>

type_synonym accepted_write = "int \<times> write_request"

text \<open>A reply with sequence number 0 is a refusal.\<close>

definition accepted :: "write_request \<Rightarrow> cpp_error + int \<Rightarrow> accepted_write list" where
  "accepted request reply = (case reply of Inr q \<Rightarrow> if q = 0 then [] else [(q, request)] | Inl _ \<Rightarrow> [])"

inductive served :: "chain \<Rightarrow> accepted_write list \<Rightarrow> chain \<Rightarrow> bool" for c0 where
  start: "served c0 [] c0"
| client: "served c0 ws c \<Longrightarrow> chain_step c (Client_write request) c' \<Longrightarrow> benign c (Client_write request) \<Longrightarrow>
    served c0 (ws @ accepted request (fst (Write request (node (c ! 0))))) c'"
| step: "served c0 ws c \<Longrightarrow> chain_step c a c' \<Longrightarrow> benign c a \<Longrightarrow> (\<And>request. a \<noteq> Client_write request) \<Longrightarrow> served c0 ws c'"
| lost: "served c0 ws c \<Longrightarrow> chain_failure c f c' \<Longrightarrow> benign_failure c f \<Longrightarrow> served c0 ws c'"
| joined: "served c0 ws c \<Longrightarrow> chain_join c junk s c' \<Longrightarrow> benign_join c junk s \<Longrightarrow> served c0 ws c'"

lemma served_life: "served c0 ws c \<Longrightarrow> chain_life c0 c"
  by (induction rule: served.induct) (auto intro: chain_life.intros)

lemma life_served: "chain_life c0 c \<Longrightarrow> \<exists>ws. served c0 ws c"
proof (induction rule: chain_life.induct)
  case (step c a c')
  then obtain ws where ws: "served c0 ws c" by blast
  show ?case
  proof (cases "\<exists>request. a = Client_write request")
    case True
    then show ?thesis using served.client [OF ws] step(2,3) by blast
  next
    case False
    then show ?thesis using served.step [OF ws step(2,3)] by blast
  qed
qed (blast intro: served.intros)+

text \<open>The version after accepted writes: each replaces one block and marks it with its number.\<close>

definition apply_write :: "accepted_write \<Rightarrow> version \<Rightarrow> version" where
  "apply_write w = (case w of (q, request) \<Rightarrow>
     mark_write q (to_int64 (wr_offset request)) (stored_block (take BLOCK_SIZE (wr_data request))))"

definition apply_writes :: "accepted_write list \<Rightarrow> version \<Rightarrow> version" where
  "apply_writes ws v = fold apply_write ws v"

section \<open>The history is the list of accepted writes\<close>

text \<open>\<open>H\<close> and \<open>V\<close> are the entries and versions the accepted writes make.\<close>

definition history_of :: "int \<Rightarrow> version \<Rightarrow> accepted_write list \<Rightarrow> (int \<Rightarrow> pendingQueueEntry) \<Rightarrow> (int \<Rightarrow> version) \<Rightarrow> bool" where
  "history_of b v ws H V \<longleftrightarrow> V b = v \<and> (\<forall>i < length ws. fst (ws ! i) = b + int i + 1 \<and>
     H (b + int i + 1) = head_entry (snd (ws ! i)) (b + int i + 1) \<and>
     V (b + int i + 1) = apply_write (ws ! i) (V (b + int i)))"

lemma history_of_append:
  assumes h: "history_of b v ws H V" and z: "z = b + int (length ws)" and e: "e = head_entry request (z + 1)"
  shows "history_of b v (ws @ [(z + 1, request)]) (H(z + 1 := e)) (V(z + 1 := next_version_of e (V z)))"
  unfolding history_of_def
proof (intro conjI allI impI)
  fix i
  assume "i < length (ws @ [(z + 1, request)])"
  then consider "i < length ws" | "i = length ws" by fastforce
  note cases = this
  show "fst ((ws @ [(z + 1, request)]) ! i) = b + int i + 1"
    using cases h z by cases (simp_all add: nth_append history_of_def)
  show "(H(z + 1 := e)) (b + int i + 1) = head_entry (snd ((ws @ [(z + 1, request)]) ! i)) (b + int i + 1)"
    using cases h z e by cases (simp_all add: nth_append history_of_def)
  show "(V(z + 1 := next_version_of e (V z))) (b + int i + 1) =
      apply_write ((ws @ [(z + 1, request)]) ! i) ((V(z + 1 := next_version_of e (V z))) (b + int i))"
    using cases h z e
    by cases (simp_all add: nth_append history_of_def next_version_of_def apply_write_def head_entry_def)
qed (use h z in \<open>simp add: history_of_def\<close>)

lemma history_of_version:
  assumes h: "history_of b v ws H V" and "n \<le> length ws"
  shows "V (b + int n) = apply_writes (take n ws) v"
  using assms(2)
proof (induction n)
  case 0
  show ?case using h by (simp add: history_of_def apply_writes_def)
next
  case (Suc n)
  have "V (b + int n + 1) = apply_write (ws ! n) (V (b + int n))" using h Suc.prems by (simp add: history_of_def)
  moreover have "take (Suc n) ws = take n ws @ [ws ! n]" using Suc.prems by (simp add: take_Suc_conv_app_nth)
  ultimately show ?case using Suc by (simp add: apply_writes_def add.commute add.left_commute)
qed

text \<open>The writes with numbers up to \<open>m\<close> are the first ones of the list.\<close>

lemma writes_up_to:
  assumes h: "history_of b v ws H V" and "n \<le> length ws"
  shows "filter (\<lambda>w. fst w \<le> b + int n) ws = take n ws"
proof -
  have f: "fst (ws ! i) = b + int i + 1" if "i < length ws" for i using h that by (simp add: history_of_def)
  have "fst w \<le> b + int n" if w: "w \<in> set (take n ws)" for w
  proof -
    obtain i where "w = ws ! i" "i < n" "i < length ws" using w by (auto simp: in_set_conv_nth)
    then show ?thesis using f [of i] by simp
  qed
  then have "filter (\<lambda>w. fst w \<le> b + int n) (take n ws) = take n ws" by (simp add: filter_id_conv)
  moreover have "\<not> fst w \<le> b + int n" if w: "w \<in> set (drop n ws)" for w
  proof -
    obtain i where "w = ws ! (n + i)" "n + i < length ws" using w assms(2) by (auto simp: in_set_conv_nth)
    then show ?thesis using f [of "n + i"] by simp
  qed
  then have "filter (\<lambda>w. fst w \<le> b + int n) (drop n ws) = []" by (simp add: filter_empty_conv)
  ultimately show ?thesis by (metis append_Nil2 append_take_drop_id filter_append)
qed

lemma served_inv:
  assumes "served c0 ws c" and s: "started_chain b v c0"
  shows "\<exists>H V. history_of b v ws H V \<and> chain_inv H V b (b + int (length ws)) c"
  using assms(1)
proof induction
  case start
  show ?case using started_chain_inv [OF s] by (intro exI [of _ "\<lambda>_. undefined"] exI [of _ "\<lambda>_. v"]) (simp add: history_of_def)
next
  case (client ws c request c')
  then obtain H V where h: "history_of b v ws H V" and c: "chain_inv H V b (b + int (length ws)) c" by blast
  let ?z = "b + int (length ws)" and ?e = "head_entry request (b + int (length ws) + 1)"
  obtain r n where w: "Write request (node (c ! 0)) = (r, n)" "c' = c[0 := (c ! 0)\<lparr>node := n\<rparr>]"
    using client(2) by cases auto
  have wf: "log_wf (replayLog (node (c ! 0)))"
    using node_invD(8) [OF link_invD(1) [OF chain_invD(4) [OF c, of 0]]] chain_invD(1) [OF c] by (simp add: log_committed_def)
  show ?case
  proof (cases "fst (addToLog (wr_id request) (replayLog (node (c ! 0)))) < 0")
    case True
    then have "r = Inr 0" "n = node (c ! 0)" using Write_refused [OF wf True] w(1) by simp_all
    then show ?thesis using h c w by (simp add: accepted_def) blast
  next
    case False
    then have a: "fst (addToLog (wr_id request) (replayLog (node (c ! 0)))) = 0" using addToLog_code [OF wf] by blast
    have z: "0 \<le> ?z" using chain_invD(2) [OF c] by (simp add: history_def)
    have r: "r = Inr (?z + 1)" and c'': "chain_inv (H(?z + 1 := ?e)) (V(?z + 1 := next_version_of ?e (V ?z))) b (?z + 1) c'"
      using client_write_accepted [OF c client(3) a refl] w by (metis prod.inject)+
    have "accepted request (fst (Write request (node (c ! 0)))) = [(?z + 1, request)]" using w(1) r z by (simp add: accepted_def)
    then show ?thesis using history_of_append [OF h refl refl, of request] c'' by (auto simp: add.commute add.left_commute)
  qed
next
  case (step ws c a c')
  have "states c = chain_states (length c)" using chain_life_inv [OF served_life [OF step(1)] s] by blast
  then show ?case using step server_step_inv [OF step(2,3)] by blast
next
  case (lost ws c f c')
  then show ?case using chain_failure_inv by blast
next
  case (joined ws c junk s' c')
  have st: "states c = chain_states (length c)" using chain_life_inv [OF served_life [OF joined(1)] s] by blast
  obtain H V where h: "history_of b v ws H V" and c: "chain_inv H V b (b + int (length ws)) c" using joined(4) by blast
  have "latest_marks b (V b)" using h s by (simp add: history_of_def started_chain_def)
  then show ?case using chain_join_inv(1) [OF joined(2,3) c st] h by blast
qed

text \<open>Every version a server holds is what the accepted writes up to its number make.\<close>

lemma served_version:
  assumes h: "history_of b v ws H V" and n: "node_inv H V b (b + int (length ws)) n" and k: "commitSeq n \<le> k" "k \<le> writeSeq n"
  shows "version_at (vol n) k = apply_writes (filter (\<lambda>w. fst w \<le> k) ws) v"
proof -
  define i where "i = nat (k - b)"
  have i: "k = b + int i" "i \<le> length ws" using k node_invD(4-6) [OF n] by (auto simp: i_def)
  have "version_at (vol n) k = V k" using node_invD(2,3) [OF n] k by (simp add: st.holds_def)
  then show ?thesis unfolding i(1) using history_of_version [OF h i(2)] writes_up_to [OF h i(2)] by simp
qed

end
