(* ===== verification/Chain_Checksum.thy ===== *)
theory Chain_Checksum
  imports Chain_Life
begin

text \<open>
  The checksum of a chain: the head computes its own, asks the server below it, and so on to the tail. The
  checksum of a server depends only on its committed version, so servers that have committed the same
  writes have the same checksum.
\<close>

section \<open>The calls along the chain\<close>

definition lower_checksum :: "(byte list \<Rightarrow> byte list) \<Rightarrow> chain \<Rightarrow> checksum_reply option" where
  "lower_checksum md5 c = foldr (\<lambda>l below. ChecksumChain md5 True below (node l)) c None"

definition chain_checksum :: "(byte list \<Rightarrow> byte list) \<Rightarrow> chain \<Rightarrow> checksum_reply option" where
  "chain_checksum md5 c = ChecksumSystem md5 (lower_checksum md5 (tl c)) (node (hd c))"

section \<open>Checksum of a version\<close>

lemma block_of_volume:
  assumes "storage_inv w s" and "cell v"
  shows "block_at (disk s) (root_of s n) v = spec_read v (volume s n)"
proof (rule nth_equalityI)
  have len: "length (block_at (disk s) (root_of s n) v) = BLOCK_SIZE"
    using is_block_at [of "disk s"] storage_invD(6) [OF assms(1)] by (simp add: is_block_def)
  then show "length (block_at (disk s) (root_of s n) v) = length (spec_read v (volume s n))" by (simp add: spec_read_def)
  fix i
  assume "i < length (block_at (disk s) (root_of s n) v)"
  then have i: "i < BLOCK_SIZE" by (simp add: len)
  have v: "aligned v" "access_ok v" using cell_access(1,2) [OF assms(2)] by simp_all
  have x: "v + int i - (v + int i) mod 4096 = v" using block_start_eq [OF v(1)] i by simp
  then have "(v + int i) mod 4096 = int i" by linarith
  moreover have "in_volume (v + int i)" using v(2) i by (simp add: access_ok_def in_volume_def)
  ultimately show "block_at (disk s) (root_of s n) v ! i = spec_read v (volume s n) ! i"
    using i x by (simp add: spec_read_def volume_def bytes_of_def)
qed

lemma same_version_checksum:
  assumes s: "storage_inv w s" and t: "storage_inv w' t"
    and v: "version_at s (last_committed s) = version_at t (last_committed t)"
  shows "storage_checksum md5 s = storage_checksum md5 t" "\<exists>x. storage_checksum md5 s = Some x"
proof -
  have wf: "wf_tree (disk s) (file_blocks s) (committed_root s)" if "storage_inv w s" for w s
    using storage_invD(3) [OF that order_refl storage_invD(1) [OF that]] root_of_committed(2) [OF that] by simp
  have vol: "volume s (last_committed s) = volume t (last_committed t)" and mk: "marks s (last_committed s) = marks t (last_committed t)"
    using v by (simp_all add: version_at_def)
  have "used s u = used t u \<and> block_at (disk s) (committed_root s) u = block_at (disk t) (committed_root t) u" if "cell u" for u
  proof -
    have "used s u = used t u"
      using fun_cong [OF mk, of u] that by (simp add: marks_def used_def root_of_committed(2) [OF s] root_of_committed(2) [OF t])
    moreover have "block_at (disk s) (committed_root s) u = block_at (disk t) (committed_root t) u"
      using block_of_volume [OF s that, of "last_committed s"] block_of_volume [OF t that, of "last_committed t"] vol
      by (simp add: root_of_committed(2) [OF s] root_of_committed(2) [OF t])
    ultimately show ?thesis by blast
  qed
  from checksum_cells [OF wf [OF s] wf [OF t] this, of md5]
  show "storage_checksum md5 s = storage_checksum md5 t" "\<exists>x. storage_checksum md5 s = Some x" by blast+
qed

lemma node_checksum:
  assumes "node_inv H V b z n" "node_inv H V b z n'" and "commitSeq n = commitSeq n'"
  shows "storage_checksum md5 (vol n) = storage_checksum md5 (vol n')" "\<exists>x. storage_checksum md5 (vol n) = Some x"
proof -
  note a = node_invD(2,3,5) [OF assms(1)] and b = node_invD(2,3,5) [OF assms(2)]
  have s: "storage_inv (writeSeq n) (vol n)" "storage_inv (writeSeq n') (vol n')"
    using a(1) b(1) by (simp_all add: st.holds_def volume_inv_def)
  have "version_at (vol n) (last_committed (vol n)) = version_at (vol n') (last_committed (vol n'))"
    unfolding a(2) b(2) assms(3) by (rule st.holds_agree [OF a(1) b(1)]) (use a b assms(3) in simp_all)
  from same_version_checksum [OF s this, of md5]
  show "storage_checksum md5 (vol n) = storage_checksum md5 (vol n')" "\<exists>x. storage_checksum md5 (vol n) = Some x" by blast+
qed

lemma new_volume_checksum: "storage_checksum md5 new_volume = Some (concat (map byte_to_hex (md5 [])))"
  by (simp add: storage_checksum_def block_digests_def new_volume_def new_process_def first_level_block_def)

section \<open>A chain that has committed the same writes\<close>

lemma lower_checksum_same:
  assumes "c \<noteq> []" and "\<forall>l \<in> set c. storage_checksum md5 (vol (node l)) = Some x"
    and "node_state (node (last c)) = TAIL \<or> node_state (node (last c)) = SINGLE"
  shows "lower_checksum md5 c = Some \<lparr>chk_sum = x, valid = True\<rparr>"
  using assms
proof (induction c)
  case (Cons l c)
  then show ?case by (cases "c = []") (auto simp: lower_checksum_def ChecksumChain_def)
qed simp

lemma chain_checksum_same:
  assumes "c \<noteq> []" and "\<forall>l \<in> set c. storage_checksum md5 (vol (node l)) = Some x"
    and "node_state (node (last c)) = TAIL \<or> node_state (node (last c)) = SINGLE"
  shows "chain_checksum md5 c = Some \<lparr>chk_sum = x, valid = True\<rparr>"
proof -
  have "chain_checksum md5 c = lower_checksum md5 c"
    using assms(1) by (cases c) (simp_all add: chain_checksum_def lower_checksum_def ChecksumSystem_def)
  then show ?thesis using lower_checksum_same [OF assms] by simp
qed



section \<open>What the reported validity compares\<close>

text \<open>The checksum of a volume with one block, for a digest that keeps the first byte.\<close>

lemma filter_single: "distinct xs \<Longrightarrow> x \<in> set xs \<Longrightarrow> filter (\<lambda>y. y = x) xs = [x]"
  by (induction xs) (auto simp: filter_empty_conv)

lemma one_block_checksum:
  assumes a: "atomic_inv 1 s" and v: "version_at s 1 = mark_write 1 0 one_text blank"
  shows "storage_checksum (take 1) s = Some (byte_to_hex 65)"
proof -
  have inv: "storage_inv 1 s" and lc: "last_committed s = 1" using a by (simp_all add: atomic_inv_def volume_inv_def)
  have c: "cell 0" by (simp add: cell_def in_volume_def VOLUME_SIZE_def aligned_def)
  have u: "used s y \<longleftrightarrow> y = 0" if "cell y" for y
  proof -
    have "marks s 1 y = snd (mark_write 1 0 one_text blank) y" using arg_cong [OF v, of snd] by (simp add: version_at_def)
    then show ?thesis using stamp_marks [OF a that] by (auto simp: mark_write_def blank_def split: if_splits)
  qed
  have "volume s 1 = spec_write 0 one_text (fst blank)" using v by (simp add: version_at_def mark_write_def)
  then have "block_at (disk s) (committed_root s) 0 = one_text"
    using block_of_volume [OF inv c, of 1] root_of_committed(2) [OF inv] lc spec_read_write [of one_text 0] by (simp add: one_text_def)
  then have "(if used s y then take 1 (block_at (disk s) (committed_root s) y) else []) = (if y = 0 then [65] else [])" if "cell y" for y
    using u [OF that] by (simp add: one_text_def)
  then have "block_digests (take 1) s = Some (concat (map (\<lambda>y. if y = 0 then [65] else []) volume_cells))"
    unfolding digests_walk [OF atomic_tree [OF a]] using volume_cells(1) by (intro arg_cong [of _ _ Some] arg_cong [of _ _ concat] map_cong) auto
  also have "concat (map (\<lambda>y. if y = 0 then [65 :: byte] else []) volume_cells) = [65]"
    using filter_single [OF volume_cells(2), of 0] volume_cells(1) c by (simp add: concat_map_if [where f = "\<lambda>_. 65"])
  finally show ?thesis by (simp add: storage_checksum_def)
qed

text \<open>
  C39. The validity a client gets for the checksum of a chain of any length compares the checksums of the
  first two servers only: whatever the servers further down compute, the reply has the head's
  checksum and is valid exactly when the second server's is the same.
\<close>

theorem checksum_compares_first_two:
  assumes "states c = chain_states (length c)" and "2 \<le> length c"
    and "\<forall>i < length c. storage_checksum md5 (vol (node (c ! i))) = Some (x i)"
  shows "chain_checksum md5 c = Some \<lparr>chk_sum = x 0, valid = (x 1 = x 0)\<rparr>"
proof -
  obtain l m c' where c: "c = l # m # c'" using assms(2) by (metis Suc_le_length_iff numeral_2_eq_2)
  have l: "node_state (node l) \<noteq> TAIL \<and> node_state (node l) \<noteq> SINGLE" using states_nth(1) [OF assms(1), of 0] by (simp add: c)
  have x: "storage_checksum md5 (vol (node l)) = Some (x 0)" "storage_checksum md5 (vol (node m)) = Some (x 1)"
    using assms(3) [rule_format, of 0] assms(3) [rule_format, of 1] by (simp_all add: c)
  obtain r where "lower_checksum md5 (m # c') = Some r" "chk_sum r = x 1"
    using x(2) by (simp add: lower_checksum_def ChecksumChain_def)
  then show ?thesis using l x(1) by (simp add: c chain_checksum_def ChecksumSystem_def ChecksumChain_def)
qed

text \<open>A chain of three servers whose tail alone has a block: its checksum differs and the reply is valid.\<close>

theorem checksum_compares_first_two_witness:
  "\<exists>s. one_block s \<and>
    (let server = (\<lambda>st vol. new_link ((start_server ''10.0.0.1'' 18001 vol)\<lparr>node_state := st\<rparr>));
         c = [server HEAD new_volume, server MIDDLE new_volume, server TAIL s]
     in storage_checksum (take 1) (vol (node (c ! 2))) = Some (byte_to_hex 65) \<and>
        storage_checksum (take 1) (vol (node (c ! 0))) = Some '''' \<and> byte_to_hex 65 \<noteq> '''' \<and>
        chain_checksum (take 1) c = Some \<lparr>chk_sum = '''', valid = True\<rparr>)"
proof -
  obtain s where s: "one_block s" "atomic_inv 1 s" "version_at s 1 = mark_write 1 0 one_text blank" by (rule one_block)
  let ?server = "\<lambda>st vol. new_link ((start_server ''10.0.0.1'' 18001 vol)\<lparr>node_state := st\<rparr>)"
  let ?c = "[?server HEAD new_volume, ?server MIDDLE new_volume, ?server TAIL s]"
  have f: "vol (node (?server st v)) = v" "node_state (node (?server st v)) = st" for st v
    by (simp_all add: new_link_def start_server_def Let_def)
  have cs: "storage_checksum (take 1) s = Some (byte_to_hex 65)" "storage_checksum (take 1) new_volume = Some ''''"
    by (rule one_block_checksum [OF s(2,3)], simp add: new_volume_checksum)
  have st: "states ?c = chain_states (length ?c)" by (simp add: states_def chain_states_def state_at_def upt_rec f)
  have "chain_checksum (take 1) ?c = Some \<lparr>chk_sum = (\<lambda>i :: nat. if i = 2 then byte_to_hex 65 else '''') 0,
      valid = ((\<lambda>i :: nat. if i = 2 then byte_to_hex 65 else '''') 1 = (\<lambda>i :: nat. if i = 2 then byte_to_hex 65 else '''') 0)\<rparr>"
  proof (rule checksum_compares_first_two [OF st])
    show "\<forall>i < length ?c. storage_checksum (take 1) (vol (node (?c ! i))) = Some (if i = 2 then byte_to_hex 65 else '''')"
      using cs f(1) by (auto simp: less_Suc_eq numeral_2_eq_2)
  qed simp
  moreover have "byte_to_hex 65 \<noteq> ''''" by (simp add: byte_to_hex_def)
  ultimately show ?thesis using s(1) cs f(1) by (auto simp: Let_def)
qed

end
