(* ===== verification/Rejoin.thy ===== *)
theory Rejoin
  imports Chain_Life
begin

text \<open>
  The chain over time: a version never changes once a server holds it, so a server that crashes and
  joins again later brings an old version of the same history and is brought up to date.
\<close>

section \<open>Versions over time\<close>

text \<open>
  C7. What has been written stays written. If a server holds the version after write \<open>k\<close>, and after
  whatever happens to the chain then (writes, losses of servers at the end or in the middle, joins of new
  tails, all as in \<open>chain_life\<close>) some server holds the version after write \<open>k\<close>, the two are the same: same contents, and the same last write of
  each block. The loss of the head is not among these events, and has to be excluded: a server promoted to head gives out
  numbers again (\<open>promoted_head_stalls\<close>).
\<close>

theorem versions_persist:
  assumes "started_chain b v c0" and "chain_life c0 c" and "chain_life c c'" and "l \<in> set c" and "l' \<in> set c'"
    and "commitSeq (node l) \<le> k" and "k \<le> writeSeq (node l)" and "commitSeq (node l') \<le> k" and "k \<le> writeSeq (node l')"
  shows "version_at (vol (node l')) k = version_at (vol (node l)) k"
proof -
  obtain H V z where V: "V b = v" and c: "chain_inv H V b z c" and st: "states c = chain_states (length c)"
    using chain_life_inv [OF assms(2,1)] by blast
  have lm: "latest_marks b (V b)" using assms(1) V by (simp add: started_chain_def)
  obtain H' V' z' where e: "extends z V z' V'" and c': "chain_inv H' V' b z' c'" using chain_life_extends [OF assms(3) c st lm] by blast
  have n: "node_inv H V b z (node l)" "node_inv H' V' b z' (node l')"
    using assms(4,5) chain_invD(4) [OF c] chain_invD(4) [OF c'] link_invD(1) by (metis in_set_conv_nth)+
  have "version_at (vol (node l)) k = V k" "version_at (vol (node l')) k = V' k"
    using node_invD(2,3) [OF n(1)] node_invD(2,3) [OF n(2)] assms(6-9) by (simp_all add: st.holds_def)
  moreover have "k \<le> z" using node_invD(6) [OF n(1)] assms(7) by simp
  ultimately show ?thesis using e by (simp add: extends_def)
qed

theorem versions_persist_witness:
  "\<exists>c l c' l'. chain_life new_chain c \<and> chain_life c c' \<and> l \<in> set c \<and> l' \<in> set c' \<and> commitSeq (node l) = 1 \<and>
    version_at (vol (node l')) 1 = version_at (vol (node l)) 1"
proof -
  obtain c where c: "chain_life new_chain c" "length c = 2" "\<And>l. l \<in> set c \<Longrightarrow> commitSeq (node l) = 1"
    "\<And>l. l \<in> set c \<Longrightarrow> writeSeq (node l) = 1" by (rule demo_life) blast
  have m: "c ! 0 \<in> set c" "c ! 1 \<in> set c" using c(2) by simp_all
  have "version_at (vol (node (c ! 1))) 1 = version_at (vol (node (c ! 0))) 1"
    by (rule versions_persist [OF new_chain_started c(1) chain_life.start m]) (use c(3,4) m in simp_all)
  then show ?thesis using c(1,3) m chain_life.start by blast
qed

section \<open>A crashed server comes back\<close>

lemma crash_version:
  assumes s: "volume_inv w s" and d: "crash_image s d n" "n < 2 ^ 31"
  obtains s' where "open_volume (new_process d n) = Some s'" "atomic_inv (last_committed s) s'"
    "version_at s' (last_committed s) = version_at s (last_committed s)" "num_total_blocks s' = max 1 n"
proof -
  have inv: "storage_inv w s" using s by (simp add: volume_inv_def)
  obtain s' where o: "open_volume (new_process d n) = Some s'" and i: "storage_inv (last_committed s) s'"
    "last_committed s' = last_committed s" "volume s' (last_committed s) = volume s (last_committed s)"
    "\<And>p. raw_path p \<Longrightarrow> addr (disk s') (committed_root s') p = addr (disk s) (committed_root s) p" "num_total_blocks s' = max 1 n"
    by (rule crash_reopens [OF inv d]) blast
  have "root_of s' (last_committed s) = committed_root s'" using root_of_committed(2) [OF i(1)] i(2) by simp
  then have "marks s' (last_committed s) = marks s (last_committed s)"
    using root_of_committed(2) [OF inv] i(4) by (simp add: marks_def fun_eq_iff)
  moreover have "atomic_inv (last_committed s) s'"
    using i(1,2,5) d(2) by (auto simp: atomic_inv_def volume_inv_def tracked_def)
  ultimately show ?thesis using that o i by (simp add: version_at_def)
qed

text \<open>
  C10. A server that crashes can come back. Take any server of the chain at any moment, with
  whatever its last unsynchronised block writes have left on its disk, and let the chain live on (without losing its head). If its disk is then opened
  and its server registers again, behind a tail that has no uncommitted writes and has committed at least what the server had, the
  server joins as the new tail and holds the version of the old one. The blocks written in the meantime have to be ones that can be sent (below 2 GiB, ending
  in their only NUL, the latest with the highest offset), and there has to be room for them.
\<close>

theorem crashed_server_rejoins:
  assumes "started_chain b v c0" and "chain_life c0 c" and "l \<in> set c"
    and d: "crash_image (vol (node l)) d n" "n < 2 ^ 31" and life: "chain_life c c'" and free: "\<not> changemode_locked (node (last c'))"
    and t: "t = vol (node (last c'))" "m = commitSeq (node (last c'))" "writeSeq (node (last c')) = m"
    and L: "L = commitSeq (node l)" "L \<le> m"
    and send: "\<forall>u \<in> set (changed L t). u < 2 ^ 31 \<and> text_block (spec_read u (volume t m)) \<and>
      atomic_safe junk u (max 1 n + 7 * int (length (changed L t)))"
    and last: "last (L # map (stamp t) (changed L t)) = m"
  shows "\<exists>s c''. open_volume (new_process d n) = Some s \<and> chain_join c' junk s c'' \<and> chain_life c0 c'' \<and>
    length c'' = length c' + 1 \<and> commitSeq (node (last c'')) = m \<and> version_at (vol (node (last c''))) m = version_at t m"
proof -
  obtain H V z where V: "V b = v" and c: "chain_inv H V b z c" and st: "states c = chain_states (length c)"
    using chain_life_inv [OF assms(2,1)] by blast
  have lm: "latest_marks b (V b)" using assms(1) V by (simp add: started_chain_def)
  obtain H' V' z' where e: "extends z V z' V'" and c': "chain_inv H' V' b z' c'" and st': "states c' = chain_states (length c')"
    using chain_life_extends [OF life c st lm] by blast
  have n: "node_inv H V b z (node l)" using assms(3) chain_invD(4) [OF c] link_invD(1) by (metis in_set_conv_nth)
  have n': "node_inv H' V' b z' (node (last c'))"
    using link_invD(1) [OF chain_invD(4) [OF c', of "length c' - 1"]] chain_invD(1) [OF c'] by (simp add: last_conv_nth)
  note a = node_invD [OF n] and a' = node_invD [OF n']
  have b: "0 \<le> b" "b \<le> L" "L \<le> z" using a(4-6) chain_invD(2) [OF c] L(1) by (simp_all add: history_def)
  have lm': "latest_marks b (V' b)" using lm e b by (simp add: extends_def)
  have s: "volume_inv (writeSeq (node l)) (vol (node l))" using a(2) by (simp add: st.holds_def)
  obtain s where o: "open_volume (new_process d n) = Some s"
    and sa: "atomic_inv L s" "version_at s L = version_at (vol (node l)) L" "num_total_blocks s = max 1 n"
    using crash_version [OF s d] a(3) L(1) by metis
  have "version_at s L = V' L" using sa(2) a(2,3,5) L(1) e b by (simp add: st.holds_def extends_def)
  moreover have "version_at t m = V' m" using quiet_volume(2) [OF n'] t by simp
  moreover have "up_to L (V' L) (V' m)" by (rule history_up_to [OF chain_invD(2) [OF c'] b(2) L(2)]) (use a'(5,6) t in simp)
  ultimately have "up_to L (version_at s L) (version_at t m)" by simp
  moreover have "last_committed s = L" using sa(1) by (simp add: atomic_inv_def)
  ultimately have ok: "benign_join c' junk s"
    using sa L(2) b send last t by (simp add: benign_join_def Let_def)
  obtain c'' where j: "chain_join c' junk s c''" "length c'' = length c' + 1" "commitSeq (node (last c'')) = m" "writeSeq (node (last c'')) = m"
    using join_exists [OF c' st' lm' ok free] t(2) by (metis length_append_singleton length_list_update Suc_eq_plus1)
  have "chain_life c0 c''" using chain_life.joined [OF chain_life_trans [OF life assms(2)] j(1) ok] .
  moreover have "version_at (vol (node (last c''))) m = version_at t m"
  proof -
    have c2: "chain_inv H' V' b z' c''" by (rule chain_join_inv(1) [OF j(1) ok c' st' lm'])
    have "node_inv H' V' b z' (node (last c''))"
      using link_invD(1) [OF chain_invD(4) [OF c2, of "length c'' - 1"]] chain_invD(1) [OF c2] by (simp add: last_conv_nth)
    from quiet_volume(2) [OF this] show ?thesis using j(3,4) \<open>version_at t m = V' m\<close> by simp
  qed
  ultimately show ?thesis using o j by blast
qed

text \<open>
  The disk is that of the second server of the new chain before any write; the chain takes a write and loses that server,
  which then comes back with the old disk.
\<close>

theorem crashed_server_rejoins_witness:
  "\<exists>c' s c''. chain_life new_chain c' \<and> length c' = 1 \<and>
    open_volume (new_process (durable new_volume) (file_blocks new_volume)) = Some s \<and> chain_join c' (\<lambda>_. 0) s c'' \<and>
    length c'' = 2 \<and> commitSeq (node (last c'')) = 1 \<and>
    version_at (vol (node (last c''))) 1 = mark_write 1 8192 (replicate 4095 7 @ [0]) blank"
proof -
  obtain l where l: "chain_life new_chain [l]" "commitSeq (node l) = 1" "writeSeq (node l) = 1"
    "\<not> changemode_locked (node l)" "version_at (vol (node l)) 1 = mark_write 1 8192 (replicate 4095 7 @ [0]) blank"
    by (rule demo_lost) blast
  obtain H V z where c: "chain_inv H V 0 z [l]" using chain_life_inv [OF l(1) new_chain_started] by blast
  have n: "node_inv H V 0 z (node l)" using link_invD(1) [OF chain_invD(4) [OF c, of 0]] by simp
  have j: "benign_join [l] (\<lambda>_. 0) new_volume"
    by (rule demo_join) (use quiet_volume(1) [OF n] l in simp_all)
  let ?n = "file_blocks new_volume" and ?l = "new_link second_server"
  have nb: "file_blocks new_volume = 1" "num_total_blocks new_volume = 1" "last_committed new_volume = 0"
    by (simp add: new_volume_def new_process_def, simp_all add: new_volume_total new_volume_committed)
  have s: "vol (node ?l) = new_volume" "commitSeq (node ?l) = 0" "?l \<in> set new_chain"
    by (simp_all add: new_chain_def new_link_def server_start_defs)
  have img: "crash_image (vol (node ?l)) (durable new_volume) ?n"
    using storage_invD(8) [OF new_volume_inv] by (simp add: s(1) crash_image_def durable_inv_def)
  have b: "\<forall>u \<in> set (changed 0 (vol (node l))). u < 2 ^ 31 \<and> text_block (spec_read u (volume (vol (node l)) 1)) \<and>
      atomic_safe (\<lambda>_. 0) u (max 1 ?n + 7 * int (length (changed 0 (vol (node l)))))"
    "last (0 # map (stamp (vol (node l))) (changed 0 (vol (node l)))) = 1"
    using j l(2) unfolding benign_join_def Let_def nb by simp_all
  have "\<exists>s c''. open_volume (new_process (durable new_volume) ?n) = Some s \<and> chain_join [l] (\<lambda>_. 0) s c'' \<and> chain_life new_chain c'' \<and>
      length c'' = length [l] + 1 \<and> commitSeq (node (last c'')) = 1 \<and> version_at (vol (node (last c''))) 1 = version_at (vol (node l)) 1"
    by (rule crashed_server_rejoins [OF new_chain_started chain_life.start s(3) img _ l(1), where L = 0 and m = 1])
       (use l nb s b in simp_all)
  then show ?thesis using l(1,5) by fastforce
qed

end
