(* ===== verification/Client.thy ===== *)
theory Client
  imports Server_Node
begin

text \<open>
  The client library (\<^verbatim>\<open>client_api.cpp\<close>). Every call is a loop that repeats a remote call until it
  gets through, asking the master for the current ends of the chain in between. What happens in
  the rounds of a loop is a list of attempts: the clock, whether the call succeeds and what it
  returns, and the master's answer; a loop that uses up the list is still waiting (\<open>None\<close>). The
  result lists the requests that were sent, since a call that fails may still have been executed.
\<close>

section \<open>State\<close>

record pending_write =
  pw_data :: block
  pw_offset :: int

record client =
  client_ip :: string
  client_pid :: int
  head_addr :: server_ip
  tail_addr :: server_ip
  pending_writes :: "(timestamp, pending_write) smap"
  pending_locked :: bool

record 'r attempt =
  att_clock :: timestamp
  att_reply :: "'r option"
  att_config :: "(server_ip \<times> server_ip) option"

definition refreshConfig :: "(server_ip \<times> server_ip) option \<Rightarrow> client \<Rightarrow> cpp_error + client" where
  "refreshConfig config c =
     (case config of
        None \<Rightarrow> Inl (Runtime_error ''Client: Can't contact the master'')
      | Some (h, t) \<Rightarrow> Inr (c\<lparr>head_addr := h, tail_addr := t\<rparr>))"

definition new_client :: "string \<Rightarrow> int \<Rightarrow> (server_ip \<times> server_ip) option \<Rightarrow> cpp_error + client" where
  "new_client address process config =
     refreshConfig config \<lparr>client_ip = address, client_pid = process, head_addr = \<lparr>si_ip = [], si_port = 0\<rparr>,
       tail_addr = \<lparr>si_ip = [], si_port = 0\<rparr>, pending_writes = [], pending_locked = False\<rparr>"

definition request_id :: "timestamp \<Rightarrow> client \<Rightarrow> client_request_id" where
  "request_id t c = \<lparr>ip = client_ip c, pid = to_uint64 (client_pid c), timestamp = t\<rparr>"

section \<open>Operations\<close>

text \<open>\<^verbatim>\<open>memcpy\<close> of one block from the reply's string, which ends in a NUL.\<close>

fun client_read :: "byte list attempt list \<Rightarrow> int \<Rightarrow> client \<Rightarrow> ((cpp_error + block) \<times> client \<times> int list) option" where
  "client_read [] offset c = None"
| "client_read (a # as) offset c =
     (case att_reply a of
        Some d \<Rightarrow> Some (string_block d, c, [to_uint64 offset])
      | None \<Rightarrow>
          (case refreshConfig (att_config a) c of
             Inl e \<Rightarrow> Some (Inl e, c, [to_uint64 offset])
           | Inr c \<Rightarrow>
               (case client_read as offset c of
                  None \<Rightarrow> None
                | Some (r, c, requests) \<Rightarrow> Some (r, c, to_uint64 offset # requests))))"

text \<open>Every attempt of a write carries the time at which it is made.\<close>

definition write_request_at :: "timestamp \<Rightarrow> block \<Rightarrow> int \<Rightarrow> client \<Rightarrow> cpp_error + write_request" where
  "write_request_at t d offset c =
     (case c_string d of
        Inl e \<Rightarrow> Inl e
      | Inr s \<Rightarrow> Inr \<lparr>wr_data = s, wr_offset = to_uint64 offset, wr_id = request_id t c\<rparr>)"

fun write_loop ::
  "unit attempt list \<Rightarrow> block \<Rightarrow> int \<Rightarrow> client \<Rightarrow> ((cpp_error + timestamp) \<times> client \<times> write_request list) option" where
  "write_loop [] d offset c = None"
| "write_loop (a # as) d offset c =
     (case write_request_at (att_clock a) d offset c of
        Inl e \<Rightarrow> Some (Inl e, c, [])
      | Inr request \<Rightarrow>
          (case att_reply a of
             Some _ \<Rightarrow>
               Some (Inr (att_clock a), c\<lparr>pending_writes := fst (map_insert (att_clock a)
                 \<lparr>pw_data = d, pw_offset = offset\<rparr> (pending_writes c))\<rparr>, [request])
           | None \<Rightarrow>
               (case refreshConfig (att_config a) c of
                  Inl e \<Rightarrow> Some (Inl e, c, [request])
                | Inr c \<Rightarrow>
                    (case write_loop as d offset c of
                       None \<Rightarrow> None
                     | Some (r, c, requests) \<Rightarrow> Some (r, c, request # requests)))))"

definition client_write ::
  "unit attempt list \<Rightarrow> block \<Rightarrow> int \<Rightarrow> client \<Rightarrow> ((cpp_error + timestamp) \<times> client \<times> write_request list) option" where
  "client_write as d offset c =
     (if pending_locked c then None
      else
        (case write_loop as d offset (c\<lparr>pending_locked := True\<rparr>) of
           None \<Rightarrow> None
         | Some (Inl e, c, requests) \<Rightarrow> Some (Inl e, c, requests)
         | Some (Inr t, c, requests) \<Rightarrow> Some (Inr t, c\<lparr>pending_locked := False\<rparr>, requests)))"

fun ackWrite ::
  "bool attempt list \<Rightarrow> timestamp \<Rightarrow> client \<Rightarrow> ((cpp_error + int) \<times> client \<times> client_request_id list) option" where
  "ackWrite [] t c = None"
| "ackWrite (a # as) t c =
     (case att_reply a of
        Some committed \<Rightarrow> Some (Inr (if committed then 0 else - 1), c, [request_id t c])
      | None \<Rightarrow>
          (case refreshConfig (att_config a) c of
             Inl e \<Rightarrow> Some (Inl e, c, [request_id t c])
           | Inr c \<Rightarrow>
               (case ackWrite as t c of
                  None \<Rightarrow> None
                | Some (r, c, requests) \<Rightarrow> Some (r, c, request_id t c # requests))))"

text \<open>The first pending write; dereferencing \<^verbatim>\<open>begin()\<close> of an empty map is undefined.\<close>

definition popPendingWrite :: "client \<Rightarrow> ((cpp_error + timestamp \<times> pending_write) \<times> client) option" where
  "popPendingWrite c =
     (if pending_locked c then None
      else Some (case pending_writes c of
                   [] \<Rightarrow> (Inl Undefined, c)
                 | (t, e) # rest \<Rightarrow> (Inr (t, e), c\<lparr>pending_writes := rest\<rparr>)))"

definition peekPendingWrite :: "client \<Rightarrow> ((cpp_error + timestamp \<times> pending_write) \<times> client) option" where
  "peekPendingWrite c =
     (if pending_locked c then None
      else Some (case pending_writes c of [] \<Rightarrow> (Inl Undefined, c) | (t, e) # rest \<Rightarrow> (Inr (t, e), c)))"

fun retryTopPendingWrite ::
  "unit attempt list \<Rightarrow> client \<Rightarrow> ((cpp_error + timestamp) \<times> client \<times> write_request list) option" where
  "retryTopPendingWrite [] c = None"
| "retryTopPendingWrite (a # as) c =
     (case pending_writes c of
        [] \<Rightarrow> Some (Inl Undefined, c, [])
      | (t, e) # _ \<Rightarrow>
          (case write_request_at t (pw_data e) (pw_offset e) c of
             Inl x \<Rightarrow> Some (Inl x, c, [])
           | Inr request \<Rightarrow>
               (case att_reply a of
                  Some _ \<Rightarrow> Some (Inr t, c, [request])
                | None \<Rightarrow>
                    (case refreshConfig (att_config a) c of
                       Inl x \<Rightarrow> Some (Inl x, c, [request])
                     | Inr c \<Rightarrow>
                         (case retryTopPendingWrite as c of
                            None \<Rightarrow> None
                          | Some (r, c, requests) \<Rightarrow> Some (r, c, request # requests))))))"

fun client_checksum :: "checksum_reply attempt list \<Rightarrow> client \<Rightarrow> ((cpp_error + checksum_reply) \<times> client) option" where
  "client_checksum [] c = None"
| "client_checksum (a # as) c =
     (case att_reply a of
        Some r \<Rightarrow> Some (Inr r, c)
      | None \<Rightarrow>
          (case refreshConfig (att_config a) c of
             Inl e \<Rightarrow> Some (Inl e, c)
           | Inr c \<Rightarrow> client_checksum as c))"

section \<open>Blocks as C strings\<close>

text \<open>
  The client hands \<^verbatim>\<open>char buff[4096]\<close> to \<^verbatim>\<open>set_data\<close> as a C string, so only the bytes before the first
  NUL travel, and the server then reads a whole block from what arrived.
\<close>

lemma c_string_first:
  assumes "is_block d" and "k < BLOCK_SIZE" "d ! k = 0" "\<forall>i < k. d ! i \<noteq> 0"
  shows "c_string d = Inr (take k d)"
proof -
  have len: "k < length d" using assms(1,2) by (simp add: is_block_def)
  then have z: "0 \<in> set d" using assms(3) by (metis nth_mem)
  have d: "take k d @ d ! k # drop (Suc k) d = d" using id_take_nth_drop [OF len, symmetric] .
  have "\<forall>b \<in> set (take k d). b \<noteq> 0" using assms(4) len by (auto simp: in_set_conv_nth)
  then have "takeWhile (\<lambda>b. b \<noteq> 0) (take k d @ d ! k # drop (Suc k) d) = take k d"
    using assms(3) by (simp add: takeWhile_append del: set_take_subset)
  then have "takeWhile (\<lambda>b. b \<noteq> 0) d = take k d" unfolding d .
  then show ?thesis using z by (simp add: c_string_def)
qed

lemma string_block_of_prefix:
  assumes "is_block d" and "k < BLOCK_SIZE" "d ! k = 0"
  shows "string_block (take BLOCK_SIZE (take k d)) = (if k + 1 = BLOCK_SIZE then Inr d else Inl Undefined)"
proof (cases "k + 1 = BLOCK_SIZE")
  case True
  then have "take k d @ [0] = d" using assms take_Suc_conv_app_nth [of k d] by (simp add: is_block_def)
  then show ?thesis using True assms by (simp add: string_block_def is_block_def)
next
  case False
  then show ?thesis using assms by (simp add: string_block_def is_block_def)
qed

section \<open>Properties\<close>

text \<open>A client, a full block of text and a server without writes, for the examples.\<close>

definition demo_client :: client where
  "demo_client = \<lparr>client_ip = ''10.0.0.9'', client_pid = 42, head_addr = \<lparr>si_ip = [], si_port = 0\<rparr>,
     tail_addr = \<lparr>si_ip = [], si_port = 0\<rparr>, pending_writes = [], pending_locked = False\<rparr>"

definition demo_block :: block where
  "demo_block = replicate 4095 65 @ [0]"

definition demo_server :: server_node where
  "demo_server = start_server ''10.0.0.1'' 18001 (new_process (\<lambda>_. zero_block) 0)"

lemma demo_text: "c_string demo_block = Inr (replicate 4095 65)"
  using c_string_first [of demo_block 4095] by (simp add: demo_block_def is_block_def nth_append)

lemma demo_server_fields: "replayLog demo_server = []" "pendingQueue demo_server = empty_pending_queue" "currentSeq demo_server = 1"
  by (simp_all add: demo_server_def start_server_def get_sequence_number_def last_committed_def new_process_def)

text \<open>
  C28. A block of the client reaches the volume of the head unchanged exactly when its first NUL is
  its last byte. If a NUL comes earlier, the server reads past the end of the string it received.
\<close>

theorem block_survives_iff_text:
  assumes "is_block d" and "k < BLOCK_SIZE" "d ! k = 0" "\<forall>i < k. d ! i \<noteq> 0"
  shows "\<exists>request. write_request_at t d offset c = Inr request \<and>
    string_block (take BLOCK_SIZE (wr_data request)) = (if k + 1 = BLOCK_SIZE then Inr d else Inl Undefined)"
  using c_string_first [OF assms] string_block_of_prefix [OF assms(1-3)] by (simp add: write_request_at_def)

theorem block_survives_iff_text_witness:
  "let d = replicate 7 65 @ replicate 4089 0 in
   \<exists>request. write_request_at (Timestamp 5 0) d 0 demo_client = Inr request \<and>
    string_block (take BLOCK_SIZE (wr_data request)) = (if 7 + 1 = BLOCK_SIZE then Inr d else Inl Undefined)"
  unfolding Let_def by (rule block_survives_iff_text) (simp_all add: is_block_def nth_append)

text \<open>How the head answers a request, in terms of the replay log.\<close>

lemma Write_known_request:
  assumes "log_wf (replayLog n)" and "status (replayLog n) (request_key (wr_id request)) \<noteq> None"
  shows "Write request n = (Inr 0, n)"
proof -
  have "fst (addToLog (wr_id request) (replayLog n)) = - 1" by (rule rl.add_present [OF assms])
  then show ?thesis using addToLog_refused [OF assms(1), of "wr_id request"]
    by (simp add: Write_def Let_def case_prod_unfold)
qed

lemma Write_replayLog: "replayLog (snd (Write request n)) = snd (addToLog (wr_id request) (replayLog n))"
  by (simp add: Write_def Let_def case_prod_unfold split: sum.splits)



text \<open>
  C30. A write whose first attempt was executed although the call failed is not recognised when
  \<^verbatim>\<open>Client::write\<close> tries again, because the second attempt carries a new time stamp: the head gives
  the two attempts different sequence numbers, and the write is made twice.
\<close>

theorem repeated_write_made_twice:
  assumes "client_write [a1, a2] d offset c = Some (Inr t, c', [r1, r2])" and "att_clock a1 < att_clock a2"
    and "log_wf (replayLog n)" and "\<forall>t. status (replayLog n) (client_identifier (request_id t c), t) = None"
    and "pendingQueue n = empty_pending_queue" and "0 < currentSeq n" and "currentSeq n + 1 < 2 ^ 31"
  shows "fst (Write r1 n) = Inr (currentSeq n) \<and> fst (Write r2 (snd (Write r1 n))) = Inr (currentSeq n + 1)"
proof -
  obtain h t' where "att_config a1 = Some (h, t')" and r1: "wr_id r1 = request_id (att_clock a1) c"
    and r2: "wr_id r2 = request_id (att_clock a2) c"
    using assms(1) by (auto simp: client_write_def write_request_at_def request_id_def refreshConfig_def
        split: if_splits option.splits sum.splits prod.splits)
  let ?n = "snd (Write r1 n)" and ?i = "client_identifier (request_id t c)"
  have i: "client_identifier (request_id x c) = ?i" for x by (simp add: client_identifier_def request_id_def)
  have ti: "timestamp (request_id x c) = x" for x by (simp add: request_id_def)
  have k: "request_key (wr_id r1) = (?i, att_clock a1)" "request_key (wr_id r2) = (?i, att_clock a2)"
    using i [of "att_clock a1"] i [of "att_clock a2"] ti by (simp_all add: request_key_def r1 r2)
  have none: "status (replayLog n) (?i, x) = None" for x using assms(4) i by metis
  have a: "fst (addToLog (wr_id r1) (replayLog n)) = 0"
    "status (snd (addToLog (wr_id r1) (replayLog n))) = (status (replayLog n))((?i, att_clock a1) \<mapsto> False)"
    using none by (simp_all add: addToLog_result [OF assms(3)] spec_add_def k stale_def)
  have b: "fst (addToLog (wr_id r2) (replayLog ?n)) = 0"
    unfolding Write_replayLog addToLog_result(1) [OF rl.wf_add [OF assms(3)]] a(2) k
    using none assms(2) by (auto simp: spec_add_def stale_def)
  have s: "to_int64 (currentSeq n + 1) = currentSeq n + 1" "to_uint64 (currentSeq n) = currentSeq n"
    "to_uint64 (currentSeq n + 1) = currentSeq n + 1" "to_int32 (currentSeq n) = currentSeq n"
    "to_int32 (currentSeq n + 1) = currentSeq n + 1"
    using assms(6,7) by simp_all
  have w: "fst (Write r1 n) = Inr (currentSeq n)" "currentSeq ?n = currentSeq n + 1"
    "seqNumSet (pendingQueue ?n) = {currentSeq n}"
    using a(1) assms(5) s by (simp_all add: Write_def Let_def case_prod_unfold pushEntry_def empty_pending_queue_def)
  have "fst (Write r2 ?n) = Inr (currentSeq n + 1)"
    using b w(2,3) s by (simp add: Write_def [of r2 ?n] Let_def case_prod_unfold pushEntry_def)
  with w(1) show ?thesis by simp
qed

theorem repeated_write_made_twice_witness:
  "let h = \<lparr>si_ip = ''10.0.0.1'', si_port = 19001\<rparr>;
       a1 = \<lparr>att_clock = Timestamp 5 0, att_reply = None, att_config = Some (h, h)\<rparr>;
       a2 = \<lparr>att_clock = Timestamp 6 0, att_reply = Some (), att_config = None\<rparr>;
       r = (\<lambda>t. \<lparr>wr_data = replicate 4095 65, wr_offset = 8192, wr_id = request_id t demo_client\<rparr>);
       c' = demo_client\<lparr>head_addr := h, tail_addr := h,
         pending_writes := [(Timestamp 6 0, \<lparr>pw_data = demo_block, pw_offset = 8192\<rparr>)]\<rparr> in
   client_write [a1, a2] demo_block 8192 demo_client =
     Some (Inr (Timestamp 6 0), c', [r (Timestamp 5 0), r (Timestamp 6 0)]) \<and>
   fst (Write (r (Timestamp 5 0)) demo_server) = Inr (currentSeq demo_server) \<and>
   fst (Write (r (Timestamp 6 0)) (snd (Write (r (Timestamp 5 0)) demo_server))) = Inr (currentSeq demo_server + 1)"
proof -
  let ?h = "\<lparr>si_ip = ''10.0.0.1'', si_port = 19001\<rparr>"
  let ?a1 = "\<lparr>att_clock = Timestamp 5 0, att_reply = None, att_config = Some (?h, ?h)\<rparr>"
  let ?a2 = "\<lparr>att_clock = Timestamp 6 0, att_reply = Some (), att_config = None\<rparr>"
  let ?r = "\<lambda>t. \<lparr>wr_data = replicate 4095 65, wr_offset = 8192, wr_id = request_id t demo_client\<rparr>"
  let ?c = "demo_client\<lparr>head_addr := ?h, tail_addr := ?h,
      pending_writes := [(Timestamp 6 0, \<lparr>pw_data = demo_block, pw_offset = 8192\<rparr>)]\<rparr>"
  have w: "client_write [?a1, ?a2] demo_block 8192 demo_client =
      Some (Inr (Timestamp 6 0), ?c, [?r (Timestamp 5 0), ?r (Timestamp 6 0)])"
    using demo_text by (simp add: client_write_def write_request_at_def request_id_def demo_client_def refreshConfig_def)
  have "fst (Write (?r (Timestamp 5 0)) demo_server) = Inr (currentSeq demo_server) \<and>
      fst (Write (?r (Timestamp 6 0)) (snd (Write (?r (Timestamp 5 0)) demo_server))) = Inr (currentSeq demo_server + 1)"
    by (rule repeated_write_made_twice [OF w])
       (simp_all add: demo_server_fields status_def less_timestamp_def googleTimestampComparator_def)
  with w show ?thesis unfolding Let_def by blast
qed

text \<open>
  When the master cannot be reached during a write, \<^verbatim>\<open>refreshConfig\<close> throws and the mutex of the
  pending writes stays locked: later writes and accesses to the pending writes never return.
\<close>

theorem failed_write_blocks_client:
  assumes "client_write as d offset c = Some (Inl e, c', requests)"
  shows "client_write as' d' offset' c' = None \<and> popPendingWrite c' = None \<and> peekPendingWrite c' = None"
proof -
  have keep: "write_loop as d offset x = Some (Inl e, x', rs) \<Longrightarrow> pending_locked x' = pending_locked x" for x x' rs
    by (induction "as" arbitrary: x rs)
      (auto simp: refreshConfig_def split: sum.splits option.splits prod.splits)
  have "pending_locked c'"
    using assms keep by (auto simp: client_write_def split: if_splits option.splits sum.splits)
  then show ?thesis by (simp add: client_write_def popPendingWrite_def peekPendingWrite_def)
qed

theorem failed_write_blocks_client_witness:
  "let a = \<lparr>att_clock = Timestamp 5 0, att_reply = None, att_config = None\<rparr>;
       b = \<lparr>att_clock = Timestamp 6 0, att_reply = Some (), att_config = None\<rparr>;
       c' = demo_client\<lparr>pending_locked := True\<rparr> in
   (\<exists>requests. client_write [a] demo_block 8192 demo_client =
     Some (Inl (Runtime_error ''Client: Can't contact the master''), c', requests)) \<and>
   client_write [b] demo_block 8192 c' = None \<and> popPendingWrite c' = None \<and> peekPendingWrite c' = None"
proof -
  let ?a = "\<lparr>att_clock = Timestamp 5 0, att_reply = None, att_config = None\<rparr>"
  let ?c = "demo_client\<lparr>pending_locked := True\<rparr>"
  obtain requests where w: "client_write [?a] demo_block 8192 demo_client =
      Some (Inl (Runtime_error ''Client: Can't contact the master''), ?c, requests)"
    using demo_text by (simp add: client_write_def write_request_at_def demo_client_def refreshConfig_def)
  show ?thesis unfolding Let_def using w failed_write_blocks_client [OF w] by blast
qed

end
