(* ===== verification/Spec2Isabelle.thy ===== *)
theory Spec2Isabelle
  imports Pending_Queue Sent_List Replay_Log Crash Volume_Choice Storage_Crash Chain_Writes Chain_Checksum Rejoin Client
begin

text \<open>
  A verification of Chained-Block-Storage, a block store replicated over a chain of servers: clients
  send writes to the head and reads to the tail, every server stores a write and passes it on, the
  tail commits it and the commits travel back up; a master watches the servers and repairs the chain.

  \<^bold>\<open>Parts of the program and their theories.\<close>

  \<^item> Shared vocabulary. \<open>Prelude\<close>: C++ integers at their width, errors as values (\<open>cpp_error\<close>; \<open>Undefined\<close> is
    undefined behaviour), \<^verbatim>\<open>std::map\<close> as the locale \<open>std_map\<close> interpreted on sorted lists, little-endian bytes.
    \<open>Messages\<close>: time stamps and request identifiers of \<^verbatim>\<open>protos/server.proto\<close>.
  \<^item> The tables of a server (\<^verbatim>\<open>headers/tables.hpp\<close>, \<^verbatim>\<open>tablesImpl/\<close>). \<open>Pending_Queue\<close>, \<open>Sent_List\<close>,
    \<open>Replay_Log\<close>: one definition per member function. The locales \<open>priority_buffer\<close> and
    \<open>request_log\<close> state what the relay thread and the write path rely on.
  \<^item> Crash codes (\<^verbatim>\<open>crash.cpp\<close>): \<open>Crash\<close>.
  \<^item> The volume (\<^verbatim>\<open>storage.cpp\<close>). \<open>Block_Codec\<close>: the union of metadata blocks on 4096 bytes. \<open>Storage\<close>: every
    operation of the file, on a state with the file as the process sees it, the blocks that are durable and the
    writes not yet synchronised. \<open>Storage_Tree\<close> to \<open>Storage_Data\<close>: what one copy-on-write step does to the tree.
    \<open>Storage_Inv\<close>: the invariant and the volume as a sequence of versions. \<open>Storage_Refine\<close>: writes, reads and commits
    refine operations on versions (the array of bytes and how blocks make it up are in \<open>Byte_Volume\<close>). \<open>Storage_Walk\<close>, \<open>Storage_Crash\<close>: \<^verbatim>\<open>open_volume\<close> after a crash. \<open>Storage_Resend\<close>: reading
    an uncommitted write back. \<open>Storage_Marks\<close>: the number of the last write to each block, kept per version.
    \<open>Storage_Cells\<close>: the loops of \<^verbatim>\<open>get_modified_offsets\<close> and \<^verbatim>\<open>checksum\<close>, as one walk over all blocks.
  \<^item> The other volume (\<^verbatim>\<open>storage-nonatomic.cpp\<close>, a build option). \<open>Nonatomic\<close>: every operation on a file of bytes.
    \<open>Nonatomic_Refine\<close>: its invariant, and that it is an array of bytes as long as uncommitted writes touch different
    blocks. \<open>Nonatomic_Limits\<close>: restarts, and what goes wrong beyond that. \<open>Volume_Choice\<close>: the contract of
    \<^verbatim>\<open>storage.hpp\<close> as the locale \<open>block_store\<close>, interpreted on both volumes; used one write at a time they agree.
  \<^item> A server (\<^verbatim>\<open>server_main.cpp\<close>, \<^verbatim>\<open>interfaceImpl/serverService/\<close>). \<open>Server_Node\<close>: the globals as a record,
    every rpc handler and the stages of the two background threads; calls to other servers are part of a
    result. \<open>Replica\<close>: the locale \<open>versioned_volume\<close>, the contract between the volume and the server,
    interpreted on \<open>Storage\<close>. \<open>Node_Inv\<close>: the invariant of a server and what each handler does under it.
    \<open>Mode_Change\<close>: \<^verbatim>\<open>ChangeMode\<close> and resending. \<open>New_Tail\<close>: \<^verbatim>\<open>Restore\<close> and \<^verbatim>\<open>UpdateReplayLog\<close> give a new
    tail the state of the old one; a volume without uncommitted writes takes a write under any number.
  \<^item> The chain. \<open>Chain\<close>: the servers of a fixed chain as a step relation; a step is one handler call or one
    stage of a background thread, and a call whose reply is lost is made again. \<open>Chain_Progress\<close>: a write gets
    through a quiet chain. \<open>Failures\<close>: servers are lost and the master's \<^verbatim>\<open>ChangeMode\<close> calls reach the ones that are
    left, with writes under way. \<open>Chain_Life\<close>: a server joins as the new tail; \<open>chain_life\<close> is everything a chain may
    go through. \<open>Chain_Writes\<close>: the same with the list of the writes that clients were told are accepted, which is the history
    the servers hold. \<open>Rejoin\<close>: versions do not change over time, and a crashed server comes back. \<open>Chain_Checksum\<close>: the checksum of the
    chain. The theorems about whole chains are in this theory.
  \<^item> The master (\<^verbatim>\<open>master_main.cpp\<close>, \<^verbatim>\<open>interfaceImpl/masterService/\<close>). \<open>Master\<close>, \<open>Master_Inv\<close>: registration, heartbeats and
    the handling of failures, for every outcome of every call.
  \<^item> Start and end of the processes. \<open>Startup\<close>: \<^verbatim>\<open>parse_args\<close>, \<^verbatim>\<open>main\<close> and \<^verbatim>\<open>register_server\<close> of a server, what the
    master prints and how it ends, \<^verbatim>\<open>nanos_diff\<close> of \<^verbatim>\<open>timing.h\<close>; a crashed server that is started again.
  \<^item> The client library (\<^verbatim>\<open>client_api.cpp\<close>). \<open>Client\<close>: every operation, with the outcomes of its attempts as a list.

  \<^bold>\<open>What is proved.\<close> The volume is a sequence of versions; writes and commits are atomic with respect to crashes,
  and a reopened volume is the last committed version. The non-atomic volume agrees with it when writes are
  committed one by one, and fails in known ways otherwise. Servers of a chain, in any interleaving, through losses of servers at the end or in the middle and
  through servers joining at the end, hold versions of one history of writes (a version is the contents with the number of
  the last write to each block); commits are ordered along the chain; a client that is told its write is committed
  can rely on it; a write to a quiet chain reaches every server, and servers that have committed the same writes
  have the same checksum. The master's list, its pointers and the states
  of the servers stay consistent through every failure and registration; a new tail is brought to the
  version of the old one, and a server that crashed joins again with what its disk still holds. A server promoted to head does not continue the numbering of the chain and stops storing writes. Where the code does not do what its
  comments say or what its callers need, the theorem says what it does instead (lost mutexes,
  truncated blocks, repeated writes, stale reads, time stamps and checksums).

  \<^bold>\<open>Bounds.\<close> Sequence numbers are kept below \<open>2\<^sup>3\<^sup>1\<close>, where the \<^verbatim>\<open>int\<close> keys of the tables and the \<^verbatim>\<open>long\<close> counters agree; block
  numbers below \<open>2\<^sup>3\<^sup>1\<close> likewise. The depth argument of \<open>hlp_Manage_Failure\<close> is 2, which is enough for every well-formed
  list (\<open>failure_keeps_chain\<close> shows it returns); the fuel of \<open>rpc_retry\<close> is the number of heartbeats a new server gets, and
  \<open>register_keeps_chain\<close> shows what a registration comes to when one of them is answered.

  \<^bold>\<open>Assumptions.\<close> Handlers and stages are atomic (the tables have mutexes; the volume's own state has none in
  places where the server relies on one thread per operation). An aligned write whose path has a
  non-zero second or third index writes one stray block at an uninitialised block number; the refinement
  theorems ask that this number is not in use (\<open>stray_ok\<close>). The theorems about chains are for block-aligned
  writes: an unaligned write reads its neighbours back, and the pending entry of a later write may
  have been erased by a commit (\<open>commit_hides_later_write\<close>).

  \<^bold>\<open>Not modelled.\<close> gRPC and protocol buffers, threads below the grain of a handler, sockets, logging, the
  benchmarks and test programs, \<^verbatim>\<open>helper.cpp\<close> and the printing of \<^verbatim>\<open>timing.h\<close> (doubles for measurements). A new
  tail that joins while the old one has uncommitted writes, or whose last received block is not the latest
  (\<open>benign_join\<close>; its volume then carries an older number than its server), and a middle
  failure after which a resent write is accepted under its wrong time stamp (\<open>benign_failure\<close>). The loops that call again with a gRPC context
  that has been used (\<^verbatim>\<open>ChangeMode\<close> in \<^verbatim>\<open>Register\<close>, \<^verbatim>\<open>RelayWrite\<close> when writes are resent) are followed up to their first failed call, after
  which their behaviour is undefined. The loss of the head is not a step of \<open>chain_life\<close>; \<open>promoted_head_stalls\<close> says what it leads to.
\<close>

section \<open>The chain\<close>

text \<open>
  C1. Whatever the interleaving of the servers' threads, lost replies included, whatever servers
  are lost from the end or the middle of the chain while writes are under way and whatever servers join as new tails, all servers of a
  chain hold the versions of one history: there is one sequence of aligned block writes, applied
  in order of sequence number to the version the chain started from, such that every version
  between the last committed and the last stored one of every server (contents, and which write changed each block last) is the version of that
  history with the same number. Writes that are resent after a loss in the middle have to be refused by
  the server after the gap (their requests carry the wrong time stamp), a new tail joins a tail without uncommitted writes, and the
  head is never lost.
\<close>

theorem chain_holds_one_history:
  assumes "started_chain b v c0" and "chain_life c0 c"
  shows "\<exists>H V z. V b = v \<and> history H V b z \<and> (\<forall>l \<in> set c. b \<le> commitSeq (node l) \<and>
    commitSeq (node l) \<le> writeSeq (node l) \<and> writeSeq (node l) \<le> z \<and>
    last_committed (vol (node l)) = commitSeq (node l) \<and>
    (\<forall>m. commitSeq (node l) \<le> m \<and> m \<le> writeSeq (node l) \<longrightarrow> version_at (vol (node l)) m = V m))"
proof -
  obtain H V z where c: "V b = v" "chain_inv H V b z c" using chain_life_inv [OF assms(2,1)] by blast
  have "node_inv H V b z (node l)" if "l \<in> set c" for l
    using that chain_invD(4) [OF c(2)] link_invD(1) by (metis in_set_conv_nth)
  from node_invD(2-6) [OF this] c(1) chain_invD(2) [OF c(2)] show ?thesis
    by (intro exI [of _ H] exI [of _ V] exI [of _ z]) (simp add: st.holds_def)
qed

theorem chain_holds_one_history_witness:
  "\<exists>c. chain_life new_chain c \<and> length c = 2 \<and> (\<forall>l \<in> set c. commitSeq (node l) = 1) \<and>
    (\<exists>H V z. V 0 = blank \<and> history H V 0 z \<and> (\<forall>l \<in> set c. 0 \<le> commitSeq (node l) \<and>
      commitSeq (node l) \<le> writeSeq (node l) \<and> writeSeq (node l) \<le> z \<and>
      last_committed (vol (node l)) = commitSeq (node l) \<and>
      (\<forall>m. commitSeq (node l) \<le> m \<and> m \<le> writeSeq (node l) \<longrightarrow> version_at (vol (node l)) m = V m)))"
proof -
  obtain c where c: "chain_life new_chain c" "length c = 2" "\<And>l. l \<in> set c \<Longrightarrow> commitSeq (node l) = 1" by (rule demo_life) blast
  with chain_holds_one_history [OF new_chain_started c(1)] show ?thesis by (intro exI [of _ c] conjI) blast+
qed

text \<open>
  C9. A write committed at one server is committed at all servers below it, and no server is
  more than one stored write ahead of a server above it, in any interleaving, through losses of servers at the end
  or in the middle of the chain and through joins of new tails; the head is never lost.
\<close>

theorem commit_order:
  assumes "started_chain b v c0" and "chain_life c0 c" and "i < j" and "j < length c"
  shows "commitSeq (node (c ! i)) \<le> commitSeq (node (c ! j)) \<and> writeSeq (node (c ! j)) \<le> writeSeq (node (c ! i)) + 1"
proof -
  obtain H V z where c: "chain_inv H V b z c" using chain_life_inv [OF assms(2,1)] by blast
  show ?thesis
    using below_inv_between [OF c assms(3,4)] by (auto simp: below_inv_def relayed_def split: if_splits)
qed

theorem commit_order_witness:
  "\<exists>c. chain_life new_chain c \<and> commitSeq (node (c ! 0)) = 1 \<and> commitSeq (node (c ! 0)) \<le> commitSeq (node (c ! 1)) \<and>
    writeSeq (node (c ! 1)) \<le> writeSeq (node (c ! 0)) + 1"
proof -
  obtain c where c: "chain_life new_chain c" "length c = 2" "\<And>l. l \<in> set c \<Longrightarrow> commitSeq (node l) = 1" by (rule demo_life) blast
  then have "commitSeq (node (c ! 0)) = 1" by simp
  with commit_order [OF new_chain_started c(1), of 0 1] c(1,2) show ?thesis by auto
qed

text \<open>
  C5. When \<^verbatim>\<open>WriteAck\<close> tells a client that its write is committed, it is: among the requests for which the head's
  \<^verbatim>\<open>Write\<close> returned a sequence number there is one with the client and time stamp of the acknowledged request, its number is at
  most that of the last write the tail has committed, and the tail's committed version is the
  starting version with exactly the accepted writes up to that number applied in the order of their numbers, this one among them. This
  holds in any interleaving, through losses of servers at the end or in the middle of the chain (with the resent writes
  refused) and joins of new tails (behind a tail without uncommitted writes); the head is never lost.
\<close>

theorem acknowledged_write_committed:
  assumes "started_chain b v c0" and "served c0 ws c" and "fst (WriteAck r (node (last c)))"
  shows "\<exists>q request. (q, request) \<in> set ws \<and> request_key (wr_id request) = request_key r \<and>
    b < q \<and> q \<le> commitSeq (node (last c)) \<and>
    version_at (vol (node (last c))) (commitSeq (node (last c))) =
      apply_writes (filter (\<lambda>w. fst w \<le> commitSeq (node (last c))) ws) v"
proof -
  let ?n = "node (last c)"
  obtain H V where h: "history_of b v ws H V" and c: "chain_inv H V b (b + int (length ws)) c" using served_inv [OF assms(2,1)] by blast
  have n: "node_inv H V b (b + int (length ws)) ?n"
    using link_invD(1) [OF chain_invD(4) [OF c, of "length c - 1"]] chain_invD(1) [OF c] by (simp add: last_conv_nth)
  have lc: "log_committed H b (commitSeq ?n) (replayLog ?n)" by (rule node_invD(8) [OF n])
  then have "status (replayLog ?n) (request_key r) = Some True"
    using assms(3) by (auto simp: log_committed_def WriteAck_def Let_def case_prod_unfold ackLogEntry_result
        spec_ack_def split: option.splits bool.splits if_splits)
  then obtain k where k: "b < k" "k \<le> commitSeq ?n" "request_key (reqId (H k)) = request_key r"
    using lc unfolding log_committed_def by blast
  define i where "i = nat (k - b - 1)"
  have i: "k = b + int i + 1" "i < length ws" using k(1,2) node_invD(5,6) [OF n] by (auto simp: i_def)
  have w: "ws ! i = (k, snd (ws ! i))" "H k = head_entry (snd (ws ! i)) k" using h i by (simp_all add: history_of_def prod_eq_iff)
  then have "(k, snd (ws ! i)) \<in> set ws" using i(2) by (metis nth_mem)
  moreover have "request_key (wr_id (snd (ws ! i))) = request_key r" using k(3) w(2) by (simp add: head_entry_def)
  ultimately show ?thesis using k(1,2) served_version [OF h n order_refl node_invD(5) [OF n]] by blast
qed

theorem acknowledged_write_committed_witness:
  "\<exists>c ws. served new_chain ws c \<and> length c = 2 \<and> fst (WriteAck (wr_id demo_request) (node (last c))) \<and>
    (\<exists>request. (1, request) \<in> set ws \<and> request_key (wr_id request) = request_key (wr_id demo_request)) \<and>
    version_at (vol (node (last c))) 1 = apply_writes (filter (\<lambda>w. fst w \<le> 1) ws) blank"
proof -
  obtain c where c: "chain_life new_chain c" "length c = 2" "\<And>l. l \<in> set c \<Longrightarrow> commitSeq (node l) = 1"
      "\<And>l. l \<in> set c \<Longrightarrow> fst (WriteAck (wr_id demo_request) (node l))"
    by (rule demo_life) blast
  have l: "last c \<in> set c" using c(2) by (metis last_in_set list.size(3) zero_neq_numeral)
  obtain ws where ws: "served new_chain ws c" using life_served [OF c(1)] by blast
  obtain q request where q: "(q, request) \<in> set ws" "request_key (wr_id request) = request_key (wr_id demo_request)" "0 < q"
      "q \<le> commitSeq (node (last c))" "version_at (vol (node (last c))) (commitSeq (node (last c))) =
        apply_writes (filter (\<lambda>w. fst w \<le> commitSeq (node (last c))) ws) blank"
    using acknowledged_write_committed [OF new_chain_started ws c(4) [OF l]] by blast
  have "q = 1" using q(3,4) c(3) [OF l] by simp
  then have r: "(1, request) \<in> set ws" using q(1) by simp
  have "version_at (vol (node (last c))) 1 = apply_writes (filter (\<lambda>w. fst w \<le> 1) ws) blank" using q(5) unfolding c(3) [OF l] .
  then show ?thesis using ws c(2) c(4) [OF l] q(2) r by blast
qed

text \<open>
  C8. A write that meets a quiet chain gets through, whatever the chain has been through before (losses of servers at the end or in the
  middle and joins of new tails; the head is never lost, see \<open>promoted_head_stalls\<close>). If every server is idle with the same writes
  stored and committed, the head's next number follows them, no server has seen the
  request, the request is an aligned block of at least 4095 bytes inside the volume and every server has room for it, the servers can take the steps that store and commit it at all of
  them, and then every version is the previous one with the block replaced and marked and the tail confirms
  the write to the client.
\<close>

theorem write_commits_everywhere:
  assumes "started_chain b v c0" and "chain_life c0 c"
    and "currentSeq (node (c ! 0)) = w + 1" and "benign c (Client_write request)"
    and "\<forall>l \<in> set c. settled w w l \<and> fst (addToLog (wr_id request) (replayLog (node l))) = 0 \<and>
      (\<exists>junk. store_ok junk (to_int64 (wr_offset request)) (vol (node l)))"
  shows "\<exists>c'. chain_run c c' \<and> chain_life c0 c' \<and> length c' = length c \<and> (\<forall>i < length c. settled (w + 1) (w + 1) (c' ! i) \<and>
    version_at (vol (node (c' ! i))) (w + 1) = mark_write (w + 1) (to_int64 (wr_offset request))
      (stored_block (take BLOCK_SIZE (wr_data request))) (version_at (vol (node (c ! i))) w) \<and>
    fst (WriteAck (wr_id request) (node (c' ! i))))"
proof -
  obtain H V z where c: "chain_inv H V b z c" and st: "states c = chain_states (length c)"
    using chain_life_inv [OF assms(2,1)] by blast
  from write_gets_through [OF c st assms(3-5)] chain_life_run [OF _ assms(2)] show ?thesis by blast
qed

theorem write_commits_everywhere_witness:
  "\<exists>c'. chain_run new_chain c' \<and> chain_life new_chain c' \<and> length c' = length new_chain \<and>
    (\<forall>i < length new_chain. settled (0 + 1) (0 + 1) (c' ! i) \<and>
    version_at (vol (node (c' ! i))) (0 + 1) = mark_write (0 + 1) (to_int64 (wr_offset demo_request))
      (stored_block (take BLOCK_SIZE (wr_data demo_request))) (version_at (vol (node (new_chain ! i))) 0) \<and>
    fst (WriteAck (wr_id demo_request) (node (c' ! i))))"
  by (rule write_commits_everywhere [OF new_chain_started chain_life.start new_chain_current demo_benign])
     (use demo_quiet in blast)

end
